(* ===== verification/Prelude.thy ===== *)
theory Prelude
  imports Main "HOL-Library.Multiset" "HOL-Library.List_Lexorder" "HOL-Library.Char_ord"
    "HOL-Library.Product_Lexorder" "HOL-Library.Option_ord" "HOL-Library.AList"
begin

text \<open>
  Shared vocabulary of the development: the exceptions the Python sources raise, results
  that are either an exception or a value, the comprehensions and loops of Python over
  such results, and generic facts on lists and sorting used by every component.

  An exception is its class and the constant part of its message; the interpolated part
  (names, sorted lists of identifiers) is left out.
\<close>

section \<open>Exceptions and results\<close>

datatype py_error =
    ValueError string
  | NoTopologyRepair string
  | ReservationRejected string
  | LifecycleRejected string
  | ModelError string
  | StaleCut string
  | ClosedGeneration string
  | AssertionError string
  | TypeError string
  | KeyError string
  | InjectedPrepareCrash string
  | SchemaError string

type_synonym 'a result = "py_error + 'a"

text \<open>
  The classes a handler \<open>except ValueError\<close> catches: the repository derives its own
  exceptions from \<open>ValueError\<close>.
\<close>

fun is_value_error :: "py_error \<Rightarrow> bool" where
  "is_value_error (ValueError _) = True"
| "is_value_error (NoTopologyRepair _) = True"
| "is_value_error (ReservationRejected _) = True"
| "is_value_error (LifecycleRejected _) = True"
| "is_value_error (ModelError _) = True"
| "is_value_error (StaleCut _) = True"
| "is_value_error (ClosedGeneration _) = True"
| "is_value_error (AssertionError _) = False"
| "is_value_error (TypeError _) = False"
| "is_value_error (KeyError _) = False"
| "is_value_error (InjectedPrepareCrash _) = False"
| "is_value_error (SchemaError _) = True"

fun error_message :: "py_error \<Rightarrow> string" where
  "error_message (ValueError m) = m"
| "error_message (NoTopologyRepair m) = m"
| "error_message (ReservationRejected m) = m"
| "error_message (LifecycleRejected m) = m"
| "error_message (ModelError m) = m"
| "error_message (StaleCut m) = m"
| "error_message (ClosedGeneration m) = m"
| "error_message (AssertionError m) = m"
| "error_message (TypeError m) = m"
| "error_message (KeyError m) = m"
| "error_message (InjectedPrepareCrash m) = m"
| "error_message (SchemaError m) = m"

text \<open>\<open>try: ... except ValueError as error: raise f(str(error))\<close>.\<close>

definition rethrow :: "(string \<Rightarrow> py_error) \<Rightarrow> 'a result \<Rightarrow> 'a result" where
  "rethrow f m =
     (case m of Inl e \<Rightarrow> Inl (if is_value_error e then f (error_message e) else e) | Inr x \<Rightarrow> Inr x)"

text \<open>Subscription of a dictionary.\<close>

definition dict_get :: "('k \<times> 'v) list \<Rightarrow> 'k \<Rightarrow> 'v result" where
  "dict_get d k = (case map_of d k of None \<Rightarrow> Inl (KeyError []) | Some v \<Rightarrow> Inr v)"

lemma rethrow_simps [simp]:
  "rethrow f (Inr x) = Inr x"
  "is_value_error e \<Longrightarrow> rethrow f (Inl e) = Inl (f (error_message e))"
  "rethrow f m = Inr x \<longleftrightarrow> m = Inr x"
  by (auto simp: rethrow_def split: sum.splits)

lemma dict_get_Some [simp]: "map_of d k = Some v \<Longrightarrow> dict_get d k = Inr v"
  by (simp add: dict_get_def)

lemma dict_get_Inr: "dict_get d k = Inr v \<longleftrightarrow> map_of d k = Some v"
  by (simp add: dict_get_def split: option.splits)

definition bind_r :: "'a result \<Rightarrow> ('a \<Rightarrow> 'b result) \<Rightarrow> 'b result" where
  "bind_r m f = (case m of Inl e \<Rightarrow> Inl e | Inr x \<Rightarrow> f x)"

definition is_ok :: "'a result \<Rightarrow> bool" where
  "is_ok m = (case m of Inl _ \<Rightarrow> False | Inr _ \<Rightarrow> True)"

lemma bind_r_simps [simp]:
  "bind_r (Inl e) f = Inl e"
  "bind_r (Inr x) f = f x"
  by (simp_all add: bind_r_def)

lemma bind_r_eq_Inr [simp]:
  "bind_r m f = Inr y \<longleftrightarrow> (\<exists>x. m = Inr x \<and> f x = Inr y)"
  by (cases m) auto

lemma bind_r_eq_Inl:
  "bind_r m f = Inl e \<longleftrightarrow> m = Inl e \<or> (\<exists>x. m = Inr x \<and> f x = Inl e)"
  by (cases m) auto

lemma is_ok_simps [simp]: "is_ok (Inl e) = False" "is_ok (Inr x) = True"
  by (simp_all add: is_ok_def)

lemma is_ok_iff: "is_ok m \<longleftrightarrow> (\<exists>x. m = Inr x)"
  by (cases m) auto

text \<open>A guard in front of a result: the shape of every \<open>if ...: raise\<close>.\<close>

lemma if_Inl_eq_Inr [simp]:
  "(if b then Inl e else m) = Inr x \<longleftrightarrow> \<not> b \<and> m = Inr x"
  by simp

section \<open>Loops and comprehensions whose body may raise\<close>

fun fold_r :: "('b \<Rightarrow> 'a \<Rightarrow> 'b result) \<Rightarrow> 'b \<Rightarrow> 'a list \<Rightarrow> 'b result" where
  "fold_r f acc [] = Inr acc"
| "fold_r f acc (x # xs) = bind_r (f acc x) (\<lambda>acc'. fold_r f acc' xs)"

fun map_r :: "('a \<Rightarrow> 'b result) \<Rightarrow> 'a list \<Rightarrow> 'b list result" where
  "map_r f [] = Inr []"
| "map_r f (x # xs) = bind_r (f x) (\<lambda>y. bind_r (map_r f xs) (\<lambda>ys. Inr (y # ys)))"

text \<open>\<open>all(...)\<close> stops at the first false element, before later elements can raise.\<close>

fun all_r :: "('a \<Rightarrow> bool result) \<Rightarrow> 'a list \<Rightarrow> bool result" where
  "all_r f [] = Inr True"
| "all_r f (x # xs) = bind_r (f x) (\<lambda>b. if b then all_r f xs else Inr False)"

fun filter_r :: "('a \<Rightarrow> bool result) \<Rightarrow> 'a list \<Rightarrow> 'a list result" where
  "filter_r f [] = Inr []"
| "filter_r f (x # xs) =
     bind_r (f x) (\<lambda>b. bind_r (filter_r f xs) (\<lambda>ys. Inr (if b then x # ys else ys)))"

text \<open>A loop that only checks: it raises at the first element whose check raises.\<close>

fun each_r :: "('a \<Rightarrow> unit result) \<Rightarrow> 'a list \<Rightarrow> unit result" where
  "each_r f [] = Inr ()"
| "each_r f (x # xs) = bind_r (f x) (\<lambda>_. each_r f xs)"

text \<open>Loops whose body does not raise on the elements at hand are the pure loops.\<close>

named_theorems loop_total \<open>loops over bodies that do not raise\<close>

lemma map_r_total [loop_total]:
  assumes "\<And>x. x \<in> set xs \<Longrightarrow> f x = Inr (g x)"
  shows "map_r f xs = Inr (map g xs)"
  using assms by (induction xs) auto

lemma all_r_total [loop_total]:
  assumes "\<And>x. x \<in> set xs \<Longrightarrow> f x = Inr (g x)"
  shows "all_r f xs = Inr (\<forall>x\<in>set xs. g x)"
  using assms by (induction xs) auto

lemma filter_r_total [loop_total]:
  assumes "\<And>x. x \<in> set xs \<Longrightarrow> f x = Inr (g x)"
  shows "filter_r f xs = Inr (filter g xs)"
  using assms by (induction xs) auto

lemma each_r_ok_iff: "each_r f xs = Inr () \<longleftrightarrow> (\<forall>x\<in>set xs. f x = Inr ())"
  by (induction xs) auto

lemma each_r_Inr_iff: "each_r f xs = Inr u \<longleftrightarrow> (\<forall>x\<in>set xs. f x = Inr ())"
  by (induction xs) auto

text \<open>Taking a run that returns apart, from the front.\<close>

lemma bindE: "bind_r m f = Inr y \<Longrightarrow> (\<And>x. m = Inr x \<Longrightarrow> f x = Inr y \<Longrightarrow> P) \<Longrightarrow> P"
  by auto

lemma guardE: "(if b then Inl e else m) = Inr x \<Longrightarrow> (\<not> b \<Longrightarrow> m = Inr x \<Longrightarrow> P) \<Longrightarrow> P"
  by auto

lemma fold_r_keeps:
  assumes "fold_r f acc xs = Inr acc'" and "P acc" and "\<And>a x a'. x \<in> set xs \<Longrightarrow> P a \<Longrightarrow> f a x = Inr a' \<Longrightarrow> P a'"
  shows "P acc'"
  using assms by (induction xs arbitrary: acc) auto

lemma map_r_keeps:
  assumes "map_r f xs = Inr ys" and "\<And>x y. x \<in> set xs \<Longrightarrow> f x = Inr y \<Longrightarrow> P y"
  shows "\<forall>y\<in>set ys. P y"
  using assms
proof (induction xs arbitrary: ys)
  case (Cons x xs)
  then obtain y zs where "f x = Inr y" "map_r f xs = Inr zs" "ys = y # zs" by auto
  then show ?case using Cons.IH [of zs] Cons.prems(2) by auto
qed simp

section \<open>Sorted tuples\<close>

text \<open>
  \<open>tuple(sorted(xs)) != xs\<close> is how the sources demand a canonical order.
\<close>

lemma sort_key_fixed_iff: "sort_key f xs = xs \<longleftrightarrow> sorted (map f xs)"
proof
  assume "sort_key f xs = xs"
  then show "sorted (map f xs)" by (metis sorted_sort_key)
next
  assume "sorted (map f xs)"
  then show "sort_key f xs = xs" by (rule sort_key_id_if_sorted)
qed

lemma sort_key_idem [simp]: "sort_key f (sort_key f xs) = sort_key f xs"
  by (simp add: sort_key_fixed_iff)

lemma sorted_map_filter: "sorted (map f xs) \<Longrightarrow> sorted (map f (filter P xs))"
  by (rule sorted_filter)

lemma distinct_map_sort_key [simp]: "distinct (map g (sort_key f xs)) = distinct (map g xs)"
proof -
  have "mset (map g (sort_key f xs)) = mset (map g xs)" by simp
  then show ?thesis using mset_eq_imp_distinct_iff by blast
qed

lemma card_set_map_distinct:
  "card (f ` set xs) = length xs \<longleftrightarrow> distinct (map f xs)"
  using card_distinct [of "map f xs"] distinct_card [of "map f xs"] by auto

lemma distinct_map_filter_left: "distinct (map f xs) \<Longrightarrow> distinct (map f (filter P xs))"
  by (rule distinct_map_filter)

lemma filter_unique_key:
  assumes "distinct (map f xs)" and "x \<in> set xs"
  shows "filter (\<lambda>y. f y = f x) xs = [x]"
  using assms
proof (induction xs)
  case Nil
  then show ?case by simp
next
  case (Cons a xs)
  show ?case
  proof (cases "x = a")
    case True
    with Cons.prems have "f y \<noteq> f x" if "y \<in> set xs" for y
      using that by (metis distinct.simps(2) imageI list.map(2) list.set_map)
    then have "filter (\<lambda>y. f y = f x) xs = []"
      by (simp add: filter_empty_conv)
    with True show ?thesis by simp
  next
    case False
    with Cons.prems have "x \<in> set xs" and "f a \<noteq> f x" by auto
    with Cons show ?thesis by simp
  qed
qed

lemma mset_filter_out:
  assumes "distinct xs" and "x \<in> set xs"
  shows "mset xs = add_mset x (mset (filter (\<lambda>y. y \<noteq> x) xs))"
  using assms
proof (induction xs)
  case (Cons a xs)
  have "filter (\<lambda>y. y \<noteq> a) xs = xs" using Cons.prems by (auto simp: filter_id_conv)
  then show ?case using Cons by (cases "x = a") (auto simp del: mset_filter)
qed simp

section \<open>Association lists\<close>

lemma set_alist_update: "x \<in> set (AList.update k v al) \<Longrightarrow> x = (k, v) \<or> x \<in> set al"
  by (induction al) (auto split: if_splits)

lemma update_fresh: "k \<notin> fst ` set al \<Longrightarrow> AList.update k v al = al @ [(k, v)]"
  by (induction al) auto

text \<open>\<open>d.setdefault(k, v)\<close>.\<close>

definition setdefault :: "'k \<Rightarrow> 'v \<Rightarrow> ('k \<times> 'v) list \<Rightarrow> ('k \<times> 'v) list" where
  "setdefault k v d = (case map_of d k of None \<Rightarrow> d @ [(k, v)] | Some _ \<Rightarrow> d)"

lemma map_of_setdefault:
  "map_of (setdefault k v d) k' = (case map_of d k' of Some x \<Rightarrow> Some x | None \<Rightarrow> if k' = k then Some v else None)"
  by (auto simp: setdefault_def map_add_def split: option.splits)

section \<open>Decimal numerals\<close>

text \<open>The rendering of a nonnegative integer in an f-string.\<close>

definition digit :: "nat \<Rightarrow> char" where
  "digit d = char_of (48 + d)"

fun show_nat :: "nat \<Rightarrow> string" where
  "show_nat n = (if n < 10 then [digit n] else show_nat (n div 10) @ [digit (n mod 10)])"

declare show_nat.simps [simp del]

definition show_int :: "int \<Rightarrow> string" where
  "show_int n = (if n < 0 then ''-'' @ show_nat (nat (- n)) else show_nat (nat n))"

definition read_nat :: "string \<Rightarrow> nat" where
  "read_nat cs = foldl (\<lambda>acc c. acc * 10 + (of_char c - 48)) 0 cs"

lemma of_char_digit: "d < 10 \<Longrightarrow> of_char (digit d) = 48 + d"
  by (simp add: digit_def)

lemma read_show_nat: "read_nat (show_nat n) = n"
proof (induction n rule: show_nat.induct)
  case (1 n)
  show ?case
  proof (cases "n < 10")
    case True
    then show ?thesis by (simp add: show_nat.simps [of n] read_nat_def of_char_digit)
  next
    case False
    then have "read_nat (show_nat (n div 10)) = n div 10" using 1 by simp
    then show ?thesis using False
      by (simp add: show_nat.simps [of n] read_nat_def of_char_digit)
  qed
qed

lemma show_nat_inject [simp]: "show_nat m = show_nat n \<longleftrightarrow> m = n"
  by (metis read_show_nat)

lemma show_nat_digits: "c \<in> set (show_nat n) \<Longrightarrow> \<exists>d<10. c = digit d"
proof (induction n rule: show_nat.induct)
  case (1 n)
  then show ?case
    by (cases "n < 10") (auto simp: show_nat.simps [of n] intro: exI [of _ "n mod 10"])
qed

lemma colon_not_in_show_nat: "CHR '':'' \<notin> set (show_nat n)"
proof
  assume "CHR '':'' \<in> set (show_nat n)"
  then obtain d where "d < 10" and "CHR '':'' = digit d" using show_nat_digits by blast
  then have "of_char CHR '':'' = 48 + d" by (simp add: of_char_digit)
  with \<open>d < 10\<close> show False by simp
qed

lemma append_sep_inject:
  assumes "x \<notin> set as" and "x \<notin> set bs" and "as @ x # cs = bs @ x # ds"
  shows "as = bs \<and> cs = ds"
  using assms
proof (induction as arbitrary: bs)
  case Nil
  then show ?case by (cases bs) auto
next
  case (Cons a as)
  then show ?case by (cases bs) auto
qed

end
