(* ===== verification/Vectors.thy ===== *)
theory Vectors
  imports Prelude
begin

text \<open>
  Resource vectors of \<open>artifact/authority_continuity.py\<close> (lines 15 to 69): tuples of
  Python integers with operations that raise when dimensions differ. Beside each raising
  operation stands the pure operation it computes on vectors of one dimension; the
  component proofs work with the pure ones, index by index.
\<close>

section \<open>Operations\<close>

type_synonym vector = "int list"

definition same_dimension :: "vector \<Rightarrow> vector \<Rightarrow> unit result" where
  "same_dimension left right =
     (if length left \<noteq> length right then Inl (ValueError ''vector dimensions differ'')
      else Inr ())"

definition vector_add :: "vector \<Rightarrow> vector \<Rightarrow> vector result" where
  "vector_add left right =
     bind_r (same_dimension left right) (\<lambda>_. Inr (map (\<lambda>(x, y). x + y) (zip left right)))"

definition vector_leq :: "vector \<Rightarrow> vector \<Rightarrow> bool result" where
  "vector_leq left right =
     bind_r (same_dimension left right) (\<lambda>_. Inr (\<forall>(x, y)\<in>set (zip left right). x \<le> y))"

definition vector_sum :: "vector list \<Rightarrow> nat \<Rightarrow> vector result" where
  "vector_sum vectors dimension = fold_r vector_add (replicate dimension 0) vectors"

definition vector_supremum :: "vector list \<Rightarrow> nat \<Rightarrow> vector result" where
  "vector_supremum vectors dimension =
     fold_r (\<lambda>result vector. bind_r (same_dimension result vector)
               (\<lambda>_. Inr (map (\<lambda>(x, y). max x y) (zip result vector))))
       (replicate dimension 0) vectors"

definition vector_subtract :: "vector \<Rightarrow> vector \<Rightarrow> vector result" where
  "vector_subtract left right =
     bind_r (same_dimension left right) (\<lambda>_. Inr (map (\<lambda>(x, y). x - y) (zip left right)))"

definition vector_infimum :: "vector list \<Rightarrow> vector result" where
  "vector_infimum values =
     (case values of
        [] \<Rightarrow> Inl (ValueError ''infimum requires at least one vector'')
      | v # rest \<Rightarrow>
          let dimension = length v in
          if dimension = 0 then Inl (ValueError ''vectors must be nonempty'')
          else if \<exists>value\<in>set rest. length value \<noteq> dimension
          then Inl (ValueError ''vector dimensions differ'')
          else Inr (map (\<lambda>index. Min (set (map (\<lambda>value. value ! index) values)))
                      [0..<dimension]))"

section \<open>The pure operations on one dimension\<close>

text \<open>
  \<open>vsum d vs\<close> adds componentwise; \<open>vle\<close> is the componentwise order of equally long
  vectors.
\<close>

definition vsum :: "nat \<Rightarrow> vector list \<Rightarrow> vector" where
  "vsum d vs = map (\<lambda>i. \<Sum>v\<leftarrow>vs. v ! i) [0..<d]"

definition vadd :: "vector \<Rightarrow> vector \<Rightarrow> vector" where
  "vadd u v = map (\<lambda>i. u ! i + v ! i) [0..<length u]"

definition vsub :: "vector \<Rightarrow> vector \<Rightarrow> vector" where
  "vsub u v = map (\<lambda>i. u ! i - v ! i) [0..<length u]"

definition vle :: "vector \<Rightarrow> vector \<Rightarrow> bool" where
  "vle u v \<longleftrightarrow> length u = length v \<and> (\<forall>i<length u. u ! i \<le> v ! i)"

definition nonneg :: "vector \<Rightarrow> bool" where
  "nonneg v \<longleftrightarrow> (\<forall>x\<in>set v. 0 \<le> x)"

named_theorems vec \<open>raising vector operations on vectors of equal dimension\<close>

lemma same_dimension_ok [simp]: "same_dimension u v = Inr () \<longleftrightarrow> length u = length v"
  by (simp add: same_dimension_def)

lemma length_vec [simp]:
  "length (vsum d vs) = d" "length (vadd u v) = length u" "length (vsub u v) = length u"
  by (simp_all add: vsum_def vadd_def vsub_def)

lemma nth_vec [simp]:
  "i < d \<Longrightarrow> vsum d vs ! i = (\<Sum>v\<leftarrow>vs. v ! i)"
  "i < length u \<Longrightarrow> vadd u v ! i = u ! i + v ! i"
  "i < length u \<Longrightarrow> vsub u v ! i = u ! i - v ! i"
  by (simp_all add: vsum_def vadd_def vsub_def)

lemma vec_eq_iff:
  "length u = d \<Longrightarrow> length v = d \<Longrightarrow> u = v \<longleftrightarrow> (\<forall>i<d. (u::vector) ! i = v ! i)"
  by (auto intro: nth_equalityI)

lemma zip_ball_nth:
  "length u = length v \<Longrightarrow> (\<forall>(x, y)\<in>set (zip u v). P x y) \<longleftrightarrow> (\<forall>i<length u. P (u ! i) (v ! i))"
  by (auto simp: set_zip)

lemma vector_add_eq [vec]: "length u = length v \<Longrightarrow> vector_add u v = Inr (vadd u v)"
  by (auto simp: vector_add_def same_dimension_def intro!: nth_equalityI)

lemma vector_subtract_eq [vec]: "length u = length v \<Longrightarrow> vector_subtract u v = Inr (vsub u v)"
  by (auto simp: vector_subtract_def same_dimension_def intro!: nth_equalityI)

lemma vector_leq_eq [vec]: "length u = length v \<Longrightarrow> vector_leq u v = Inr (vle u v)"
  by (simp add: vector_leq_def same_dimension_def vle_def zip_ball_nth)

lemma vector_leq_Inr: "vector_leq u v = Inr b \<longleftrightarrow> length u = length v \<and> b = vle u v"
proof (cases "length u = length v")
  case True
  then show ?thesis by (auto simp: vector_leq_eq)
next
  case False
  then show ?thesis by (simp add: vector_leq_def same_dimension_def)
qed

lemma fold_r_vector_add:
  assumes "\<forall>v\<in>set vs. length v = length acc"
  shows "fold_r vector_add acc vs = Inr (vadd acc (vsum (length acc) vs))"
  using assms
proof (induction vs arbitrary: acc)
  case Nil
  then show ?case by (auto intro!: nth_equalityI)
next
  case (Cons v vs)
  then have "fold_r vector_add (vadd acc v) vs = Inr (vadd (vadd acc v) (vsum (length acc) vs))"
    by simp
  moreover have "vadd (vadd acc v) (vsum (length acc) vs) = vadd acc (vsum (length acc) (v # vs))"
    by (intro nth_equalityI) auto
  ultimately show ?case using Cons.prems by (simp add: vec)
qed

lemma vector_sum_eq [vec]:
  assumes "\<forall>v\<in>set vs. length v = d"
  shows "vector_sum vs d = Inr (vsum d vs)"
proof -
  have "vadd (replicate d 0) (vsum d vs) = vsum d vs"
    by (intro nth_equalityI) auto
  then show ?thesis using fold_r_vector_add [of vs "replicate d 0"] assms
    by (simp add: vector_sum_def)
qed

lemma vector_sum_mismatch:
  assumes "\<exists>v\<in>set vs. length v \<noteq> d"
  shows "vector_sum vs d = Inl (ValueError ''vector dimensions differ'')"
proof -
  have "fold_r vector_add acc vs = Inl (ValueError ''vector dimensions differ'')"
    if "\<exists>v\<in>set vs. length v \<noteq> length acc" for acc
    using that
  proof (induction vs arbitrary: acc)
    case (Cons v vs)
    then show ?case
      by (cases "length v = length acc") (auto simp: vector_add_def same_dimension_def)
  qed simp
  then show ?thesis using assms by (simp add: vector_sum_def)
qed

lemma vsum_append: "vsum d (us @ vs) = vadd (vsum d us) (vsum d vs)"
  by (intro nth_equalityI) auto

lemma vsum_Cons: "length v = d \<Longrightarrow> vsum d (v # vs) = vadd v (vsum d vs)"
  by (intro nth_equalityI) auto

lemma vsum_Nil [simp]: "vsum d [] = replicate d 0"
  by (intro nth_equalityI) auto

lemma sum_list_mset_cong:
  assumes "mset us = mset vs"
  shows "(\<Sum>v\<leftarrow>us. (f v :: int)) = (\<Sum>v\<leftarrow>vs. f v)"
  by (metis assms mset_map sum_mset_sum_list)

lemma vsum_mset: "mset us = mset vs \<Longrightarrow> vsum d us = vsum d vs"
  unfolding vsum_def by (simp only: sum_list_mset_cong [of us vs])

lemma nonneg_nth: "nonneg v \<Longrightarrow> i < length v \<Longrightarrow> 0 \<le> v ! i"
  by (simp add: nonneg_def)

lemma nonneg_iff_nth: "nonneg v \<longleftrightarrow> (\<forall>i<length v. 0 \<le> v ! i)"
  by (simp add: nonneg_def all_set_conv_all_nth)

lemma nonneg_vsum: "\<forall>v\<in>set vs. length v = d \<and> nonneg v \<Longrightarrow> nonneg (vsum d vs)"
  by (auto simp: nonneg_iff_nth intro!: sum_list_nonneg)

lemma sum_list_filter_mono:
  assumes "\<And>x. x \<in> set xs \<Longrightarrow> 0 \<le> f x" and "\<And>x. x \<in> set xs \<Longrightarrow> P x \<Longrightarrow> Q x"
  shows "(\<Sum>x\<leftarrow>filter P xs. (f x :: int)) \<le> (\<Sum>x\<leftarrow>filter Q xs. f x)"
  using assms
proof (induction xs)
  case (Cons a xs)
  then have "(\<Sum>x\<leftarrow>filter P xs. f x) \<le> (\<Sum>x\<leftarrow>filter Q xs. f x)" by simp
  with Cons.prems(1) [of a] Cons.prems(2) [of a] show ?case by auto
qed simp

lemma vle_refl [simp]: "vle v v"
  by (simp add: vle_def)

lemma vle_trans: "vle u v \<Longrightarrow> vle v w \<Longrightarrow> vle u w"
  unfolding vle_def by (metis order_trans)

section \<open>Supremum and infimum\<close>

lemma fold_r_supremum:
  assumes "\<forall>v\<in>set vs. length v = length acc"
  shows "\<exists>s. fold_r (\<lambda>result vector. bind_r (same_dimension result vector)
               (\<lambda>_. Inr (map (\<lambda>(x, y). max x y) (zip result vector)))) acc vs = Inr s \<and>
     length s = length acc \<and>
     (\<forall>u. length u = length acc \<longrightarrow> (vle s u \<longleftrightarrow> vle acc u \<and> (\<forall>v\<in>set vs. vle v u)))"
  using assms
proof (induction vs arbitrary: acc)
  case (Cons v vs)
  let ?acc = "map (\<lambda>(x, y). max x y) (zip acc v)"
  have len: "length ?acc = length acc" using Cons.prems by simp
  have le: "vle ?acc u \<longleftrightarrow> vle acc u \<and> vle v u" if "length u = length acc" for u
    using that Cons.prems by (auto simp: vle_def)
  from Cons.IH [of ?acc] Cons.prems obtain s where
    "fold_r (\<lambda>result vector. bind_r (same_dimension result vector)
        (\<lambda>_. Inr (map (\<lambda>(x, y). max x y) (zip result vector)))) ?acc vs = Inr s"
    "length s = length acc"
    "\<forall>u. length u = length acc \<longrightarrow> (vle s u \<longleftrightarrow> vle ?acc u \<and> (\<forall>v\<in>set vs. vle v u))"
    using len by auto
  then show ?case using Cons.prems le by (auto simp: same_dimension_def)
qed auto

lemma vector_supremum_least:
  assumes "\<forall>v\<in>set vs. length v = d"
  obtains s where "vector_supremum vs d = Inr s" and "length s = d"
    and "\<And>u. length u = d \<Longrightarrow> vle s u \<longleftrightarrow> vle (replicate d 0) u \<and> (\<forall>v\<in>set vs. vle v u)"
  using fold_r_supremum [of vs "replicate d 0"] assms
  by (auto simp: vector_supremum_def)

lemma vector_infimum_greatest:
  assumes "vs \<noteq> []" and "\<forall>v\<in>set vs. length v = d" and "0 < d"
  obtains s where "vector_infimum vs = Inr s" and "length s = d"
    and "\<And>u. length u = d \<Longrightarrow> vle u s \<longleftrightarrow> (\<forall>v\<in>set vs. vle u v)"
proof -
  obtain v rest where vs: "vs = v # rest" using assms(1) by (cases vs) auto
  let ?s = "map (\<lambda>index. Min (set (map (\<lambda>value. value ! index) vs))) [0..<d]"
  have "vector_infimum vs = Inr ?s"
    using assms vs by (auto simp: vector_infimum_def Let_def)
  moreover have "vle u ?s \<longleftrightarrow> (\<forall>v\<in>set vs. vle u v)" if "length u = d" for u
    using that assms by (auto simp: vle_def)
  ultimately show ?thesis using that by simp
qed

end
