(* ===== verification/Frontiers.thy ===== *)
theory Frontiers
  imports Prelude
begin

text \<open>
  Frontiers and frontier families of \<open>artifact/authority_continuity.py\<close> (lines 15 to 94).
  A frontier, a frozen set of branch names, is a set of strings. A frontier family, a
  frozen set of frontiers, is the list of its members in iteration order: loops over a
  family then have an order, while equality of families is equality of their sets.
\<close>

section \<open>Subsets and downward closure\<close>

type_synonym branch = string
type_synonym frontier = "branch set"
type_synonym family = "frontier list"

text \<open>\<open>itertools.combinations\<close>: the sublists of a given length, in lexicographic order of positions.\<close>

fun combinations :: "'a list \<Rightarrow> nat \<Rightarrow> 'a list list" where
  "combinations xs 0 = [[]]"
| "combinations [] (Suc k) = []"
| "combinations (x # xs) (Suc k) = map ((#) x) (combinations xs k) @ combinations xs (Suc k)"

definition powerset :: "branch list \<Rightarrow> family" where
  "powerset items =
     (let ordered = sort items in
      concat (map (\<lambda>size. map set (combinations ordered size)) [0..<length ordered + 1]))"

definition downward_closure :: "branch list list \<Rightarrow> family" where
  "downward_closure maximal_frontiers =
     (let frontiers = remdups (concat (map powerset maximal_frontiers)) in
      if frontiers = [] then [{}] else frontiers)"

definition is_downward_closed :: "family \<Rightarrow> bool" where
  "is_downward_closed fam =
     (if fam = [] then False
      else \<forall>frontier\<in>set fam. \<forall>subset\<in>set (powerset (sorted_list_of_set frontier)).
             subset \<in> set fam)"

text \<open>\<open>frozenset().union(*family)\<close>.\<close>

definition family_union :: "family \<Rightarrow> frontier" where
  "family_union fam = \<Union> (set fam)"

section \<open>What they compute\<close>

lemma combinations_short: "length xs < k \<Longrightarrow> combinations xs k = []"
  by (induction xs k rule: combinations.induct) auto

lemma set_combinations: "set ` (\<Union>k\<le>length xs. set (combinations xs k)) = Pow (set xs)"
proof (induction xs)
  case Nil
  then show ?case by (auto simp: atMost_Suc)
next
  case (Cons x xs)
  have "(\<Union>k\<le>length (x # xs). set (combinations (x # xs) k)) =
      insert [] (\<Union>k\<le>length xs. set (combinations (x # xs) (Suc k)))"
    by (simp only: list.size add_Suc_right add_0_right atMost_Suc_eq_insert_0) auto
  also have "\<dots> = (\<Union>k\<le>length xs. (#) x ` set (combinations xs k)) \<union>
      insert [] (\<Union>k\<le>length xs. set (combinations xs (Suc k)))"
    by auto
  also have "insert [] (\<Union>k\<le>length xs. set (combinations xs (Suc k))) =
      (\<Union>k\<le>Suc (length xs). set (combinations xs k))"
    by (simp only: atMost_Suc_eq_insert_0) auto
  also have "\<dots> = (\<Union>k\<le>length xs. set (combinations xs k))"
    by (simp add: atMost_Suc combinations_short)
  finally have "set ` (\<Union>k\<le>length (x # xs). set (combinations (x # xs) k)) =
      (\<lambda>A. insert x A) ` (set ` (\<Union>k\<le>length xs. set (combinations xs k))) \<union>
      set ` (\<Union>k\<le>length xs. set (combinations xs k))"
    by (auto simp: image_Un image_UN image_image)
  also have "\<dots> = Pow (set (x # xs))"
    unfolding Cons.IH by (auto simp: Pow_insert)
  finally show ?case .
qed

lemma set_powerset [simp]: "set (powerset items) = Pow (set items)"
proof -
  have "set (powerset items) = set ` (\<Union>k\<le>length (sort items). set (combinations (sort items) k))"
    by (fastforce simp: powerset_def Let_def)
  then show ?thesis by (simp only: set_combinations set_sort)
qed

lemma powerset_finite: "F \<in> set (powerset items) \<Longrightarrow> finite F"
  using finite_subset by fastforce

text \<open>A family as the sources keep it: no repetition, every member finite.\<close>

definition family_ok :: "family \<Rightarrow> bool" where
  "family_ok fam \<longleftrightarrow> distinct fam \<and> (\<forall>F\<in>set fam. finite F)"

lemma is_downward_closed_iff:
  assumes "family_ok fam"
  shows "is_downward_closed fam \<longleftrightarrow> fam \<noteq> [] \<and> (\<forall>F\<in>set fam. \<forall>S. S \<subseteq> F \<longrightarrow> S \<in> set fam)"
  using assms by (auto simp: is_downward_closed_def family_ok_def)

lemma downward_closed_subset:
  assumes "is_downward_closed fam" and "family_ok fam" and "F \<in> set fam" and "S \<subseteq> F"
  shows "S \<in> set fam"
  using assms by (auto simp: is_downward_closed_iff)

lemma downward_closed_empty:
  assumes "is_downward_closed fam" and "family_ok fam"
  shows "{} \<in> set fam"
proof -
  from assms have "fam \<noteq> []" by (auto simp: is_downward_closed_iff)
  then obtain F where "F \<in> set fam" by (meson list.set_sel(1))
  then show ?thesis using downward_closed_subset [OF assms] by blast
qed

lemma set_downward_closure:
  "set (downward_closure ms) = insert {} (\<Union>m\<in>set ms. Pow (set m))"
proof (cases "ms = []")
  case True
  then show ?thesis by (simp add: downward_closure_def)
next
  case False
  then obtain m where m: "m \<in> set ms" by (cases ms) auto
  then have "{} \<in> set (remdups (concat (map powerset ms)))" by auto
  then have "remdups (concat (map powerset ms)) \<noteq> []" by fastforce
  moreover have "{} \<in> (\<Union>m\<in>set ms. Pow (set m))" using m by auto
  ultimately show ?thesis
    by (simp only: downward_closure_def Let_def if_False insert_absorb) simp
qed

lemma family_ok_downward_closure: "family_ok (downward_closure ms)"
proof -
  have "finite F" if "F \<in> set (downward_closure ms)" for F
    using that by (auto simp: set_downward_closure intro: finite_subset)
  moreover have "distinct (downward_closure ms)"
    by (simp add: downward_closure_def Let_def)
  ultimately show ?thesis by (simp add: family_ok_def)
qed

section \<open>Families filtered by a monotone safety predicate\<close>

text \<open>
  The interface shared by authority states and guarded contracts: an object denotes a
  downward closed family, and what it calls safe is inherited by subsets. Its clients get
  that the safe part is again downward closed, when it is empty, and that it is the greatest
  safe subfamily.
\<close>

locale downward_system =
  fixes valid :: "'s \<Rightarrow> bool"
    and fam :: "'s \<Rightarrow> family"
    and safe :: "'s \<Rightarrow> frontier \<Rightarrow> bool"
  assumes fam_ok: "valid s \<Longrightarrow> family_ok (fam s)"
    and fam_closed: "valid s \<Longrightarrow> is_downward_closed (fam s)"
    and safe_mono: "valid s \<Longrightarrow> S \<subseteq> F \<Longrightarrow> safe s F \<Longrightarrow> safe s S"
begin

lemma safe_family_ok: "valid s \<Longrightarrow> family_ok (filter (safe s) (fam s))"
  using fam_ok [of s] by (auto simp: family_ok_def)

lemma safe_family_empty: "valid s \<Longrightarrow> filter (safe s) (fam s) = [] \<longleftrightarrow> \<not> safe s {}"
  using downward_closed_empty [OF fam_closed fam_ok, of s] safe_mono [of s "{}"]
  by (auto simp: filter_empty_conv)

lemma safe_family_closed:
  assumes "valid s" and "safe s {}"
  shows "is_downward_closed (filter (safe s) (fam s))"
proof -
  have "filter (safe s) (fam s) \<noteq> []" using assms by (simp add: safe_family_empty)
  moreover have "S \<in> set (filter (safe s) (fam s))"
    if "F \<in> set (filter (safe s) (fam s))" "S \<subseteq> F" for F S
    using that downward_closed_subset [OF fam_closed fam_ok, OF assms(1,1), of F S]
      safe_mono [OF assms(1), of S F] by auto
  ultimately show ?thesis
    unfolding is_downward_closed_iff [OF safe_family_ok [OF assms(1)]] by blast
qed

lemma safe_family_greatest:
  assumes "set \<Phi> \<subseteq> set (fam s)"
  shows "(\<forall>F\<in>set \<Phi>. safe s F) \<longleftrightarrow> set \<Phi> \<subseteq> set (filter (safe s) (fam s))"
  using assms by auto

end

end
