(* ===== verification/Authority.thy ===== *)
theory Authority
  imports Vectors Frontiers
begin

text \<open>
  Claims and the finite authority state \<open>Sigma = (G, D, Q, Phi)\<close> of
  \<open>artifact/authority_continuity.py\<close>: construction with its validation, demand and
  need, authority continuity, promotion of tentative claims, and the cleanup of claims
  whose owner lost its support.
\<close>

section \<open>Claims\<close>

record claim =
  claim_id :: string
  claim_weight :: vector
  claim_branch :: "branch option"

definition claim_post_init :: "claim \<Rightarrow> claim result" where
  "claim_post_init c =
     (if claim_id c = [] then Inl (ValueError ''claim IDs must be nonempty'')
      else if claim_weight c = [] \<or> (\<exists>component\<in>set (claim_weight c). component < 0)
      then Inl (ValueError ''claim weights must be nonnegative, nonempty vectors'')
      else Inr c)"

text \<open>
  Claims are compared as the tuples of their fields. Two claims that agree on the first two
  fields and of which exactly one has no owner cannot be compared: Python raises
  \<open>TypeError\<close> for \<open>None < str\<close>, and every sort compares them.
\<close>

definition claim_key :: "claim \<Rightarrow> string \<times> vector \<times> branch option" where
  "claim_key c = (claim_id c, claim_weight c, claim_branch c)"

definition sort_claims :: "claim list \<Rightarrow> claim list result" where
  "sort_claims cs =
     (if \<exists>c\<in>set cs. \<exists>d\<in>set cs. claim_id c = claim_id d \<and> claim_weight c = claim_weight d \<and>
           claim_branch c = None \<and> claim_branch d \<noteq> None
      then Inl (TypeError ''unorderable claims'')
      else Inr (sort_key claim_key cs))"

text \<open>Whether a claim is owned by a branch of a frontier.\<close>

definition owned_in :: "frontier \<Rightarrow> claim \<Rightarrow> bool" where
  "owned_in frontier c = (case claim_branch c of None \<Rightarrow> False | Some b \<Rightarrow> b \<in> frontier)"

section \<open>The authority state\<close>

record state =
  grant :: vector
  durable :: "claim list"
  conditional :: "claim list"
  frontiers :: family

definition state_post_init :: "state \<Rightarrow> state result" where
  "state_post_init s =
     (if grant s = [] \<or> (\<exists>component\<in>set (grant s). component < 0)
      then Inl (ValueError ''grant must be a nonnegative, nonempty vector'')
      else if \<not> is_downward_closed (frontiers s)
      then Inl (ValueError ''frontier family must be nonempty and downward closed'')
      else let claims = durable s @ conditional s in
      if \<not> distinct (map claim_id claims)
      then Inl (ValueError ''claim IDs must be globally unique'')
      else bind_r (each_r (\<lambda>c. same_dimension (grant s) (claim_weight c)) claims) (\<lambda>_.
      if \<exists>c\<in>set (conditional s). claim_branch c = None
      then Inl (ValueError ''each conditional claim must have a branch owner'')
      else if sort_key claim_key (durable s) \<noteq> durable s
      then Inl (ValueError ''durable claims must be sorted canonically'')
      else if sort_key claim_key (conditional s) \<noteq> conditional s
      then Inl (ValueError ''conditional claims must be sorted canonically'')
      else Inr s))"

definition dimension :: "state \<Rightarrow> nat" where
  "dimension s = length (grant s)"

definition durable_demand :: "state \<Rightarrow> vector result" where
  "durable_demand s = vector_sum (map claim_weight (durable s)) (dimension s)"

definition frontier_demand :: "state \<Rightarrow> frontier \<Rightarrow> vector result" where
  "frontier_demand s frontier =
     vector_sum (map claim_weight (filter (owned_in frontier) (conditional s))) (dimension s)"

definition frontier_load :: "state \<Rightarrow> frontier \<Rightarrow> vector result" where
  "frontier_load s frontier =
     (if frontier \<notin> set (frontiers s) then Inl (ValueError ''not an admitted frontier'')
      else bind_r (durable_demand s) (\<lambda>d.
           bind_r (frontier_demand s frontier) (\<lambda>q. vector_add d q)))"

definition need :: "state \<Rightarrow> vector result" where
  "need s =
     bind_r (map_r (frontier_load s) (frontiers s)) (\<lambda>loads. vector_supremum loads (dimension s))"

definition authority_continuous :: "state \<Rightarrow> bool result" where
  "authority_continuous s =
     all_r (\<lambda>frontier. bind_r (frontier_load s frontier) (\<lambda>load. vector_leq load (grant s)))
       (frontiers s)"

definition with_frontiers :: "state \<Rightarrow> family \<Rightarrow> state result" where
  "with_frontiers s fam = state_post_init (s\<lparr>frontiers := fam\<rparr>)"

definition claims_to_promote :: "state \<Rightarrow> string list \<Rightarrow> claim list result" where
  "claims_to_promote s claim_ids =
     (let requested = set claim_ids in
      if requested = {} then Inl (ValueError ''promotion set must be nonempty'')
      else let selected = filter (\<lambda>c. claim_id c \<in> requested) (conditional s) in
      if claim_id ` set selected \<noteq> requested
      then Inl (ValueError ''claims are not tentative in this state'')
      else Inr selected)"

definition promote_plain :: "state \<Rightarrow> string list \<Rightarrow> state result" where
  "promote_plain s claim_ids =
     bind_r (claims_to_promote s claim_ids) (\<lambda>selected.
     let selected_ids = claim_id ` set selected in
     bind_r (sort_claims (durable s @ selected)) (\<lambda>d.
     state_post_init
       \<lparr>grant = grant s, durable = d,
        conditional = filter (\<lambda>c. claim_id c \<notin> selected_ids) (conditional s),
        frontiers = frontiers s\<rparr>))"

definition maximal_safe_support :: "state \<Rightarrow> string list \<Rightarrow> family result" where
  "maximal_safe_support s claim_ids =
     bind_r (promote_plain s claim_ids) (\<lambda>promoted.
     filter_r (\<lambda>frontier. bind_r (frontier_load promoted frontier)
                 (\<lambda>load. vector_leq load (grant s))) (frontiers s))"

definition promote_maximally :: "state \<Rightarrow> string list \<Rightarrow> state result" where
  "promote_maximally s claim_ids =
     bind_r (promote_plain s claim_ids) (\<lambda>promoted.
     bind_r (filter_r (\<lambda>frontier. bind_r (frontier_load promoted frontier)
                         (\<lambda>load. vector_leq load (grant s))) (frontiers s)) (\<lambda>support.
     if support = []
     then Inl (NoTopologyRepair ''promotion overloads the empty frontier'')
     else with_frontiers promoted support))"

definition make_state :: "vector \<Rightarrow> claim list \<Rightarrow> claim list \<Rightarrow> family \<Rightarrow> state result" where
  "make_state g d q fam =
     bind_r (sort_claims d) (\<lambda>d'. bind_r (sort_claims q) (\<lambda>q'.
     state_post_init \<lparr>grant = g, durable = d', conditional = q', frontiers = fam\<rparr>))"

section \<open>Owner support\<close>

definition supported_branches :: "state \<Rightarrow> branch set" where
  "supported_branches s = family_union (frontiers s)"

definition owner_support_well_formed :: "state \<Rightarrow> family option \<Rightarrow> bool" where
  "owner_support_well_formed s support =
     (let fam = (case support of None \<Rightarrow> frontiers s | Some f \<Rightarrow> f) in
      if fam = [] \<or> \<not> set fam \<subseteq> set (frontiers s) \<or> \<not> is_downward_closed fam then False
      else \<forall>c\<in>set (conditional s). owned_in (family_union fam) c)"

definition claims_have_owner_support :: "state \<Rightarrow> string list \<Rightarrow> family \<Rightarrow> bool" where
  "claims_have_owner_support s claim_ids support =
     (let requested = set claim_ids;
          claims = filter (\<lambda>c. claim_id c \<in> requested) (durable s @ conditional s) in
      if claim_id ` set claims \<noteq> requested \<or> support = [] then False
      else \<forall>c\<in>set claims. owned_in (family_union support) c)"

record support_cleanup =
  cleanup_state :: state
  cleanup_tombstoned :: "branch set"
  cleanup_terminal :: "string set"

definition cleanup_unsupported_owners :: "state \<Rightarrow> family \<Rightarrow> support_cleanup result" where
  "cleanup_unsupported_owners s support =
     (if support = [] \<or> \<not> set support \<subseteq> set (frontiers s) \<or> \<not> is_downward_closed support
      then Inl (ValueError ''cleanup support must be a nonempty downward subfamily'')
      else
        let tentative_owners = set (List.map_filter claim_branch (conditional s));
            live_after = family_union support;
            tombstoned = tentative_owners - live_after;
            terminal = claim_id ` set (filter (owned_in tombstoned) (conditional s)) in
        bind_r (make_state (grant s) (durable s)
                  (filter (\<lambda>c. \<not> owned_in tombstoned c) (conditional s)) (frontiers s))
          (\<lambda>cleaned. Inr \<lparr>cleanup_state = cleaned, cleanup_tombstoned = tombstoned,
                            cleanup_terminal = terminal\<rparr>))"

section \<open>Valid states\<close>

definition claim_ok :: "claim \<Rightarrow> bool" where
  "claim_ok c \<longleftrightarrow> claim_id c \<noteq> [] \<and> claim_weight c \<noteq> [] \<and> nonneg (claim_weight c)"

lemma claim_post_init_iff: "claim_post_init c = Inr d \<longleftrightarrow> d = c \<and> claim_ok c"
  by (auto simp: claim_post_init_def claim_ok_def nonneg_def not_less)

text \<open>What the validation of a state establishes.\<close>

definition state_inv :: "state \<Rightarrow> bool" where
  "state_inv s \<longleftrightarrow>
     grant s \<noteq> [] \<and> nonneg (grant s) \<and> is_downward_closed (frontiers s) \<and>
     distinct (map claim_id (durable s @ conditional s)) \<and>
     (\<forall>c\<in>set (durable s @ conditional s). length (claim_weight c) = dimension s) \<and>
     (\<forall>c\<in>set (conditional s). claim_branch c \<noteq> None) \<and>
     sorted (map claim_key (durable s)) \<and> sorted (map claim_key (conditional s))"

text \<open>A state as the program can hold it: validated, with validated claims.\<close>

definition state_ok :: "state \<Rightarrow> bool" where
  "state_ok s \<longleftrightarrow>
     state_inv s \<and> family_ok (frontiers s) \<and> (\<forall>c\<in>set (durable s @ conditional s). claim_ok c)"

lemma state_post_init_iff: "state_post_init s = Inr t \<longleftrightarrow> t = s \<and> state_inv s"
  unfolding state_post_init_def state_inv_def Let_def if_Inl_eq_Inr bind_r_eq_Inr each_r_Inr_iff
    same_dimension_ok sort_key_fixed_iff nonneg_def dimension_def
  by (auto simp: not_less eq_commute [of "length (grant s)"])

lemma sort_claims_iff:
  assumes "distinct (map claim_id cs)"
  shows "sort_claims cs = Inr (sort_key claim_key cs)"
proof -
  have "c = d" if "c \<in> set cs" "d \<in> set cs" "claim_id c = claim_id d" for c d
    using assms that by (auto simp: distinct_map inj_on_def)
  then show ?thesis unfolding sort_claims_def by auto
qed

lemma sorted_claims_sort:
  assumes "sorted (map claim_key cs)" and "distinct (map claim_id cs)"
  shows "sort_claims cs = Inr cs"
  using assms by (simp add: sort_claims_iff sort_key_fixed_iff)

lemma owned_in_Un: "owned_in (A \<union> B) c \<longleftrightarrow> owned_in A c \<or> owned_in B c"
  by (auto simp: owned_in_def split: option.splits)

lemma owned_in_mono: "owned_in A c \<Longrightarrow> A \<subseteq> B \<Longrightarrow> owned_in B c"
  by (auto simp: owned_in_def split: option.splits)

lemma owned_in_empty [simp]: "\<not> owned_in {} c"
  by (auto simp: owned_in_def split: option.splits)

lemma owned_in_Some [simp]: "claim_branch c = Some b \<Longrightarrow> owned_in A c \<longleftrightarrow> b \<in> A"
  by (simp add: owned_in_def)

section \<open>Demand and load, without exceptions\<close>

definition ddemand :: "state \<Rightarrow> vector" where
  "ddemand s = vsum (dimension s) (map claim_weight (durable s))"

definition qdemand :: "state \<Rightarrow> frontier \<Rightarrow> vector" where
  "qdemand s F = vsum (dimension s) (map claim_weight (filter (owned_in F) (conditional s)))"

definition load :: "state \<Rightarrow> frontier \<Rightarrow> vector" where
  "load s F = vadd (ddemand s) (qdemand s F)"

definition solvent :: "state \<Rightarrow> frontier \<Rightarrow> bool" where
  "solvent s F \<longleftrightarrow> vle (load s F) (grant s)"

lemma length_load [simp]:
  "length (ddemand s) = dimension s" "length (qdemand s F) = dimension s"
  "length (load s F) = dimension s"
  by (simp_all add: ddemand_def qdemand_def load_def)

lemma state_ok_weights:
  "state_ok s \<Longrightarrow> c \<in> set (durable s) \<union> set (conditional s) \<Longrightarrow>
     length (claim_weight c) = dimension s \<and> nonneg (claim_weight c) \<and> claim_id c \<noteq> []"
  by (auto simp: state_ok_def state_inv_def claim_ok_def)

lemma state_okD:
  assumes "state_ok s"
  shows "family_ok (frontiers s)" "is_downward_closed (frontiers s)" "0 < dimension s"
    "nonneg (grant s)" "distinct (map claim_id (durable s @ conditional s))"
    "distinct (map claim_id (durable s))" "distinct (map claim_id (conditional s))"
    "\<And>c. c \<in> set (conditional s) \<Longrightarrow> claim_branch c \<noteq> None"
    "sorted (map claim_key (durable s))" "sorted (map claim_key (conditional s))"
  using assms by (auto simp: state_ok_def state_inv_def dimension_def)

lemma frontier_load_total:
  assumes "state_ok s" and "F \<in> set (frontiers s)"
  shows "frontier_load s F = Inr (load s F)"
  using assms state_ok_weights [OF assms(1)]
  by (simp add: frontier_load_def durable_demand_def frontier_demand_def vec load_def
      ddemand_def qdemand_def)

lemma durable_demand_total: "state_ok s \<Longrightarrow> durable_demand s = Inr (ddemand s)"
  using state_ok_weights [of s] by (simp add: durable_demand_def vec ddemand_def)

lemma load_leq_total:
  assumes "state_ok s" and "F \<in> set (frontiers s)" and "length g = dimension s"
  shows "bind_r (frontier_load s F) (\<lambda>load. vector_leq load g) = Inr (vle (load s F) g)"
  using assms by (simp add: frontier_load_total vec)

lemma authority_continuous_total:
  assumes "state_ok s"
  shows "authority_continuous s = Inr (\<forall>F\<in>set (frontiers s). solvent s F)"
  unfolding authority_continuous_def solvent_def
  by (rule all_r_total) (simp add: load_leq_total assms dimension_def)

lemma qdemand_mono:
  assumes "state_ok s" and "F \<subseteq> F'"
  shows "vle (qdemand s F) (qdemand s F')"
proof -
  have "(\<Sum>c\<leftarrow>filter (owned_in F) (conditional s). claim_weight c ! i)
      \<le> (\<Sum>c\<leftarrow>filter (owned_in F') (conditional s). claim_weight c ! i)" if "i < dimension s" for i
    using that assms state_ok_weights [OF assms(1)]
    by (intro sum_list_filter_mono) (auto intro: owned_in_mono nonneg_nth)
  then show ?thesis by (simp add: vle_def qdemand_def comp_def)
qed

lemma load_mono: "state_ok s \<Longrightarrow> F \<subseteq> F' \<Longrightarrow> vle (load s F) (load s F')"
  using qdemand_mono [of s F F'] by (simp add: vle_def load_def)

lemma solvent_mono: "state_ok s \<Longrightarrow> F \<subseteq> F' \<Longrightarrow> solvent s F' \<Longrightarrow> solvent s F"
  unfolding solvent_def by (blast intro: vle_trans load_mono)

lemma load_empty: "load s {} = ddemand s"
  by (auto simp: load_def qdemand_def ddemand_def intro!: nth_equalityI)

lemma vle_ddemand_load:
  assumes "state_ok s"
  shows "vle (ddemand s) (load s F)"
  using load_mono [OF assms, of "{}" F] by (simp add: load_empty)

lemma nonneg_load: "state_ok s \<Longrightarrow> vle (replicate (dimension s) 0) (load s F)"
proof -
  assume ok: "state_ok s"
  then have "nonneg (ddemand s)"
    using state_ok_weights [OF ok] by (auto simp: ddemand_def intro!: nonneg_vsum)
  then have "vle (replicate (dimension s) 0) (ddemand s)"
    by (auto simp: vle_def nonneg_iff_nth)
  then show ?thesis using vle_ddemand_load [OF ok] vle_trans by blast
qed

section \<open>Need and authority continuity\<close>

text \<open>
  C20. On a valid state \<open>need\<close> never raises: it is the least vector above the load of every
  admitted frontier, and the state is authority continuous exactly when the need is within
  the grant.
\<close>

theorem need_is_least_bound:
  assumes "state_ok s"
  shows "\<exists>n. need s = Inr n \<and> length n = dimension s \<and>
           (\<forall>F\<in>set (frontiers s). vle (load s F) n) \<and>
           (\<forall>u. (\<forall>F\<in>set (frontiers s). vle (load s F) u) \<longrightarrow> vle n u) \<and>
           authority_continuous s = Inr (vle n (grant s))"
proof -
  note fam = state_okD(1,2) [OF assms]
  have "\<forall>v\<in>set (map (load s) (frontiers s)). length v = dimension s" by simp
  then obtain n where n: "vector_supremum (map (load s) (frontiers s)) (dimension s) = Inr n"
    and len: "length n = dimension s"
    and least: "\<And>u. length u = dimension s \<Longrightarrow>
      vle n u \<longleftrightarrow> vle (replicate (dimension s) 0) u \<and> (\<forall>v\<in>set (map (load s) (frontiers s)). vle v u)"
    by (rule vector_supremum_least) blast
  have needs: "need s = Inr n"
    unfolding need_def using map_r_total [of "frontiers s" "frontier_load s" "load s"] n
    by (simp add: frontier_load_total assms)
  have bound: "vle n u \<longleftrightarrow> (\<forall>F\<in>set (frontiers s). vle (load s F) u)" if "length u = dimension s" for u
    using least [OF that] downward_closed_empty [OF fam(2,1)] vle_trans [OF nonneg_load [OF assms]]
    by auto
  have dims: "length u = dimension s" if "\<forall>F\<in>set (frontiers s). vle (load s F) u" for u
    using that downward_closed_empty [OF fam(2,1)] by (auto simp: vle_def)
  have "authority_continuous s = Inr (vle n (grant s))"
    using authority_continuous_total [OF assms] bound [of "grant s"]
    by (simp add: solvent_def dimension_def)
  moreover have "\<forall>F\<in>set (frontiers s). vle (load s F) n"
    using bound [OF len] by simp
  ultimately show ?thesis using needs len bound dims by blast
qed

section \<open>Rebuilding a state\<close>

lemma load_cong:
  assumes "mset (durable s) = mset (durable t)" and "mset (conditional s) = mset (conditional t)"
    and "dimension s = dimension t"
  shows "load s F = load t F"
proof -
  have "mset (map claim_weight (filter (owned_in F) (conditional s))) =
      mset (map claim_weight (filter (owned_in F) (conditional t)))"
    using assms(2) by simp
  moreover have "mset (map claim_weight (durable s)) = mset (map claim_weight (durable t))"
    using assms(1) by simp
  ultimately show ?thesis
    unfolding load_def ddemand_def qdemand_def assms(3) by (metis vsum_mset)
qed

definition rebuilt :: "state \<Rightarrow> claim list \<Rightarrow> claim list \<Rightarrow> family \<Rightarrow> state" where
  "rebuilt s d q fam =
     \<lparr>grant = grant s, durable = sort_key claim_key d, conditional = sort_key claim_key q,
      frontiers = fam\<rparr>"

lemma rebuilt_simps [simp]:
  "grant (rebuilt s d q fam) = grant s"
  "set (durable (rebuilt s d q fam)) = set d"
  "set (conditional (rebuilt s d q fam)) = set q"
  "mset (durable (rebuilt s d q fam)) = mset d"
  "mset (conditional (rebuilt s d q fam)) = mset q"
  "frontiers (rebuilt s d q fam) = fam"
  "dimension (rebuilt s d q fam) = dimension s"
  by (simp_all add: rebuilt_def dimension_def)

lemma load_rebuilt:
  "load (rebuilt s d q fam) F = load (s\<lparr>durable := d, conditional := q\<rparr>) F"
  by (rule load_cong) (simp_all add: dimension_def)

lemma make_state_rebuilt:
  assumes "state_ok s" and "\<And>c. c \<in> set d \<union> set q \<Longrightarrow> claim_ok c \<and> length (claim_weight c) = dimension s"
    and "distinct (map claim_id (d @ q))" and "\<And>c. c \<in> set q \<Longrightarrow> claim_branch c \<noteq> None"
    and "family_ok fam" and "is_downward_closed fam"
  shows "make_state (grant s) d q fam = Inr (rebuilt s d q fam)" and "state_ok (rebuilt s d q fam)"
proof -
  have "distinct (map claim_id d)" and "distinct (map claim_id q)" using assms(3) by auto
  then have sorts: "sort_claims d = Inr (sort_key claim_key d)" "sort_claims q = Inr (sort_key claim_key q)"
    by (simp_all add: sort_claims_iff)
  have inv: "state_inv (rebuilt s d q fam)"
    using assms state_okD [OF assms(1)] by (auto simp: state_inv_def rebuilt_def dimension_def)
  then show "make_state (grant s) d q fam = Inr (rebuilt s d q fam)"
    using sorts by (auto simp: make_state_def state_post_init_iff rebuilt_def)
  show "state_ok (rebuilt s d q fam)"
    using inv assms by (auto simp: state_ok_def)
qed

lemma filter_conditional_sorted:
  assumes "state_ok s"
  shows "sort_key claim_key (filter P (conditional s)) = filter P (conditional s)"
    and "sort_key claim_key (filter P (durable s)) = filter P (durable s)"
    and "sort_key claim_key (durable s) = durable s"
  using state_okD(9,10) [OF assms] by (simp_all add: sort_key_fixed_iff sorted_map_filter)

lemma conditional_id_unique:
  assumes "state_ok s" and "c \<in> set (conditional s)" and "d \<in> set (conditional s)"
    and "claim_id c = claim_id d"
  shows "c = d"
  using state_okD(7) [OF assms(1)] assms by (auto simp: distinct_map inj_on_def)

section \<open>Promotion\<close>

definition promoted :: "state \<Rightarrow> string set \<Rightarrow> state" where
  "promoted s ids =
     rebuilt s (durable s @ filter (\<lambda>c. claim_id c \<in> ids) (conditional s))
       (filter (\<lambda>c. claim_id c \<notin> ids) (conditional s)) (frontiers s)"

definition tentative_ids :: "state \<Rightarrow> string set" where
  "tentative_ids s = claim_id ` set (conditional s)"

lemma promoted_ok:
  assumes "state_ok s"
  shows "state_ok (promoted s ids)"
proof -
  let ?d = "durable s @ filter (\<lambda>c. claim_id c \<in> ids) (conditional s)"
  let ?q = "filter (\<lambda>c. claim_id c \<notin> ids) (conditional s)"
  have "distinct (map claim_id (?d @ ?q))"
    using state_okD(5) [OF assms] by (auto simp: distinct_map_filter)
  then show ?thesis unfolding promoted_def
    using assms state_okD [OF assms] by (intro make_state_rebuilt(2)) (auto simp: state_ok_def state_inv_def)
qed

lemma promote_plain_eq:
  assumes "state_ok s"
  shows "promote_plain s ids =
     (if ids = [] then Inl (ValueError ''promotion set must be nonempty'')
      else if \<not> set ids \<subseteq> tentative_ids s
      then Inl (ValueError ''claims are not tentative in this state'')
      else Inr (promoted s (set ids)))"
proof -
  let ?sel = "filter (\<lambda>c. claim_id c \<in> set ids) (conditional s)"
  have sel: "claim_id ` set ?sel = set ids \<longleftrightarrow> set ids \<subseteq> tentative_ids s"
    by (auto simp: tentative_ids_def)
  have "distinct (map claim_id (durable s @ ?sel))"
    using state_okD(5) [OF assms] by (auto simp: distinct_map_filter)
  then have sorts: "sort_claims (durable s @ ?sel) = Inr (sort_key claim_key (durable s @ ?sel))"
    by (rule sort_claims_iff)
  have "state_post_init (promoted s (set ids)) = Inr (promoted s (set ids))"
    using promoted_ok [OF assms] by (simp add: state_post_init_iff state_ok_def)
  then have "state_post_init \<lparr>grant = grant s, durable = sort_key claim_key (durable s @ ?sel),
      conditional = filter (\<lambda>c. claim_id c \<notin> set ids) (conditional s), frontiers = frontiers s\<rparr> =
      Inr (promoted s (set ids))"
    by (simp add: promoted_def rebuilt_def filter_conditional_sorted [OF assms])
  then show ?thesis
    using sel sorts by (auto simp: promote_plain_def claims_to_promote_def Let_def simp del: set_filter)
qed

interpretation auth: downward_system state_ok frontiers solvent
  by unfold_locales (auto simp: state_okD intro: solvent_mono)

text \<open>The safe part of the frontiers of a state.\<close>

definition safe_part :: "state \<Rightarrow> family" where
  "safe_part p = filter (solvent p) (frontiers p)"

lemma solvent_empty: "solvent p {} \<longleftrightarrow> vle (ddemand p) (grant p)"
  by (simp add: solvent_def load_empty)

lemma solvent_with_frontiers [simp]: "solvent (p\<lparr>frontiers := fam\<rparr>) F \<longleftrightarrow> solvent p F"
  by (simp add: solvent_def load_def ddemand_def qdemand_def dimension_def)

lemma state_ok_with_frontiers:
  assumes "state_ok p" and "family_ok fam" and "is_downward_closed fam"
  shows "state_ok (p\<lparr>frontiers := fam\<rparr>)"
  using assms by (auto simp: state_ok_def state_inv_def dimension_def)

lemma promote_plain_InrD:
  assumes "state_ok s" and "promote_plain s ids = Inr p"
  shows "p = promoted s (set ids)" "state_ok p" "frontiers p = frontiers s" "grant p = grant s"
    "ids \<noteq> []" "set ids \<subseteq> tentative_ids s"
  using assms promoted_ok [OF assms(1), of "set ids"]
  by (auto simp: promote_plain_eq promoted_def split: if_splits)

lemma safe_part_state_ok:
  assumes "state_ok p" and "vle (ddemand p) (grant p)"
  shows "state_ok (p\<lparr>frontiers := safe_part p\<rparr>)"
  using assms auth.safe_family_ok auth.safe_family_closed
  by (intro state_ok_with_frontiers) (auto simp: safe_part_def solvent_empty)

lemma maximal_safe_support_eq:
  assumes "state_ok s" and "promote_plain s ids = Inr p"
  shows "maximal_safe_support s ids = Inr (safe_part p)"
    and "promote_maximally s ids =
      (if vle (ddemand p) (grant p) then Inr (p\<lparr>frontiers := safe_part p\<rparr>)
       else Inl (NoTopologyRepair ''promotion overloads the empty frontier''))"
proof -
  note p = promote_plain_InrD [OF assms]
  have filt: "filter_r (\<lambda>frontier. bind_r (frontier_load p frontier) (\<lambda>load. vector_leq load (grant s)))
      (frontiers s) = Inr (safe_part p)"
    unfolding safe_part_def p(3) using p
    by (intro filter_r_total) (simp add: load_leq_total solvent_def dimension_def)
  then show "maximal_safe_support s ids = Inr (safe_part p)"
    by (simp add: maximal_safe_support_def assms(2))
  have "safe_part p = [] \<longleftrightarrow> \<not> vle (ddemand p) (grant p)"
    using auth.safe_family_empty [OF p(2)] by (simp add: safe_part_def solvent_empty)
  then show "promote_maximally s ids =
      (if vle (ddemand p) (grant p) then Inr (p\<lparr>frontiers := safe_part p\<rparr>)
       else Inl (NoTopologyRepair ''promotion overloads the empty frontier''))"
    using filt assms(2) safe_part_state_ok [OF p(2)]
    by (auto simp: promote_maximally_def with_frontiers_def state_post_init_iff state_ok_def)
qed

text \<open>
  C11. Promotion with topology repair keeps the unique largest safe subfamily: a downward
  closed subfamily of the frontiers is authority continuous for the promoted claims exactly
  when it lies inside the computed support; the operation returns the promoted state on that
  support, which is valid and authority continuous, and raises \<open>NoTopologyRepair\<close> exactly
  when the durable demand alone exceeds the grant.
\<close>

theorem promote_maximally_greatest:
  assumes "state_ok s" and "promote_plain s ids = Inr p"
  shows "\<exists>support. maximal_safe_support s ids = Inr support \<and>
    (\<forall>fam. family_ok fam \<and> is_downward_closed fam \<and> set fam \<subseteq> set (frontiers s) \<longrightarrow>
       (authority_continuous (p\<lparr>frontiers := fam\<rparr>) = Inr True \<longleftrightarrow> set fam \<subseteq> set support)) \<and>
    (if vle (ddemand p) (grant s)
     then promote_maximally s ids = Inr (p\<lparr>frontiers := support\<rparr>) \<and>
          state_ok (p\<lparr>frontiers := support\<rparr>) \<and>
          authority_continuous (p\<lparr>frontiers := support\<rparr>) = Inr True
     else promote_maximally s ids =
          Inl (NoTopologyRepair ''promotion overloads the empty frontier''))"
proof -
  note p = promote_plain_InrD [OF assms]
  note eqs = maximal_safe_support_eq [OF assms]
  have "authority_continuous (p\<lparr>frontiers := fam\<rparr>) = Inr True \<longleftrightarrow> set fam \<subseteq> set (safe_part p)"
    if "family_ok fam" "is_downward_closed fam" "set fam \<subseteq> set (frontiers s)" for fam
    using authority_continuous_total [OF state_ok_with_frontiers [OF p(2) that(1,2)]]
      auth.safe_family_greatest [of fam p] that(3)
    by (simp add: p(3) safe_part_def)
  moreover have "authority_continuous (p\<lparr>frontiers := safe_part p\<rparr>) = Inr True"
    if "vle (ddemand p) (grant p)"
    using authority_continuous_total [OF safe_part_state_ok [OF p(2) that]]
    by (simp add: safe_part_def)
  ultimately show ?thesis
    using eqs safe_part_state_ok [OF p(2)] by (intro exI [of _ "safe_part p"]) (auto simp: p(4))
qed

section \<open>Cleanup of unsupported owners\<close>

definition cleaned :: "state \<Rightarrow> family \<Rightarrow> state" where
  "cleaned s support =
     s\<lparr>conditional := filter (owned_in (family_union support)) (conditional s)\<rparr>"

lemma set_owners: "set (List.map_filter claim_branch cs) = {b. \<exists>c\<in>set cs. claim_branch c = Some b}"
  by (induction cs) (auto simp: List.map_filter_simps split: option.splits)

lemma owned_in_tombstoned:
  assumes "state_ok s" and "c \<in> set (conditional s)"
  shows "owned_in (set (List.map_filter claim_branch (conditional s)) - live) c \<longleftrightarrow> \<not> owned_in live c"
  using assms state_okD(8) [OF assms] by (auto simp: set_owners)

lemma state_update_conditional:
  "\<lparr>grant = grant s, durable = durable s, conditional = q, frontiers = frontiers s\<rparr> =
     s\<lparr>conditional := q\<rparr>"
  by (cases s) simp

lemma removed_ids:
  assumes "state_ok s"
  shows "tentative_ids s - claim_id ` {c \<in> set (conditional s). P c} =
     claim_id ` {c \<in> set (conditional s). \<not> P c}"
proof -
  have "inj_on claim_id (set (conditional s))"
    using state_okD(7) [OF assms] by (simp add: distinct_map)
  then show ?thesis unfolding tentative_ids_def
    by (subst inj_on_image_set_diff [symmetric, where C = "set (conditional s)"]) auto
qed

lemma keep_conditional:
  assumes "state_ok s"
  shows "make_state (grant s) (durable s) (filter P (conditional s)) (frontiers s) =
      Inr (s\<lparr>conditional := filter P (conditional s)\<rparr>)"
    and "state_ok (s\<lparr>conditional := filter P (conditional s)\<rparr>)"
    and "vle (load (s\<lparr>conditional := filter P (conditional s)\<rparr>) F) (load s F)"
proof -
  have "distinct (map claim_id (durable s @ conditional s))" using assms by (rule state_okD)
  then have "distinct (map claim_id (durable s @ filter P (conditional s)))"
    by (auto simp: distinct_map_filter)
  then have "make_state (grant s) (durable s) (filter P (conditional s)) (frontiers s) =
      Inr (rebuilt s (durable s) (filter P (conditional s)) (frontiers s)) \<and>
      state_ok (rebuilt s (durable s) (filter P (conditional s)) (frontiers s))"
    using assms state_okD [OF assms]
    by (intro conjI make_state_rebuilt; auto simp: state_ok_def state_inv_def)
  moreover have "rebuilt s (durable s) (filter P (conditional s)) (frontiers s) =
      s\<lparr>conditional := filter P (conditional s)\<rparr>"
    by (simp add: rebuilt_def filter_conditional_sorted [OF assms] state_update_conditional)
  ultimately show "make_state (grant s) (durable s) (filter P (conditional s)) (frontiers s) =
      Inr (s\<lparr>conditional := filter P (conditional s)\<rparr>)"
    "state_ok (s\<lparr>conditional := filter P (conditional s)\<rparr>)" by simp_all
  have "(\<Sum>d\<leftarrow>filter (owned_in F) (filter P (conditional s)). claim_weight d ! i) \<le>
      (\<Sum>d\<leftarrow>filter (owned_in F) (conditional s). claim_weight d ! i)" if "i < dimension s" for i
    using that state_ok_weights [OF assms] unfolding filter_filter
    by (intro sum_list_filter_mono) (auto intro: nonneg_nth)
  then show "vle (load (s\<lparr>conditional := filter P (conditional s)\<rparr>) F) (load s F)"
    by (simp add: vle_def load_def ddemand_def qdemand_def dimension_def comp_def)
qed

lemma cleaned_ok: "state_ok s \<Longrightarrow> state_ok (cleaned s support)"
  unfolding cleaned_def by (rule keep_conditional)

lemma cleanup_eq:
  assumes "state_ok s" and "support \<noteq> []" and "set support \<subseteq> set (frontiers s)"
    and "is_downward_closed support"
  shows "cleanup_unsupported_owners s support =
    Inr \<lparr>cleanup_state = cleaned s support,
         cleanup_tombstoned =
           {b. \<exists>c\<in>set (conditional s). claim_branch c = Some b} - family_union support,
         cleanup_terminal = tentative_ids s - tentative_ids (cleaned s support)\<rparr>"
proof -
  let ?live = "family_union support"
  let ?tomb = "set (List.map_filter claim_branch (conditional s)) - ?live"
  have keep: "filter (\<lambda>c. \<not> owned_in ?tomb c) (conditional s) = filter (owned_in ?live) (conditional s)"
    by (rule filter_cong) (auto simp: owned_in_tombstoned assms(1))
  have "make_state (grant s) (durable s) (filter (owned_in ?live) (conditional s)) (frontiers s) =
      Inr (cleaned s support)"
    unfolding cleaned_def by (rule keep_conditional(1) [OF assms(1)])
  moreover have "filter (owned_in ?tomb) (conditional s) =
      filter (\<lambda>c. \<not> owned_in ?live c) (conditional s)"
    by (rule filter_cong) (auto simp: owned_in_tombstoned assms(1))
  then have "claim_id ` set (filter (owned_in ?tomb) (conditional s)) =
      tentative_ids s - tentative_ids (cleaned s support)"
    using removed_ids [OF assms(1), of "owned_in ?live"]
    by (simp add: cleaned_def tentative_ids_def)
  ultimately show ?thesis
    using assms keep by (simp add: cleanup_unsupported_owners_def Let_def set_owners)
qed

lemma load_cleaned:
  assumes "F \<in> set support"
  shows "load (cleaned s support) F = load s F"
proof -
  have "owned_in F c \<Longrightarrow> owned_in (family_union support) c" for c
    using assms by (auto simp: owned_in_def family_union_def split: option.splits)
  then have "filter (owned_in F) (filter (owned_in (family_union support)) (conditional s)) =
      filter (owned_in F) (conditional s)"
    by (auto simp: filter_filter intro: filter_cong)
  then show ?thesis
    by (simp add: load_def ddemand_def qdemand_def cleaned_def dimension_def)
qed

text \<open>
  C21. Cleanup for a support of the state succeeds: every remaining tentative claim has an
  owner in the support, a claim became terminal exactly when its owner lost support,
  durable claims are untouched, and no frontier of the support changes its load.
\<close>

theorem cleanup_keeps_supported_loads:
  assumes "state_ok s" and "support \<noteq> []" and "set support \<subseteq> set (frontiers s)"
    and "is_downward_closed support"
  shows "\<exists>r. cleanup_unsupported_owners s support = Inr r \<and>
    state_ok (cleanup_state r) \<and>
    owner_support_well_formed (cleanup_state r) (Some support) \<and>
    durable (cleanup_state r) = durable s \<and> grant (cleanup_state r) = grant s \<and>
    cleanup_terminal r =
      {claim_id c |c. c \<in> set (conditional s) \<and> \<not> owned_in (family_union support) c} \<and>
    (\<forall>F\<in>set support. frontier_load (cleanup_state r) F = frontier_load s F)"
proof -
  have terminal: "tentative_ids s - tentative_ids (cleaned s support) =
      {claim_id c |c. c \<in> set (conditional s) \<and> \<not> owned_in (family_union support) c}"
    using removed_ids [OF assms(1), of "owned_in (family_union support)"]
    by (auto simp: tentative_ids_def cleaned_def)
  have "frontier_load (cleaned s support) F = frontier_load s F" if "F \<in> set support" for F
    using that assms frontier_load_total [OF assms(1)]
      frontier_load_total [OF cleaned_ok [OF assms(1)]] load_cleaned [OF that]
    by (auto simp: cleaned_def subset_eq)
  moreover have "owner_support_well_formed (cleaned s support) (Some support)"
    using assms by (auto simp: owner_support_well_formed_def cleaned_def)
  ultimately show ?thesis
    using cleanup_eq [OF assms] cleaned_ok [OF assms(1)] terminal
    by (simp add: cleaned_def)
qed

end
