(* ===== verification/Guards.thy ===== *)
theory Guards
  imports Authority
begin

text \<open>
  Frozen threshold guards and guarded contracts of \<open>artifact/authority_continuity.py\<close>
  (lines 114 to 292): charges over lineage predicates, the denoted support, and the
  refinement of a leaf into exclusive or parallel descendants with OR transport of the
  frozen lineages.
\<close>

section \<open>Guard terms and guards\<close>

record guard_term =
  lineage_id :: string
  term_weight :: vector
  descendants :: "branch set"

definition guard_term_post_init :: "guard_term \<Rightarrow> guard_term result" where
  "guard_term_post_init t =
     (if lineage_id t = [] then Inl (ValueError ''lineage IDs must be nonempty'')
      else if term_weight t = [] \<or> (\<exists>component\<in>set (term_weight t). component < 0)
      then Inl (ValueError ''guard weights must be nonnegative, nonempty vectors'')
      else if descendants t = {}
      then Inl (ValueError ''a live guard term must have at least one descendant'')
      else Inr t)"

record guard =
  guard_id :: string
  residual :: vector
  terms :: "guard_term list"

definition guard_post_init :: "guard \<Rightarrow> guard result" where
  "guard_post_init g =
     (if guard_id g = [] then Inl (ValueError ''guard IDs must be nonempty'')
      else if residual g = [] \<or> (\<exists>component\<in>set (residual g). component < 0)
      then Inl (ValueError ''guard residual must be a nonnegative, nonempty vector'')
      else if sort_key lineage_id (terms g) \<noteq> terms g
      then Inl (ValueError ''guard terms must be sorted by lineage ID'')
      else if \<not> distinct (map lineage_id (terms g))
      then Inl (ValueError ''lineage IDs must be unique within a guard'')
      else bind_r (each_r (\<lambda>t. same_dimension (residual g) (term_weight t)) (terms g))
        (\<lambda>_. Inr g))"

definition charge :: "guard \<Rightarrow> frontier \<Rightarrow> vector result" where
  "charge g frontier =
     vector_sum (map term_weight (filter (\<lambda>t. descendants t \<inter> frontier \<noteq> {}) (terms g)))
       (length (residual g))"

definition guard_allows :: "guard \<Rightarrow> frontier \<Rightarrow> bool result" where
  "guard_allows g frontier = bind_r (charge g frontier) (\<lambda>c. vector_leq c (residual g))"

definition guard_transport_live_restore :: "guard \<Rightarrow> branch \<Rightarrow> branch \<Rightarrow> guard result" where
  "guard_transport_live_restore g old restored =
     bind_r (map_r (\<lambda>t. guard_term_post_init
               (t\<lparr>descendants := if old \<in> descendants t then descendants t \<union> {restored}
                                  else descendants t\<rparr>)) (terms g))
       (\<lambda>transported. guard_post_init (g\<lparr>terms := transported\<rparr>))"

section \<open>Guarded contracts\<close>

record contract =
  base_frontiers :: family
  guards :: "guard list"

definition contract_post_init :: "contract \<Rightarrow> contract result" where
  "contract_post_init c =
     (if \<not> is_downward_closed (base_frontiers c)
      then Inl (ValueError ''contract base must be nonempty and downward closed'')
      else if \<not> distinct (map guard_id (guards c))
      then Inl (ValueError ''guard IDs must be unique'')
      else Inr c)"

definition contract_allows :: "contract \<Rightarrow> frontier \<Rightarrow> bool result" where
  "contract_allows c frontier =
     (if frontier \<notin> set (base_frontiers c) then Inr False
      else all_r (\<lambda>g. guard_allows g frontier) (guards c))"

definition support :: "contract \<Rightarrow> family result" where
  "support c = filter_r (contract_allows c) (base_frontiers c)"

definition add_guard :: "contract \<Rightarrow> guard \<Rightarrow> contract result" where
  "add_guard c g =
     (if \<exists>existing\<in>set (guards c). guard_id existing = guard_id g
      then Inl (ValueError ''duplicate guard ID'')
      else contract_post_init (c\<lparr>guards := guards c @ [g]\<rparr>))"

text \<open>The steps of \<open>refine_leaf\<close>: local frontiers of the children, expanded base, transported guard.\<close>

definition local_frontiers :: "branch list \<Rightarrow> bool \<Rightarrow> family" where
  "local_frontiers ds parallel =
     (if parallel then powerset ds else {} # map (\<lambda>child. {child}) ds)"

definition expand_base :: "family \<Rightarrow> branch \<Rightarrow> family \<Rightarrow> family" where
  "expand_base base old local_fam =
     remdups (concat (map (\<lambda>frontier. if old \<notin> frontier then [frontier]
         else map (\<lambda>l. (frontier - {old}) \<union> l) local_fam) base))"

definition refine_term :: "branch \<Rightarrow> branch set \<Rightarrow> guard_term \<Rightarrow> guard_term" where
  "refine_term old replacement t =
     t\<lparr>descendants := if old \<in> descendants t then (descendants t - {old}) \<union> replacement
                       else descendants t\<rparr>"

definition refine_guard :: "branch \<Rightarrow> branch set \<Rightarrow> guard \<Rightarrow> guard result" where
  "refine_guard old replacement g =
     bind_r (map_r (\<lambda>t. guard_term_post_init (refine_term old replacement t)) (terms g))
       (\<lambda>ts. guard_post_init (g\<lparr>terms := ts\<rparr>))"

definition refine_leaf :: "contract \<Rightarrow> branch \<Rightarrow> branch list \<Rightarrow> bool \<Rightarrow> contract result" where
  "refine_leaf c old children parallel =
     (let ds = sort children in
      if ds = [] \<or> \<not> distinct ds
      then Inl (ValueError ''leaf refinement needs distinct nonempty children'')
      else if \<exists>child\<in>set ds. child = []
      then Inl (ValueError ''branch names must be nonempty'')
      else let all_branches = family_union (base_frontiers c) in
      if old \<notin> all_branches
      then Inl (ValueError ''branch is not present in the contract'')
      else if (set ds - {old}) \<inter> all_branches \<noteq> {}
      then Inl (ValueError ''refinement children already exist'')
      else bind_r (map_r (refine_guard old (set ds)) (guards c)) (\<lambda>gs.
        contract_post_init
          \<lparr>base_frontiers = expand_base (base_frontiers c) old (local_frontiers ds parallel),
           guards = gs\<rparr>))"

definition contract_transport_live_restore ::
    "contract \<Rightarrow> branch \<Rightarrow> branch \<Rightarrow> contract result" where
  "contract_transport_live_restore c old restored = refine_leaf c old [old, restored] True"

section \<open>Valid guards and contracts\<close>

definition term_ok :: "guard_term \<Rightarrow> bool" where
  "term_ok t \<longleftrightarrow> lineage_id t \<noteq> [] \<and> term_weight t \<noteq> [] \<and> nonneg (term_weight t) \<and>
     descendants t \<noteq> {}"

definition guard_inv :: "guard \<Rightarrow> bool" where
  "guard_inv g \<longleftrightarrow> guard_id g \<noteq> [] \<and> residual g \<noteq> [] \<and> nonneg (residual g) \<and>
     sorted (map lineage_id (terms g)) \<and> distinct (map lineage_id (terms g)) \<and>
     (\<forall>t\<in>set (terms g). length (term_weight t) = length (residual g))"

definition guard_ok :: "guard \<Rightarrow> bool" where
  "guard_ok g \<longleftrightarrow> guard_inv g \<and> (\<forall>t\<in>set (terms g). term_ok t)"

definition contract_inv :: "contract \<Rightarrow> bool" where
  "contract_inv c \<longleftrightarrow> is_downward_closed (base_frontiers c) \<and> distinct (map guard_id (guards c))"

definition contract_ok :: "contract \<Rightarrow> bool" where
  "contract_ok c \<longleftrightarrow> contract_inv c \<and> family_ok (base_frontiers c) \<and> (\<forall>g\<in>set (guards c). guard_ok g)"

lemma guard_term_post_init_iff: "guard_term_post_init t = Inr u \<longleftrightarrow> u = t \<and> term_ok t"
  by (auto simp: guard_term_post_init_def term_ok_def nonneg_def not_less)

lemma guard_post_init_iff: "guard_post_init g = Inr h \<longleftrightarrow> h = g \<and> guard_inv g"
  unfolding guard_post_init_def guard_inv_def if_Inl_eq_Inr bind_r_eq_Inr each_r_Inr_iff
    same_dimension_ok sort_key_fixed_iff nonneg_def
  by (auto simp: not_less eq_commute [of "length (residual g)"])

lemma contract_post_init_iff: "contract_post_init c = Inr d \<longleftrightarrow> d = c \<and> contract_inv c"
  by (auto simp: contract_post_init_def contract_inv_def)

section \<open>Charges and support, without exceptions\<close>

definition gcharge :: "guard \<Rightarrow> frontier \<Rightarrow> vector" where
  "gcharge g F =
     vsum (length (residual g)) (map term_weight (filter (\<lambda>t. descendants t \<inter> F \<noteq> {}) (terms g)))"

definition gallows :: "guard \<Rightarrow> frontier \<Rightarrow> bool" where
  "gallows g F \<longleftrightarrow> vle (gcharge g F) (residual g)"

definition callows :: "contract \<Rightarrow> frontier \<Rightarrow> bool" where
  "callows c F \<longleftrightarrow> F \<in> set (base_frontiers c) \<and> (\<forall>g\<in>set (guards c). gallows g F)"

definition csupport :: "contract \<Rightarrow> family" where
  "csupport c = filter (callows c) (base_frontiers c)"

lemma set_csupport [simp]: "set (csupport c) = {F. callows c F}"
  by (auto simp: csupport_def callows_def)

lemma charge_total: "guard_inv g \<Longrightarrow> charge g F = Inr (gcharge g F)"
  by (simp add: charge_def gcharge_def vec guard_inv_def)

lemma guard_allows_total: "guard_inv g \<Longrightarrow> guard_allows g F = Inr (gallows g F)"
  by (simp add: guard_allows_def charge_total gallows_def vec gcharge_def)

lemma contract_allows_total:
  assumes "contract_ok c"
  shows "contract_allows c F = Inr (callows c F)"
  using assms all_r_total [of "guards c" "\<lambda>g. guard_allows g F" "\<lambda>g. gallows g F"]
  by (simp add: contract_allows_def callows_def contract_ok_def guard_ok_def guard_allows_total)

lemma support_total:
  assumes "contract_ok c"
  shows "support c = Inr (csupport c)"
  unfolding support_def csupport_def
  by (rule filter_r_total) (simp add: contract_allows_total assms)

lemma gcharge_mono:
  assumes "guard_ok g" and "\<And>t. t \<in> set (terms g) \<Longrightarrow> descendants t \<inter> F \<noteq> {} \<Longrightarrow> descendants t \<inter> F' \<noteq> {}"
  shows "vle (gcharge g F) (gcharge g F')"
proof -
  have "(\<Sum>t\<leftarrow>filter (\<lambda>t. descendants t \<inter> F \<noteq> {}) (terms g). term_weight t ! i)
      \<le> (\<Sum>t\<leftarrow>filter (\<lambda>t. descendants t \<inter> F' \<noteq> {}) (terms g). term_weight t ! i)"
    if "i < length (residual g)" for i
    using that assms by (intro sum_list_filter_mono)
      (auto simp: guard_ok_def guard_inv_def term_ok_def intro: nonneg_nth)
  then show ?thesis by (simp add: vle_def gcharge_def comp_def)
qed

lemma gallows_mono: "guard_ok g \<Longrightarrow> S \<subseteq> F \<Longrightarrow> gallows g F \<Longrightarrow> gallows g S"
  unfolding gallows_def by (rule vle_trans [OF gcharge_mono]) auto

lemma gallows_empty: "guard_ok g \<Longrightarrow> gallows g {}"
  by (auto simp: gallows_def gcharge_def vle_def guard_ok_def guard_inv_def nonneg_iff_nth)

interpretation guarded: downward_system contract_ok base_frontiers
  "\<lambda>c F. \<forall>g\<in>set (guards c). gallows g F"
  by unfold_locales (auto simp: contract_ok_def contract_inv_def intro: gallows_mono)

lemma csupport_eq_filter: "csupport c = filter (\<lambda>F. \<forall>g\<in>set (guards c). gallows g F) (base_frontiers c)"
  unfolding csupport_def by (rule filter_cong) (auto simp: callows_def)

lemma csupport_closed:
  assumes "contract_ok c"
  shows "family_ok (csupport c)" "is_downward_closed (csupport c)" "csupport c \<noteq> []"
    "set (csupport c) \<subseteq> set (base_frontiers c)"
proof -
  have "\<forall>g\<in>set (guards c). gallows g {}" using assms gallows_empty by (auto simp: contract_ok_def)
  then show "family_ok (csupport c)" "is_downward_closed (csupport c)" "csupport c \<noteq> []"
    unfolding csupport_eq_filter
    using guarded.safe_family_ok [OF assms] guarded.safe_family_closed [OF assms]
      guarded.safe_family_empty [OF assms] by auto
  show "set (csupport c) \<subseteq> set (base_frontiers c)" by (auto simp: callows_def)
qed

lemma contract_ok_add_guard:
  assumes "contract_ok c" and "guard_ok g" and "guard_id g \<notin> guard_id ` set (guards c)"
  shows "add_guard c g = Inr (c\<lparr>guards := guards c @ [g]\<rparr>)"
    and "contract_ok (c\<lparr>guards := guards c @ [g]\<rparr>)"
proof -
  have inv: "contract_inv (c\<lparr>guards := guards c @ [g]\<rparr>)"
    using assms by (auto simp: contract_ok_def contract_inv_def)
  moreover have "\<not> (\<exists>existing\<in>set (guards c). guard_id existing = guard_id g)"
    using assms(3) by (metis imageI)
  ultimately show "add_guard c g = Inr (c\<lparr>guards := guards c @ [g]\<rparr>)"
    by (simp add: add_guard_def contract_post_init_iff)
  show "contract_ok (c\<lparr>guards := guards c @ [g]\<rparr>)"
    using inv assms by (auto simp: contract_ok_def)
qed

section \<open>Leaf refinement\<close>

text \<open>
  The projection of a refined frontier: any retained descendant counts as the old leaf.
\<close>

definition project :: "branch \<Rightarrow> branch set \<Rightarrow> frontier \<Rightarrow> frontier" where
  "project old ds F = (if F \<inter> ds = {} then F - ds else (F - ds) \<union> {old})"

definition leaf_ok :: "contract \<Rightarrow> branch \<Rightarrow> branch list \<Rightarrow> bool" where
  "leaf_ok c old ds \<longleftrightarrow> ds \<noteq> [] \<and> distinct ds \<and> [] \<notin> set ds \<and>
     old \<in> family_union (base_frontiers c) \<and> (set ds - {old}) \<inter> family_union (base_frontiers c) = {}"

definition refined_base :: "contract \<Rightarrow> branch \<Rightarrow> branch list \<Rightarrow> bool \<Rightarrow> family" where
  "refined_base c old ds parallel =
     expand_base (base_frontiers c) old (local_frontiers ds parallel)"

lemma project_mono: "S \<subseteq> F \<Longrightarrow> project old ds S \<subseteq> project old ds F"
  by (auto simp: project_def)

lemma local_frontiers_closed:
  assumes "L \<in> set (local_frontiers ds parallel)" and "M \<subseteq> L"
  shows "M \<in> set (local_frontiers ds parallel)"
proof -
  have "M = {} \<or> M = {x}" if "M \<subseteq> {x}" for x using that by blast
  then show ?thesis using assms by (auto simp: local_frontiers_def split: if_splits)
qed

lemma set_local_frontiers_Pow: "L \<in> set (local_frontiers ds parallel) \<Longrightarrow> L \<subseteq> set ds"
  by (auto simp: local_frontiers_def split: if_splits)

lemma empty_in_local_frontiers [simp]: "{} \<in> set (local_frontiers ds parallel)"
  by (simp add: local_frontiers_def)

lemma set_refined_base:
  assumes "contract_ok c" and "leaf_ok c old ds"
  shows "F \<in> set (refined_base c old ds parallel) \<longleftrightarrow>
    project old (set ds) F \<in> set (base_frontiers c) \<and>
    F \<inter> set ds \<in> set (local_frontiers ds parallel) \<and> (old \<in> F \<longrightarrow> old \<in> set ds)"
    (is "?in \<longleftrightarrow> ?char")
proof
  have base: "is_downward_closed (base_frontiers c)" "family_ok (base_frontiers c)"
    using assms(1) by (auto simp: contract_ok_def contract_inv_def)
  have fresh: "B \<inter> set ds \<subseteq> {old}" if "B \<in> set (base_frontiers c)" for B
    using assms(2) that by (auto simp: leaf_ok_def family_union_def)
  assume ?in
  then obtain B where B: "B \<in> set (base_frontiers c)"
    and F: "old \<notin> B \<and> F = B \<or> old \<in> B \<and> (\<exists>l\<in>set (local_frontiers ds parallel). F = (B - {old}) \<union> l)"
    by (auto simp: refined_base_def expand_base_def split: if_splits)
  from F show ?char
  proof (elim disjE conjE bexE)
    assume "old \<notin> B" "F = B"
    moreover from this have "F \<inter> set ds = {}" "F - set ds = F" using fresh [OF B] by auto
    ultimately show ?char using B by (simp add: project_def)
  next
    fix l assume o: "old \<in> B" and l: "l \<in> set (local_frontiers ds parallel)" and F: "F = (B - {old}) \<union> l"
    have sub: "l \<subseteq> set ds" using l by (rule set_local_frontiers_Pow)
    have meet: "F \<inter> set ds = l" and rest: "F - set ds = B - {old}"
      using fresh [OF B] sub F by auto
    have "project old (set ds) F \<in> set (base_frontiers c)"
      using B o rest meet downward_closed_subset [OF base B, of "B - {old}"]
      by (auto simp: project_def insert_absorb)
    then show ?char using meet l sub F by auto
  qed
next
  assume char: ?char
  show ?in
  proof (cases "F \<inter> set ds = {}")
    case True
    with char have "F \<in> set (base_frontiers c)" "old \<notin> F"
      by (auto simp: project_def Diff_triv)
    then show ?thesis by (auto simp: refined_base_def expand_base_def intro!: bexI [of _ F])
  next
    case False
    let ?B = "(F - set ds) \<union> {old}"
    have B: "?B \<in> set (base_frontiers c)" using char False by (simp add: project_def)
    have "F = (?B - {old}) \<union> (F \<inter> set ds)" using char by auto
    then have "\<exists>l\<in>set (local_frontiers ds parallel). F = (?B - {old}) \<union> l" using char by blast
    then show ?thesis using B unfolding refined_base_def expand_base_def
      by (auto intro!: bexI [of _ ?B])
  qed
qed

lemma refined_base_closed:
  assumes "contract_ok c" and "leaf_ok c old ds"
  shows "family_ok (refined_base c old ds parallel)"
    and "is_downward_closed (refined_base c old ds parallel)"
proof -
  have base: "is_downward_closed (base_frontiers c)" "family_ok (base_frontiers c)"
    using assms(1) by (auto simp: contract_ok_def contract_inv_def)
  note char = set_refined_base [OF assms, of _ parallel]
  have fin: "finite F" if "F \<in> set (refined_base c old ds parallel)" for F
  proof -
    have "finite (project old (set ds) F)" using that base(2) by (simp add: char family_ok_def)
    moreover have "F \<subseteq> project old (set ds) F \<union> set ds" by (auto simp: project_def)
    ultimately show ?thesis by (meson List.finite_set finite_UnI finite_subset)
  qed
  then show ok: "family_ok (refined_base c old ds parallel)"
    by (simp add: family_ok_def refined_base_def expand_base_def)
  have "{} \<in> set (refined_base c old ds parallel)"
    using downward_closed_empty [OF base] by (simp add: char project_def)
  then have ne: "refined_base c old ds parallel \<noteq> []" by force
  have sub: "S \<in> set (refined_base c old ds parallel)"
    if F: "F \<in> set (refined_base c old ds parallel)" and S: "S \<subseteq> F" for F S
  proof -
    have "project old (set ds) S \<in> set (base_frontiers c)"
      using F S downward_closed_subset [OF base _ project_mono [OF S]] by (simp add: char)
    moreover have "F \<inter> set ds \<in> set (local_frontiers ds parallel)" and "old \<in> F \<longrightarrow> old \<in> set ds"
      using F by (simp_all add: char)
    moreover from this(1) have "S \<inter> set ds \<in> set (local_frontiers ds parallel)"
      by (rule local_frontiers_closed) (use S in blast)
    ultimately show ?thesis using S unfolding char by blast
  qed
  show "is_downward_closed (refined_base c old ds parallel)"
    unfolding is_downward_closed_iff [OF ok] using ne sub by blast
qed

definition refined_guard :: "branch \<Rightarrow> branch set \<Rightarrow> guard \<Rightarrow> guard" where
  "refined_guard old ds g = g\<lparr>terms := map (refine_term old ds) (terms g)\<rparr>"

lemma refine_term_simps [simp]:
  "lineage_id (refine_term old ds t) = lineage_id t"
  "term_weight (refine_term old ds t) = term_weight t"
  "descendants (refine_term old ds t) =
     (if old \<in> descendants t then (descendants t - {old}) \<union> ds else descendants t)"
  by (simp_all add: refine_term_def)

lemma refined_guard_simps [simp]:
  "guard_id (refined_guard old ds g) = guard_id g"
  "residual (refined_guard old ds g) = residual g"
  "terms (refined_guard old ds g) = map (refine_term old ds) (terms g)"
  by (simp_all add: refined_guard_def)

lemma refined_guard_ok:
  assumes "guard_ok g" and "ds \<noteq> {}"
  shows "guard_ok (refined_guard old ds g)"
    and "refine_guard old ds g = Inr (refined_guard old ds g)"
proof -
  have lin: "map (lineage_id \<circ> refine_term old ds) (terms g) = map lineage_id (terms g)"
    by (simp add: comp_def)
  have terms: "term_ok (refine_term old ds t)" if "t \<in> set (terms g)" for t
    using that assms by (auto simp: guard_ok_def term_ok_def)
  show ok: "guard_ok (refined_guard old ds g)"
    using assms terms by (auto simp: guard_ok_def guard_inv_def comp_def)
  have "map_r (\<lambda>t. guard_term_post_init (refine_term old ds t)) (terms g) =
      Inr (map (refine_term old ds) (terms g))"
    by (rule map_r_total) (simp add: guard_term_post_init_iff terms)
  then show "refine_guard old ds g = Inr (refined_guard old ds g)"
    using ok by (simp add: refine_guard_def guard_post_init_iff refined_guard_def guard_ok_def)
qed

definition refined :: "contract \<Rightarrow> branch \<Rightarrow> branch list \<Rightarrow> bool \<Rightarrow> contract" where
  "refined c old ds parallel =
     \<lparr>base_frontiers = refined_base c old ds parallel,
      guards = map (refined_guard old (set ds)) (guards c)\<rparr>"

lemma refined_ok:
  assumes "contract_ok c" and "leaf_ok c old ds"
  shows "contract_ok (refined c old ds parallel)"
proof -
  have "set ds \<noteq> {}" using assms(2) by (auto simp: leaf_ok_def)
  then show ?thesis
    using assms(1) refined_base_closed [OF assms, of parallel] refined_guard_ok(1)
    by (auto simp: contract_ok_def contract_inv_def refined_def comp_def)
qed

lemma leaf_ok_sort [simp]: "leaf_ok c old (sort ds) \<longleftrightarrow> leaf_ok c old ds"
proof -
  have "sort ds = [] \<longleftrightarrow> ds = []" by (metis mset_sort mset_zero_iff)
  then show ?thesis by (simp add: leaf_ok_def)
qed

lemma refine_leaf_eq:
  assumes "contract_ok c" and "leaf_ok c old children"
  shows "refine_leaf c old children parallel = Inr (refined c old (sort children) parallel)"
proof -
  let ?ds = "sort children"
  have leaf: "leaf_ok c old ?ds" using assms(2) by simp
  then have "set ?ds \<noteq> {}" by (auto simp: leaf_ok_def)
  then have "map_r (refine_guard old (set ?ds)) (guards c) =
      Inr (map (refined_guard old (set ?ds)) (guards c))"
    using assms(1) by (intro map_r_total refined_guard_ok(2)) (auto simp: contract_ok_def)
  moreover have "contract_post_init (refined c old ?ds parallel) = Inr (refined c old ?ds parallel)"
    using refined_ok [OF assms(1) leaf] by (simp add: contract_post_init_iff contract_ok_def)
  moreover have "\<not> (\<exists>child\<in>set ?ds. child = [])" using leaf by (auto simp: leaf_ok_def)
  ultimately show ?thesis
    using leaf unfolding refine_leaf_def Let_def leaf_ok_def
    by (simp add: refined_def refined_base_def)
qed

lemma refine_leaf_rejects:
  "\<not> leaf_ok c old children \<Longrightarrow> \<exists>msg. refine_leaf c old children parallel = Inl (ValueError msg)"
proof -
  assume "\<not> leaf_ok c old children"
  then have "\<not> leaf_ok c old (sort children)" by simp
  then show ?thesis unfolding refine_leaf_def Let_def leaf_ok_def by auto
qed

section \<open>OR transport charges a lineage once\<close>

lemma refine_meets_project:
  assumes "old \<in> F \<longrightarrow> old \<in> ds" and "descendants t \<inter> project old ds F \<noteq> {}"
  shows "descendants (refine_term old ds t) \<inter> F \<noteq> {}"
proof -
  from assms(2) obtain x where x: "x \<in> descendants t" "x \<in> project old ds F" by blast
  show ?thesis
  proof (cases "x = old")
    case True
    then have "F \<inter> ds \<noteq> {}" using x(2) assms(1) by (auto simp: project_def)
    then show ?thesis using True x(1) by (simp add: Int_commute) blast
  next
    case False
    then have "x \<in> F" using x(2) by (simp add: project_def split: if_splits)
    then show ?thesis using x(1) False by (simp add: disjoint_iff) blast
  qed
qed

lemma refine_meets_iff:
  assumes "old \<in> F \<longrightarrow> old \<in> ds" and "descendants t \<inter> (ds - {old}) = {}"
  shows "descendants (refine_term old ds t) \<inter> F \<noteq> {} \<longleftrightarrow> descendants t \<inter> project old ds F \<noteq> {}"
proof
  assume "descendants (refine_term old ds t) \<inter> F \<noteq> {}"
  then obtain x where x: "x \<in> descendants (refine_term old ds t)" "x \<in> F" by blast
  show "descendants t \<inter> project old ds F \<noteq> {}"
  proof (cases "x \<in> ds")
    case True
    then have "F \<inter> ds \<noteq> {}" using x(2) by blast
    then have "old \<in> project old ds F" by (simp add: project_def)
    moreover have "old \<in> descendants t"
      using True x(1) assms(2) by (cases "old \<in> descendants t") (simp, auto)
    ultimately show ?thesis by blast
  next
    case False
    then have "x \<in> project old ds F" using x(2) by (simp add: project_def)
    moreover have "x \<in> descendants t" using False x(1) by (simp split: if_splits)
    ultimately show ?thesis by blast
  qed
qed (rule refine_meets_project [OF assms(1)])

lemma gcharge_refined_ge:
  assumes "guard_ok g" and "ds \<noteq> {}" and "old \<in> F \<longrightarrow> old \<in> ds"
  shows "vle (gcharge g (project old ds F)) (gcharge (refined_guard old ds g) F)"
proof -
  have "(\<Sum>t\<leftarrow>filter (\<lambda>t. descendants t \<inter> project old ds F \<noteq> {}) (terms g). term_weight t ! i) \<le>
      (\<Sum>t\<leftarrow>filter (\<lambda>t. descendants (refine_term old ds t) \<inter> F \<noteq> {}) (terms g). term_weight t ! i)"
    if "i < length (residual g)" for i
    using that assms(1) refine_meets_project [OF assms(3)]
    by (intro sum_list_filter_mono)
      (auto simp: guard_ok_def guard_inv_def term_ok_def intro: nonneg_nth)
  then show ?thesis
    by (simp add: vle_def gcharge_def filter_map comp_def)
qed

lemma gcharge_refined_eq:
  assumes "old \<in> F \<longrightarrow> old \<in> ds" and "\<forall>t\<in>set (terms g). descendants t \<inter> (ds - {old}) = {}"
  shows "gcharge (refined_guard old ds g) F = gcharge g (project old ds F)"
proof -
  have "filter (\<lambda>t. descendants (refine_term old ds t) \<inter> F \<noteq> {}) (terms g) =
      filter (\<lambda>t. descendants t \<inter> project old ds F \<noteq> {}) (terms g)"
    using refine_meets_iff [OF assms(1)] assms(2) by (intro filter_cong) auto
  then show ?thesis by (simp add: gcharge_def filter_map comp_def)
qed

text \<open>Every guard names current branches only: what the exact repair guards satisfy.\<close>

definition guards_scoped :: "contract \<Rightarrow> bool" where
  "guards_scoped c \<longleftrightarrow> (\<forall>g\<in>set (guards c). \<forall>t\<in>set (terms g).
     descendants t \<subseteq> family_union (base_frontiers c))"

lemma refined_branches:
  assumes "contract_ok c" and "leaf_ok c old ds"
    and "b \<in> set ds \<or> b \<noteq> old \<and> b \<in> family_union (base_frontiers c)"
  shows "b \<in> family_union (refined_base c old ds parallel)"
proof -
  have base: "is_downward_closed (base_frontiers c)" "family_ok (base_frontiers c)"
    using assms(1) by (auto simp: contract_ok_def contract_inv_def)
  have single: "{x} \<in> set (base_frontiers c)" if "x \<in> family_union (base_frontiers c)" for x
    using that downward_closed_subset [OF base] by (auto simp: family_union_def)
  have "{b} \<in> set (refined_base c old ds parallel)"
  proof (cases "b \<in> set ds")
    case True
    then have "project old (set ds) {b} = {old}" "{b} \<inter> set ds = {b}" by (auto simp: project_def)
    moreover have "{old} \<in> set (base_frontiers c)" using single assms(2) by (auto simp: leaf_ok_def)
    moreover have "{b} \<in> set (local_frontiers ds parallel)"
      using True by (auto simp: local_frontiers_def)
    ultimately show ?thesis using True by (auto simp: set_refined_base [OF assms(1,2)])
  next
    case False
    then have "project old (set ds) {b} = {b}" "{b} \<inter> set ds = {}" by (auto simp: project_def)
    then show ?thesis using assms(3) False single by (auto simp: set_refined_base [OF assms(1,2)])
  qed
  then show ?thesis by (auto simp: family_union_def)
qed

lemma refined_scoped:
  assumes "contract_ok c" and "leaf_ok c old ds" and "guards_scoped c"
  shows "guards_scoped (refined c old ds parallel)"
proof -
  have "b \<in> family_union (refined_base c old ds parallel)"
    if "g \<in> set (guards c)" "t \<in> set (terms g)" "b \<in> descendants (refine_term old (set ds) t)" for g t b
  proof (rule refined_branches [OF assms(1,2)])
    show "b \<in> set ds \<or> b \<noteq> old \<and> b \<in> family_union (base_frontiers c)"
      using that assms(3) by (auto simp: guards_scoped_def split: if_splits)
  qed
  then show ?thesis unfolding guards_scoped_def refined_def by fastforce
qed

lemma callows_refined_project:
  assumes "contract_ok c" and "leaf_ok c old ds" and "callows (refined c old ds parallel) F"
  shows "callows c (project old (set ds) F)"
proof -
  have F: "F \<in> set (refined_base c old ds parallel)"
    and g: "\<And>g. g \<in> set (guards c) \<Longrightarrow> gallows (refined_guard old (set ds) g) F"
    using assms(3) by (auto simp: callows_def refined_def)
  note char = set_refined_base [OF assms(1,2), of F parallel]
  have "set ds \<noteq> {}" using assms(2) by (auto simp: leaf_ok_def)
  then have "gallows h (project old (set ds) F)" if "h \<in> set (guards c)" for h
    using that g [OF that] char F assms(1) gcharge_refined_ge [of h "set ds" old F]
    by (auto simp: gallows_def contract_ok_def intro: vle_trans)
  then show ?thesis using char F by (simp add: callows_def)
qed

text \<open>
  C22. Refining a leaf into exclusive or parallel descendants succeeds on a valid contract and
  yields a valid one. A frontier is in the new base exactly when its projection was in the old
  base and its descendants form an allowed local choice; when guards name current branches
  only, every transported guard charges a frontier what the old guard charged its projection
  (a lineage is paid once however many descendants are retained), so the new support is
  exactly the inverse image of the old support.
\<close>

theorem refine_leaf_transports_support:
  assumes "contract_ok c" and "leaf_ok c old children" and "guards_scoped c"
  shows "\<exists>c'. refine_leaf c old children parallel = Inr c' \<and> contract_ok c' \<and> guards_scoped c' \<and>
    (\<forall>F. F \<in> set (base_frontiers c') \<longleftrightarrow>
       project old (set children) F \<in> set (base_frontiers c) \<and>
       F \<inter> set children \<in> set (local_frontiers (sort children) parallel) \<and>
       (old \<in> F \<longrightarrow> old \<in> set children)) \<and>
    (\<forall>F\<in>set (base_frontiers c'). \<forall>i<length (guards c).
       charge (guards c' ! i) F = charge (guards c ! i) (project old (set children) F)) \<and>
    (\<exists>s s'. support c = Inr s \<and> support c' = Inr s' \<and>
       (\<forall>F\<in>set (base_frontiers c'). F \<in> set s' \<longleftrightarrow> project old (set children) F \<in> set s))"
proof -
  let ?ds = "sort children"
  let ?c = "refined c old ?ds parallel"
  have leaf: "leaf_ok c old ?ds" using assms(2) by simp
  note char = set_refined_base [OF assms(1) leaf, of _ parallel]
  have ok: "contract_ok ?c" using refined_ok [OF assms(1) leaf] .
  have base: "base_frontiers ?c = refined_base c old ?ds parallel" by (simp add: refined_def)
  have fresh: "\<forall>t\<in>set (terms g). descendants t \<inter> (set ?ds - {old}) = {}" if "g \<in> set (guards c)" for g
    using that assms(3) leaf by (auto simp: guards_scoped_def leaf_ok_def)
  have eq: "gcharge (refined_guard old (set ?ds) g) F = gcharge g (project old (set ?ds) F)"
    if "g \<in> set (guards c)" "F \<in> set (base_frontiers ?c)" for g F
    using that fresh [OF that(1)] by (intro gcharge_refined_eq) (auto simp: base char)
  have charges: "charge (guards ?c ! i) F = charge (guards c ! i) (project old (set ?ds) F)"
    if "F \<in> set (base_frontiers ?c)" "i < length (guards c)" for F i
    using that assms(1) ok eq [of "guards c ! i" F]
    by (simp add: charge_total contract_ok_def guard_ok_def refined_def)
  have supp: "callows ?c F \<longleftrightarrow> callows c (project old (set ?ds) F)"
    if "F \<in> set (base_frontiers ?c)" for F
    using that eq [OF _ that] by (auto simp: callows_def gallows_def refined_def char)
  have "guards_scoped ?c" by (rule refined_scoped [OF assms(1) leaf assms(3)])
  moreover have "refine_leaf c old children parallel = Inr ?c"
    by (rule refine_leaf_eq [OF assms(1,2)])
  ultimately show ?thesis
    using ok charges supp support_total [OF assms(1)] support_total [OF ok]
    by (auto simp: base char)
qed

section \<open>Live restore\<close>

lemma leaf_ok_live_restore:
  "leaf_ok c old [old, restored] \<longleftrightarrow> old \<noteq> [] \<and> restored \<noteq> [] \<and> old \<noteq> restored \<and>
     old \<in> family_union (base_frontiers c) \<and> restored \<notin> family_union (base_frontiers c)"
  by (auto simp: leaf_ok_def)

lemma guard_transport_live_restore_eq:
  assumes "guard_ok g"
  shows "guard_transport_live_restore g old restored = Inr (refined_guard old {old, restored} g)"
proof -
  have eq: "t\<lparr>descendants := if old \<in> descendants t then descendants t \<union> {restored}
      else descendants t\<rparr> = refine_term old {old, restored} t" for t
    by (cases "old \<in> descendants t")
      (simp_all add: refine_term_def insert_commute [of old restored] insert_absorb)
  have "refine_guard old {old, restored} g = Inr (refined_guard old {old, restored} g)"
    using assms by (rule refined_guard_ok(2)) simp
  then show ?thesis
    by (simp only: guard_transport_live_restore_def refine_guard_def eq)
qed

text \<open>
  The two routes of a live restore agree: transporting a contract from \<open>old\<close> to
  \<open>old || restored\<close> succeeds for a fresh restored leaf, and its guards are exactly what each
  guard's own live-restore transport returns.
\<close>

theorem live_restore_routes_agree:
  assumes "contract_ok c" and "leaf_ok c old [old, restored]"
  shows "\<exists>c'. contract_transport_live_restore c old restored = Inr c' \<and> contract_ok c' \<and>
    map_r (\<lambda>g. guard_transport_live_restore g old restored) (guards c) = Inr (guards c')"
proof -
  have "contract_transport_live_restore c old restored =
      Inr (refined c old (sort [old, restored]) True)"
    unfolding contract_transport_live_restore_def by (rule refine_leaf_eq [OF assms])
  moreover have "contract_ok (refined c old (sort [old, restored]) True)"
    using assms by (intro refined_ok) (simp_all only: leaf_ok_sort)
  moreover have "map_r (\<lambda>g. guard_transport_live_restore g old restored) (guards c) =
      Inr (map (refined_guard old {old, restored}) (guards c))"
    using assms(1) by (intro map_r_total guard_transport_live_restore_eq) (auto simp: contract_ok_def)
  moreover have "set (sort [old, restored]) = {old, restored}" by (simp only: set_sort) simp
  ultimately show ?thesis by (simp only: refined_def contract.simps) simp
qed

end
