(* ===== verification/Reservations.thy ===== *)
theory Reservations
  imports Authority
begin

text \<open>
  Reservation batches, headroom and the residual authorization profile of
  \<open>artifact/authority_continuity.py\<close> (lines 498 to 849). A batch is a list of
  branch and weight pairs in branch order; profiles, frozen sets of batches in the source,
  are the lists of their members.
\<close>

section \<open>Batches\<close>

type_synonym batch = "(branch \<times> vector) list"

text \<open>The validation loop: each entry, and one dimension for all of them.\<close>

definition check_batch_entry :: "nat option \<Rightarrow> branch \<times> vector \<Rightarrow> nat option result" where
  "check_batch_entry dim entry =
     (let (b, w) = entry in
      if b = [] then Inl (ValueError ''batch branches must be nonempty'')
      else if w = [] \<or> (\<exists>component\<in>set w. component < 0)
      then Inl (ValueError ''batch weights must be nonnegative, nonempty vectors'')
      else case dim of
        None \<Rightarrow> Inr (Some (length w))
      | Some d \<Rightarrow> if length w \<noteq> d then Inl (ValueError ''batch vector dimensions differ'')
                  else Inr (Some d))"

definition make_reservation_batch :: "batch \<Rightarrow> batch result" where
  "make_reservation_batch entries =
     (if \<not> distinct (map fst entries)
      then Inl (ValueError ''a reservation batch may mention each branch at most once'')
      else bind_r (fold_r check_batch_entry None entries) (\<lambda>_. Inr (sort_key fst entries)))"

definition validate_batch_for_state :: "state \<Rightarrow> batch \<Rightarrow> unit result" where
  "validate_batch_for_state s batch =
     bind_r (make_reservation_batch batch) (\<lambda>canonical.
     if canonical \<noteq> batch
     then Inl (ValueError ''reservation batches must use canonical branch order'')
     else if fst ` set batch - supported_branches s \<noteq> {}
     then Inl (ReservationRejected ''unsupported branches'')
     else each_r (\<lambda>(_, w). same_dimension (grant s) w) batch)"

text \<open>One iteration of the pointwise addition: a dictionary updated in insertion order.\<close>

definition add_entry :: "batch \<Rightarrow> branch \<times> vector \<Rightarrow> batch result" where
  "add_entry weights entry =
     (let (b, w) = entry in
      case map_of weights b of
        Some v \<Rightarrow> bind_r (vector_add v w) (\<lambda>u. Inr (AList.update b u weights))
      | None \<Rightarrow> Inr (AList.update b w weights))"

definition add_reservation_batches :: "batch \<Rightarrow> batch \<Rightarrow> batch result" where
  "add_reservation_batches left right =
     bind_r (make_reservation_batch left) (\<lambda>l.
     bind_r (make_reservation_batch right) (\<lambda>r.
     bind_r (fold_r add_entry l r) make_reservation_batch))"

definition enumerate_reservation_batches ::
    "branch list \<Rightarrow> nat \<Rightarrow> int \<Rightarrow> batch list result" where
  "enumerate_reservation_batches branches dim component_bound =
     (let ordered = sort branches in
      if \<not> distinct ordered then Inl (ValueError ''branch order contains duplicates'')
      else if dim = 0 \<or> component_bound < 0
      then Inl (ValueError ''dimension must be positive and bound nonnegative'')
      else let width = length ordered * dim in
        map_r (\<lambda>flat. make_reservation_batch
                 (map (\<lambda>index. (ordered ! index, take dim (drop (index * dim) flat)))
                    [0..<length ordered]))
          (product_lists (replicate width [0..component_bound])))"

section \<open>Slack and headroom\<close>

definition configuration_slack :: "state \<Rightarrow> frontier \<Rightarrow> vector result" where
  "configuration_slack s frontier =
     bind_r (frontier_load s frontier) (\<lambda>load. vector_subtract (grant s) load)"

definition branch_headroom :: "state \<Rightarrow> branch \<Rightarrow> vector option result" where
  "branch_headroom s b =
     (let containing = filter (\<lambda>frontier. b \<in> frontier) (frontiers s) in
      if containing = [] then Inr None
      else bind_r (map_r (configuration_slack s) containing)
             (\<lambda>slacks. bind_r (vector_infimum slacks) (\<lambda>h. Inr (Some h))))"

definition headroom_profile :: "state \<Rightarrow> branch list \<Rightarrow> (branch \<times> vector option) list result" where
  "headroom_profile s branches =
     map_r (\<lambda>b. bind_r (branch_headroom s b) (\<lambda>h. Inr (b, h))) (sort branches)"

definition batch_configuration_demand :: "batch \<Rightarrow> frontier \<Rightarrow> nat \<Rightarrow> vector result" where
  "batch_configuration_demand batch frontier dim =
     vector_sum (map snd (filter (\<lambda>(b, _). b \<in> frontier) batch)) dim"

text \<open>
  The rectangular box of batches below every branch's headroom. The bound of the enumeration
  is the largest headroom component.
\<close>

definition headroom_box_profile :: "state \<Rightarrow> branch list \<Rightarrow> batch list result" where
  "headroom_box_profile s branches =
     (let ordered = sort branches in
      bind_r (headroom_profile s branches) (\<lambda>headrooms.
      if \<exists>(b, h)\<in>set headrooms. h = None
      then Inl (ValueError ''headroom box requires every listed branch to be supported'')
      else
        let concrete = map (\<lambda>(b, h). (b, the h)) headrooms;
            components = concat (map snd concrete);
            component_bound = (if components = [] then 0 else Max (set components)) in
        bind_r (enumerate_reservation_batches ordered (dimension s) component_bound)
          (filter_r (\<lambda>batch. all_r (\<lambda>(b, w). vector_leq w (the (map_of concrete b))) batch))))"

text \<open>Whether one batch fits into the slack of every configuration.\<close>

definition fits_slack :: "state \<Rightarrow> batch \<Rightarrow> bool result" where
  "fits_slack s batch =
     all_r (\<lambda>frontier.
        bind_r (batch_configuration_demand batch frontier (dimension s)) (\<lambda>demand.
        bind_r (configuration_slack s frontier) (\<lambda>slack. vector_leq demand slack)))
       (frontiers s)"

definition headroom_corner_satisfies_slack :: "state \<Rightarrow> branch list \<Rightarrow> bool result" where
  "headroom_corner_satisfies_slack s branches =
     bind_r (map_r (\<lambda>b. bind_r (branch_headroom s b) (\<lambda>h. case h of
                None \<Rightarrow> Inl (ValueError ''headroom corner requires every listed branch to be supported'')
              | Some v \<Rightarrow> Inr (b, v))) (sort branches)) (\<lambda>entries.
     bind_r (make_reservation_batch entries) (\<lambda>corner. fits_slack s corner))"

definition reserve_admitted_by_headroom :: "state \<Rightarrow> branch \<Rightarrow> vector \<Rightarrow> bool result" where
  "reserve_admitted_by_headroom s b w =
     bind_r (same_dimension (grant s) w) (\<lambda>_.
     if \<exists>component\<in>set w. component < 0
     then Inl (ValueError ''reservation demand must be nonnegative'')
     else bind_r (branch_headroom s b) (\<lambda>h. case h of
            None \<Rightarrow> Inr False
          | Some v \<Rightarrow> vector_leq w v))"

section \<open>The residual profile and admission\<close>

definition batch_in_residual :: "state \<Rightarrow> batch \<Rightarrow> bool result" where
  "batch_in_residual s batch =
     bind_r (validate_batch_for_state s batch) (\<lambda>_. fits_slack s batch)"

definition generated_claim_id :: "string \<Rightarrow> nat \<Rightarrow> branch \<Rightarrow> string" where
  "generated_claim_id claim_prefix index b = claim_prefix @ '':'' @ show_nat index @ '':'' @ b"

fun reservation_additions ::
    "string set \<Rightarrow> string \<Rightarrow> nat \<Rightarrow> batch \<Rightarrow> claim list result" where
  "reservation_additions existing_ids claim_prefix index [] = Inr []"
| "reservation_additions existing_ids claim_prefix index ((b, w) # rest) =
     (if \<not> (\<exists>component\<in>set w. component \<noteq> 0)
      then reservation_additions existing_ids claim_prefix (Suc index) rest
      else let cid = generated_claim_id claim_prefix index b in
        if cid \<in> existing_ids then Inl (ValueError ''generated claim ID already exists'')
        else bind_r (claim_post_init \<lparr>claim_id = cid, claim_weight = w, claim_branch = Some b\<rparr>)
          (\<lambda>c. bind_r (reservation_additions existing_ids claim_prefix (Suc index) rest)
          (\<lambda>cs. Inr (c # cs))))"

definition reservation_target :: "state \<Rightarrow> batch \<Rightarrow> string \<Rightarrow> state result" where
  "reservation_target s batch claim_prefix =
     bind_r (validate_batch_for_state s batch) (\<lambda>_.
     if claim_prefix = [] then Inl (ValueError ''claim prefix must be nonempty'')
     else let existing_ids = claim_id ` set (durable s @ conditional s) in
       bind_r (reservation_additions existing_ids claim_prefix 0 batch) (\<lambda>additions.
       make_state (grant s) (durable s) (conditional s @ additions) (frontiers s)))"

definition batch_admitted_by_target :: "state \<Rightarrow> batch \<Rightarrow> bool result" where
  "batch_admitted_by_target s batch =
     (case reservation_target s batch ''target-check'' of
        Inl (ReservationRejected _) \<Rightarrow> Inr False
      | Inl e \<Rightarrow> Inl e
      | Inr target \<Rightarrow> authority_continuous target)"

definition reserve_batch :: "state \<Rightarrow> batch \<Rightarrow> string \<Rightarrow> state result" where
  "reserve_batch s batch claim_prefix =
     bind_r (batch_in_residual s batch) (\<lambda>inside.
     if \<not> inside
     then Inl (ReservationRejected ''batch is outside the residual authorization profile'')
     else reservation_target s batch claim_prefix)"

definition enumerated_residual_profile :: "state \<Rightarrow> branch list \<Rightarrow> int \<Rightarrow> batch list result" where
  "enumerated_residual_profile s branches component_bound =
     (let ordered = sort branches in
      if \<not> set ordered \<subseteq> supported_branches s
      then Inl (ValueError ''enumerated profile branches must all be supported'')
      else bind_r (enumerate_reservation_batches ordered (dimension s) component_bound)
             (filter_r (batch_in_residual s)))"

definition bounded_residual_derivative ::
    "state \<Rightarrow> batch \<Rightarrow> branch list \<Rightarrow> int \<Rightarrow> (batch list \<times> batch list \<times> int) result" where
  "bounded_residual_derivative s accepted branches successor_bound =
     bind_r (validate_batch_for_state s accepted) (\<lambda>_.
     bind_r (batch_in_residual s accepted) (\<lambda>inside.
     if \<not> inside then Inl (ReservationRejected ''derivative requires an accepted batch'')
     else if successor_bound < 0 then Inl (ValueError ''successor bound must be nonnegative'')
     else
       let components = concat (map snd accepted);
           max_component = (if components = [] then 0 else Max (set components));
           parent_bound = successor_bound + max_component in
       bind_r (enumerated_residual_profile s branches parent_bound) (\<lambda>parent_profile.
       bind_r (reserve_batch s accepted ''derivative'') (\<lambda>successor.
       bind_r (enumerated_residual_profile successor branches successor_bound) (\<lambda>successor_profile.
       bind_r (enumerate_reservation_batches branches (dimension s) successor_bound) (\<lambda>candidates.
       bind_r (filter_r (\<lambda>candidate. bind_r (add_reservation_batches accepted candidate)
                 (\<lambda>total. Inr (total \<in> set parent_profile))) candidates) (\<lambda>derivative_profile.
       Inr (successor_profile, derivative_profile, parent_bound))))))))"

definition knowledge_residual_intersection ::
    "state list \<Rightarrow> branch list \<Rightarrow> int \<Rightarrow> batch list result" where
  "knowledge_residual_intersection states branches component_bound =
     (if states = [] then Inl (ValueError ''knowledge set must be nonempty'')
      else bind_r (map_r (\<lambda>s. enumerated_residual_profile s branches component_bound) states)
        (\<lambda>profiles. Inr (filter (\<lambda>batch. \<forall>profile\<in>set profiles. batch \<in> set profile)
                            (hd profiles))))"

section \<open>Valid batches\<close>

definition entry_ok :: "nat \<Rightarrow> branch \<times> vector \<Rightarrow> bool" where
  "entry_ok d entry \<longleftrightarrow> fst entry \<noteq> [] \<and> snd entry \<noteq> [] \<and> nonneg (snd entry) \<and> length (snd entry) = d"

definition valid_batch :: "state \<Rightarrow> batch \<Rightarrow> bool" where
  "valid_batch s batch \<longleftrightarrow>
     distinct (map fst batch) \<and> sorted (map fst batch) \<and>
     (\<forall>entry\<in>set batch. entry_ok (dimension s) entry) \<and> fst ` set batch \<subseteq> supported_branches s"

lemma check_batch_entry_iff:
  "check_batch_entry dim entry = Inr r \<longleftrightarrow>
     r = Some (length (snd entry)) \<and> entry_ok (length (snd entry)) entry \<and>
     (dim = None \<or> dim = Some (length (snd entry)))"
  by (cases entry)
    (auto simp: check_batch_entry_def entry_ok_def nonneg_def not_less split: option.splits)

lemma fold_check_Some:
  "fold_r check_batch_entry (Some d) es = Inr r \<longleftrightarrow> r = Some d \<and> (\<forall>entry\<in>set es. entry_ok d entry)"
proof (induction es)
  case (Cons e es)
  have "entry_ok (length (snd e)) e \<and> d = length (snd e) \<longleftrightarrow> entry_ok d e"
    by (auto simp: entry_ok_def)
  then show ?case using Cons by (auto simp: check_batch_entry_iff)
qed auto

lemma make_reservation_batch_iff:
  "make_reservation_batch es = Inr c \<longleftrightarrow>
     c = sort_key fst es \<and> distinct (map fst es) \<and> (\<exists>d. \<forall>entry\<in>set es. entry_ok d entry)"
proof (cases es)
  case Nil
  then show ?thesis by (auto simp: make_reservation_batch_def)
next
  case (Cons e rest)
  have "(\<exists>r. fold_r check_batch_entry None es = Inr r) \<longleftrightarrow> (\<exists>d. \<forall>entry\<in>set es. entry_ok d entry)"
    by (auto simp: Cons check_batch_entry_iff fold_check_Some entry_ok_def)
  then show ?thesis by (auto simp: make_reservation_batch_def)
qed

lemma validate_batch_iff:
  assumes "state_ok s"
  shows "validate_batch_for_state s batch = Inr u \<longleftrightarrow> valid_batch s batch"
proof -
  have dim: "(\<exists>d. \<forall>entry\<in>set batch. entry_ok d entry) \<and> (\<forall>(b, w)\<in>set batch. length (grant s) = length w) \<longleftrightarrow>
      (\<forall>entry\<in>set batch. entry_ok (dimension s) entry)"
    by (auto simp: entry_ok_def dimension_def)
  have "validate_batch_for_state s batch = Inr u \<longleftrightarrow>
      sort_key fst batch = batch \<and> distinct (map fst batch) \<and>
      (\<exists>d. \<forall>entry\<in>set batch. entry_ok d entry) \<and> fst ` set batch \<subseteq> supported_branches s \<and>
      (\<forall>(b, w)\<in>set batch. length (grant s) = length w)"
    by (simp only: validate_batch_for_state_def bind_r_eq_Inr make_reservation_batch_iff
        if_Inl_eq_Inr each_r_Inr_iff) (auto simp: case_prod_beta)
  then show ?thesis unfolding valid_batch_def sort_key_fixed_iff using dim by blast
qed

section \<open>Batch demand and the residual, without exceptions\<close>

definition bdemand :: "nat \<Rightarrow> batch \<Rightarrow> frontier \<Rightarrow> vector" where
  "bdemand d batch F = vsum d (map snd (filter (\<lambda>(b, _). b \<in> F) batch))"

definition residual_set :: "state \<Rightarrow> batch set" where
  "residual_set s = {batch. \<forall>F\<in>set (frontiers s).
     vle (vadd (load s F) (bdemand (dimension s) batch F)) (grant s)}"

lemma length_bdemand [simp]: "length (bdemand d batch F) = d"
  by (simp add: bdemand_def)

lemma batch_demand_total:
  "\<forall>entry\<in>set batch. length (snd entry) = d \<Longrightarrow>
     batch_configuration_demand batch F d = Inr (bdemand d batch F)"
  unfolding batch_configuration_demand_def bdemand_def by (rule vector_sum_eq) auto

lemma slack_total:
  assumes "state_ok s" and "F \<in> set (frontiers s)"
  shows "configuration_slack s F = Inr (vsub (grant s) (load s F))"
  using assms by (simp add: configuration_slack_def frontier_load_total vec dimension_def)

lemma vle_sub_iff:
  "length u = length g \<Longrightarrow> length l = length g \<Longrightarrow> vle u (vsub g l) \<longleftrightarrow> vle (vadd l u) g"
  by (auto simp: vle_def algebra_simps)

lemma fits_slack_total:
  assumes "state_ok s" and "\<forall>entry\<in>set batch. length (snd entry) = dimension s"
  shows "fits_slack s batch = Inr (batch \<in> residual_set s)"
  unfolding fits_slack_def residual_set_def mem_Collect_eq
  by (rule all_r_total)
    (simp add: batch_demand_total slack_total vec assms vle_sub_iff dimension_def [symmetric])

lemma batch_in_residual_total:
  assumes "state_ok s" and "valid_batch s batch"
  shows "batch_in_residual s batch = Inr (batch \<in> residual_set s)"
proof -
  have "validate_batch_for_state s batch = Inr ()" using assms by (simp add: validate_batch_iff)
  moreover have "\<forall>entry\<in>set batch. length (snd entry) = dimension s"
    using assms(2) by (auto simp: valid_batch_def entry_ok_def)
  ultimately show ?thesis by (simp add: batch_in_residual_def fits_slack_total assms(1))
qed

section \<open>The target of a reservation\<close>

definition additions :: "string \<Rightarrow> nat \<Rightarrow> batch \<Rightarrow> claim list" where
  "additions p k batch =
     map (\<lambda>(index, b, w). \<lparr>claim_id = generated_claim_id p index b, claim_weight = w,
             claim_branch = Some b\<rparr>)
       (filter (\<lambda>(index, b, w). \<exists>x\<in>set w. x \<noteq> 0) (List.enumerate k batch))"

lemma additions_simps [simp]:
  "additions p k [] = []"
  "additions p k ((b, w) # rest) =
     (if \<exists>x\<in>set w. x \<noteq> 0
      then \<lparr>claim_id = generated_claim_id p k b, claim_weight = w, claim_branch = Some b\<rparr> #
           additions p (Suc k) rest
      else additions p (Suc k) rest)"
  by (simp_all add: additions_def)

lemma generated_claim_id_inject [simp]:
  "generated_claim_id p k b = generated_claim_id p l c \<longleftrightarrow> k = l \<and> b = c"
  using append_sep_inject [OF colon_not_in_show_nat colon_not_in_show_nat, of k b l c]
  by (auto simp: generated_claim_id_def)

lemma set_additionsD:
  "c \<in> set (additions p k batch) \<Longrightarrow>
     \<exists>index b w. c = \<lparr>claim_id = generated_claim_id p index b, claim_weight = w, claim_branch = Some b\<rparr> \<and>
       k \<le> index \<and> (b, w) \<in> set batch"
  by (induction batch arbitrary: k) (fastforce split: if_splits)+

lemma distinct_additions: "distinct (map claim_id (additions p k batch))"
proof (induction batch arbitrary: k)
  case (Cons e batch)
  obtain b w where e: "e = (b, w)" by (cases e)
  have "generated_claim_id p k b \<noteq> claim_id c" if "c \<in> set (additions p (Suc k) batch)" for c
    using set_additionsD [OF that] by auto
  then show ?case using Cons by (auto simp: e image_iff)
qed simp

lemma reservation_additions_iff:
  assumes "\<forall>entry\<in>set batch. entry_ok d entry"
  shows "reservation_additions ids p k batch = Inr cs \<longleftrightarrow>
     cs = additions p k batch \<and> claim_id ` set (additions p k batch) \<inter> ids = {}"
  using assms
proof (induction batch arbitrary: k cs)
  case (Cons e batch)
  obtain b w where e: "e = (b, w)" by (cases e)
  have "claim_post_init \<lparr>claim_id = generated_claim_id p k b, claim_weight = w, claim_branch = Some b\<rparr> =
      Inr \<lparr>claim_id = generated_claim_id p k b, claim_weight = w, claim_branch = Some b\<rparr>"
    using Cons.prems e by (simp add: claim_post_init_iff claim_ok_def entry_ok_def generated_claim_id_def)
  then show ?case using Cons by (auto simp: e Let_def)
qed auto

lemma additions_ok:
  assumes "\<forall>entry\<in>set batch. entry_ok d entry" and "c \<in> set (additions p k batch)"
  shows "claim_ok c \<and> length (claim_weight c) = d \<and> claim_branch c \<noteq> None"
  using set_additionsD [OF assms(2)] assms(1)
  by (fastforce simp: claim_ok_def entry_ok_def generated_claim_id_def)

lemma additions_demand:
  assumes "\<forall>entry\<in>set batch. entry_ok d entry"
  shows "vsum d (map claim_weight (filter (owned_in F) (additions p k batch))) = bdemand d batch F"
proof -
  have "(\<Sum>c\<leftarrow>filter (owned_in F) (additions p k batch). claim_weight c ! i) =
      (\<Sum>e\<leftarrow>filter (\<lambda>(b, _). b \<in> F) batch. snd e ! i)" if "i < d" for i
    using assms
  proof (induction batch arbitrary: k)
    case (Cons e batch)
    obtain b w where e: "e = (b, w)" by (cases e)
    have "w ! i = 0" if "\<not> (\<exists>x\<in>set w. x \<noteq> 0)"
      using that Cons.prems \<open>i < d\<close> e by (simp add: entry_ok_def)
    then show ?case using Cons by (auto simp: e owned_in_def)
  qed simp
  then show ?thesis by (intro nth_equalityI) (simp_all add: bdemand_def comp_def)
qed

definition reservation_fresh :: "state \<Rightarrow> batch \<Rightarrow> string \<Rightarrow> bool" where
  "reservation_fresh s batch p \<longleftrightarrow> p \<noteq> [] \<and>
     claim_id ` set (additions p 0 batch) \<inter> claim_id ` set (durable s @ conditional s) = {}"

definition reserved :: "state \<Rightarrow> batch \<Rightarrow> string \<Rightarrow> state" where
  "reserved s batch p = rebuilt s (durable s) (conditional s @ additions p 0 batch) (frontiers s)"

lemma reserved_ok:
  assumes "state_ok s" and "valid_batch s batch" and "reservation_fresh s batch p"
  shows "state_ok (reserved s batch p)"
    and "reservation_target s batch p = Inr (reserved s batch p)"
proof -
  let ?q = "conditional s @ additions p 0 batch"
  have entries: "\<forall>entry\<in>set batch. entry_ok (dimension s) entry"
    using assms(2) by (simp add: valid_batch_def)
  have "distinct (map claim_id (durable s @ ?q))"
    using state_okD(5) [OF assms(1)] distinct_additions [of p 0 batch] assms(3)
    by (auto simp: reservation_fresh_def)
  then have ok: "state_ok (rebuilt s (durable s) ?q (frontiers s))"
    and mk: "make_state (grant s) (durable s) ?q (frontiers s) = Inr (rebuilt s (durable s) ?q (frontiers s))"
    using assms(1) state_okD [OF assms(1)] additions_ok [OF entries, of _ p 0]
    by (intro make_state_rebuilt; force simp: state_ok_def state_inv_def)+
  show "state_ok (reserved s batch p)" using ok by (simp add: reserved_def)
  have "reservation_additions (claim_id ` set (durable s @ conditional s)) p 0 batch =
      Inr (additions p 0 batch)"
    using assms(3) entries by (simp add: reservation_additions_iff reservation_fresh_def)
  then show "reservation_target s batch p = Inr (reserved s batch p)"
    using assms mk by (simp add: reservation_target_def validate_batch_iff [THEN iffD2]
        reservation_fresh_def reserved_def Let_def)
qed

lemma reservation_target_iff:
  assumes "state_ok s"
  shows "reservation_target s batch p = Inr t \<longleftrightarrow>
     valid_batch s batch \<and> reservation_fresh s batch p \<and> t = reserved s batch p"
proof
  assume t: "reservation_target s batch p = Inr t"
  then have valid: "valid_batch s batch" and p: "p \<noteq> []"
    by (auto simp: reservation_target_def validate_batch_iff [OF assms])
  then have "\<forall>entry\<in>set batch. entry_ok (dimension s) entry" by (simp add: valid_batch_def)
  then have "reservation_fresh s batch p"
    using t p by (auto simp: reservation_target_def Let_def reservation_additions_iff reservation_fresh_def)
  then show "valid_batch s batch \<and> reservation_fresh s batch p \<and> t = reserved s batch p"
    using valid reserved_ok(2) [OF assms valid] t by simp
qed (use reserved_ok(2) [OF assms] in blast)

lemma load_reserved:
  assumes "valid_batch s batch"
  shows "load (reserved s batch p) F = vadd (load s F) (bdemand (dimension s) batch F)"
proof -
  have entries: "\<forall>entry\<in>set batch. entry_ok (dimension s) entry"
    using assms by (simp add: valid_batch_def)
  have "qdemand (s\<lparr>conditional := conditional s @ additions p 0 batch\<rparr>) F =
      vadd (qdemand s F) (bdemand (dimension s) batch F)"
    using additions_demand [OF entries] by (simp add: qdemand_def dimension_def vsum_append)
  then have "load (s\<lparr>durable := durable s, conditional := conditional s @ additions p 0 batch\<rparr>) F =
      vadd (load s F) (bdemand (dimension s) batch F)"
    by (auto simp: load_def ddemand_def dimension_def intro!: nth_equalityI)
  then show ?thesis by (simp only: reserved_def load_rebuilt)
qed

lemma residual_iff_target_continuous:
  assumes "state_ok s" and "valid_batch s batch" and "reservation_fresh s batch p"
  shows "authority_continuous (reserved s batch p) = Inr (batch \<in> residual_set s)"
proof -
  have fr: "frontiers (reserved s batch p) = frontiers s" "grant (reserved s batch p) = grant s"
    by (simp_all add: reserved_def)
  show ?thesis
    using authority_continuous_total [OF reserved_ok(1) [OF assms]]
    by (simp add: fr solvent_def load_reserved assms(2) residual_set_def)
qed


text \<open>
  C12. A reservation that is granted leads to a valid and authority-continuous state in which
  every frontier's load grew by exactly the demand of the batch; a validated batch outside the
  residual is rejected.
\<close>

theorem reserve_batch_sound:
  assumes "state_ok s" and "valid_batch s batch" and "reservation_fresh s batch p"
  shows "if batch \<in> residual_set s
     then \<exists>t. reserve_batch s batch p = Inr t \<and> state_ok t \<and>
            authority_continuous t = Inr True \<and> durable t = durable s \<and>
            (\<forall>F\<in>set (frontiers s). \<exists>q. batch_configuration_demand batch F (dimension s) = Inr q \<and>
               frontier_load t F = bind_r (frontier_load s F) (\<lambda>l. vector_add l q))
     else reserve_batch s batch p =
       Inl (ReservationRejected ''batch is outside the residual authorization profile'')"
proof -
  let ?t = "reserved s batch p"
  note ok = reserved_ok [OF assms]
  have "frontier_load ?t F = bind_r (frontier_load s F) (\<lambda>l. vector_add l (bdemand (dimension s) batch F))"
    if "F \<in> set (frontiers s)" for F
    using that frontier_load_total [OF ok(1)] frontier_load_total [OF assms(1) that]
      load_reserved [OF assms(2)]
    by (simp add: reserved_def vec)
  moreover have "batch_configuration_demand batch F (dimension s) = Inr (bdemand (dimension s) batch F)" for F
    using assms(2) by (intro batch_demand_total) (auto simp: valid_batch_def entry_ok_def)
  moreover have "durable ?t = durable s"
    using filter_conditional_sorted(3) [OF assms(1)] by (simp add: reserved_def rebuilt_def)
  ultimately show ?thesis
    using ok residual_iff_target_continuous [OF assms] batch_in_residual_total [OF assms(1,2)]
    by (auto simp: reserve_batch_def)
qed

section \<open>Headroom\<close>

lemma branch_headroom_total:
  assumes "state_ok s"
  shows "b \<notin> supported_branches s \<Longrightarrow> branch_headroom s b = Inr None"
    and "b \<in> supported_branches s \<Longrightarrow> \<exists>h. branch_headroom s b = Inr (Some h) \<and> length h = dimension s \<and>
      (\<forall>u. length u = dimension s \<longrightarrow>
         (vle u h \<longleftrightarrow> (\<forall>F\<in>set (frontiers s). b \<in> F \<longrightarrow> vle (vadd (load s F) u) (grant s))))"
proof -
  let ?C = "filter (\<lambda>F. b \<in> F) (frontiers s)"
  have nil: "?C = [] \<longleftrightarrow> b \<notin> supported_branches s"
    by (auto simp: filter_empty_conv supported_branches_def family_union_def)
  then show "b \<notin> supported_branches s \<Longrightarrow> branch_headroom s b = Inr None"
    by (simp add: branch_headroom_def)
  assume b: "b \<in> supported_branches s"
  let ?sl = "\<lambda>F. vsub (grant s) (load s F)"
  have "map_r (configuration_slack s) ?C = Inr (map ?sl ?C)"
    by (rule map_r_total) (simp add: slack_total assms)
  moreover obtain h where h: "vector_infimum (map ?sl ?C) = Inr h" "length h = dimension s"
    "\<And>u. length u = dimension s \<Longrightarrow> vle u h \<longleftrightarrow> (\<forall>v\<in>set (map ?sl ?C). vle u v)"
    using nil b state_okD(3) [OF assms]
    by (rule_tac vector_infimum_greatest [of "map ?sl ?C" "dimension s"]) (auto simp: dimension_def)
  ultimately have "branch_headroom s b = Inr (Some h)"
    using nil b by (simp add: branch_headroom_def Let_def)
  moreover have "vle u h \<longleftrightarrow> (\<forall>F\<in>set (frontiers s). b \<in> F \<longrightarrow> vle (vadd (load s F) u) (grant s))"
    if "length u = dimension s" for u
    using h(3) [OF that] that by (auto simp: vle_sub_iff dimension_def)
  ultimately show "\<exists>h. branch_headroom s b = Inr (Some h) \<and> length h = dimension s \<and>
      (\<forall>u. length u = dimension s \<longrightarrow>
         (vle u h \<longleftrightarrow> (\<forall>F\<in>set (frontiers s). b \<in> F \<longrightarrow> vle (vadd (load s F) u) (grant s))))"
    using h(2) by blast
qed

lemma bdemand_single:
  "length w = d \<Longrightarrow> bdemand d [(b, w)] F = (if b \<in> F then w else replicate d 0)"
  by (auto simp: bdemand_def intro!: nth_equalityI)

text \<open>
  For a single reservation on an authority-continuous state the per-branch headroom decides
  exactly: the weight is below the componentwise infimum of the slacks of the configurations
  containing the branch if and only if the one-entry batch is in the correlated residual.
\<close>

theorem headroom_decides_single_reservation:
  assumes "state_ok s" and "authority_continuous s = Inr True" and "valid_batch s [(b, w)]"
  shows "reserve_admitted_by_headroom s b w = batch_in_residual s [(b, w)] \<and>
    is_ok (reserve_admitted_by_headroom s b w)"
proof -
  have b: "b \<in> supported_branches s" and w: "length w = dimension s" "nonneg w"
    using assms(3) by (auto simp: valid_batch_def entry_ok_def)
  obtain h where h: "branch_headroom s b = Inr (Some h)" "length h = dimension s"
    "vle w h \<longleftrightarrow> (\<forall>F\<in>set (frontiers s). b \<in> F \<longrightarrow> vle (vadd (load s F) w) (grant s))"
    using branch_headroom_total(2) [OF assms(1) b] w(1) by blast
  have zero: "vadd (load s F) (replicate (dimension s) 0) = load s F" for F
    by (auto intro!: nth_equalityI)
  have "solvent s F" if "F \<in> set (frontiers s)" for F
    using that assms(2) authority_continuous_total [OF assms(1)] by simp
  then have "[(b, w)] \<in> residual_set s \<longleftrightarrow> vle w h"
    using h(3) by (auto simp: residual_set_def bdemand_single w zero solvent_def)
  moreover have "reserve_admitted_by_headroom s b w = Inr (vle w h)"
  proof -
    have "\<not> (\<exists>component\<in>set w. component < 0)" using w(2) by (auto simp: nonneg_def not_less)
    then show ?thesis using w h
      by (simp add: reserve_admitted_by_headroom_def vec same_dimension_def dimension_def)
  qed
  ultimately show ?thesis by (simp add: batch_in_residual_total [OF assms(1,3)])
qed

section \<open>Enumerating a box of batches\<close>

definition box :: "branch list \<Rightarrow> nat \<Rightarrow> int \<Rightarrow> batch set" where
  "box ordered d M = {batch. map fst batch = ordered \<and>
     (\<forall>entry\<in>set batch. length (snd entry) = d \<and> set (snd entry) \<subseteq> {0..M})}"

lemma set_product_replicate:
  "set (product_lists (replicate n xs)) = {ys. length ys = n \<and> set ys \<subseteq> set xs}"
proof -
  have "list_all2 (\<lambda>x ys. x \<in> set ys) ys (replicate n xs) \<longleftrightarrow> length ys = n \<and> set ys \<subseteq> set xs" for ys
    by (auto simp: list_all2_conv_all_nth subset_eq all_set_conv_all_nth)
  then show ?thesis by (simp add: product_lists_set)
qed

lemma chunk_concat:
  assumes "\<forall>w\<in>set ws. length w = d" and "i < length ws"
  shows "take d (drop (i * d) (concat ws)) = ws ! i"
  using assms
proof (induction ws arbitrary: i)
  case (Cons w ws)
  then show ?case by (cases i) auto
qed simp

definition chunked :: "branch list \<Rightarrow> nat \<Rightarrow> vector \<Rightarrow> batch" where
  "chunked ordered d flat =
     map (\<lambda>index. (ordered ! index, take d (drop (index * d) flat))) [0..<length ordered]"

lemma chunk_length:
  assumes "length flat = n * d" and "i < n"
  shows "length (take d (drop (i * d) flat)) = (d::nat)"
proof -
  obtain k where "n = Suc (i + k)" using assms(2) less_imp_Suc_add by blast
  then show ?thesis using assms(1) by (simp add: algebra_simps)
qed

lemma map_fst_chunked [simp]: "map fst (chunked ordered d flat) = ordered"
  by (simp add: chunked_def comp_def map_nth)

lemma chunked_box:
  assumes "length flat = length ordered * d" and "set flat \<subseteq> {0..M}"
  shows "chunked ordered d flat \<in> box ordered d M"
proof -
  have "length (snd entry) = d \<and> set (snd entry) \<subseteq> {0..M}" if "entry \<in> set (chunked ordered d flat)" for entry
  proof -
    from that obtain i where i: "i < length ordered" "snd entry = take d (drop (i * d) flat)"
      by (auto simp: chunked_def)
    have "set (take d (drop (i * d) flat)) \<subseteq> set flat"
      by (meson order_trans set_drop_subset set_take_subset)
    then show ?thesis using i chunk_length [OF assms(1) i(1)] assms(2) by auto
  qed
  then show ?thesis by (simp add: box_def)
qed

lemma box_chunked:
  assumes "batch \<in> box ordered d M"
  shows "chunked ordered d (concat (map snd batch)) = batch"
proof (rule nth_equalityI)
  have fst: "map fst batch = ordered" and len: "\<forall>w\<in>set (map snd batch). length w = d"
    using assms by (auto simp: box_def)
  then have n: "length ordered = length batch" by auto
  then show "length (chunked ordered d (concat (map snd batch))) = length batch"
    by (simp add: chunked_def)
  fix i assume "i < length (chunked ordered d (concat (map snd batch)))"
  then have i: "i < length batch" using n by (simp add: chunked_def)
  then have "take d (drop (i * d) (concat (map snd batch))) = snd (batch ! i)"
    using chunk_concat [OF len, of i] by simp
  moreover have "ordered ! i = fst (batch ! i)" using fst i by (metis nth_map)
  ultimately show "chunked ordered d (concat (map snd batch)) ! i = batch ! i"
    using i n by (simp add: chunked_def)
qed

lemma length_concat_const: "\<forall>w\<in>set ws. length w = d \<Longrightarrow> length (concat ws) = length ws * d"
  by (induction ws) auto

lemma box_entries:
  assumes "batch \<in> box ordered d M" and "0 < d" and "[] \<notin> set ordered"
  shows "\<forall>entry\<in>set batch. entry_ok d entry"
proof
  fix entry assume e: "entry \<in> set batch"
  then have "fst entry \<in> set ordered" using assms(1) by (auto simp: box_def)
  moreover have "length (snd entry) = d" "set (snd entry) \<subseteq> {0..M}" using e assms(1) by (auto simp: box_def)
  ultimately show "entry_ok d entry" using assms(2,3) by (auto simp: entry_ok_def nonneg_def)
qed

lemma make_box:
  assumes "batch \<in> box (sort bs) d M" and "0 < d" and "[] \<notin> set bs" and "distinct bs"
  shows "make_reservation_batch batch = Inr batch"
proof -
  have "map fst batch = sort bs" using assms(1) by (simp add: box_def)
  then have "sort_key fst batch = batch" "distinct (map fst batch)"
    using assms(4) by (simp_all add: sort_key_fixed_iff)
  then show ?thesis
    using box_entries [OF assms(1,2)] assms(3) by (auto simp: make_reservation_batch_iff)
qed

lemma enumerate_total:
  assumes "distinct bs" and "[] \<notin> set bs" and "0 < d" and "0 \<le> M"
  shows "\<exists>batches. enumerate_reservation_batches bs d M = Inr batches \<and> set batches = box (sort bs) d M"
proof -
  let ?n = "length bs" and ?flats = "product_lists (replicate (length bs * d) [0..M])"
  have flats: "set ?flats = {flat. length flat = ?n * d \<and> set flat \<subseteq> {0..M}}"
    by (simp add: set_product_replicate)
  have mk: "make_reservation_batch (chunked (sort bs) d flat) = Inr (chunked (sort bs) d flat)"
    if "flat \<in> set ?flats" for flat
    using that assms flats by (intro make_box [OF chunked_box]) auto
  have "enumerate_reservation_batches bs d M =
      map_r (\<lambda>flat. make_reservation_batch (chunked (sort bs) d flat)) ?flats"
    using assms by (simp add: enumerate_reservation_batches_def Let_def chunked_def)
  then have "enumerate_reservation_batches bs d M = Inr (map (chunked (sort bs) d) ?flats)"
    using map_r_total [of ?flats, OF mk] by simp
  moreover have "chunked (sort bs) d ` set ?flats = box (sort bs) d M"
  proof
    show "chunked (sort bs) d ` set ?flats \<subseteq> box (sort bs) d M"
      using flats chunked_box [of _ "sort bs" d M] by auto
    show "box (sort bs) d M \<subseteq> chunked (sort bs) d ` set ?flats"
    proof
      fix batch assume b: "batch \<in> box (sort bs) d M"
      then have lens: "\<forall>w\<in>set (map snd batch). length w = d" and "length batch = ?n"
        by (auto simp: box_def dest!: arg_cong [of _ _ length])
      then have "concat (map snd batch) \<in> set ?flats"
        using b length_concat_const [OF lens] by (auto simp: flats box_def)
      then show "batch \<in> chunked (sort bs) d ` set ?flats" using box_chunked [OF b] by force
    qed
  qed
  ultimately show ?thesis by (metis list.set_map)
qed

lemma profile_total:
  assumes "state_ok s" and "distinct bs" and "[] \<notin> set bs" and "set bs \<subseteq> supported_branches s"
    and "0 \<le> M"
  shows "\<exists>profile. enumerated_residual_profile s bs M = Inr profile \<and>
     set profile = box (sort bs) (dimension s) M \<inter> residual_set s"
proof -
  have d: "0 < dimension s" using assms(1) by (rule state_okD)
  obtain batches where b: "enumerate_reservation_batches (sort bs) (dimension s) M = Inr batches"
    "set batches = box (sort bs) (dimension s) M"
    using enumerate_total [of "sort bs" "dimension s" M] assms d by auto
  have "valid_batch s batch" if "batch \<in> set batches" for batch
  proof -
    have "map fst batch = sort bs" using that b(2) by (simp add: box_def)
    moreover from this have "fst ` set batch = set bs" by (metis list.set_map set_sort)
    moreover have "\<forall>entry\<in>set batch. entry_ok (dimension s) entry"
      using box_entries [of batch "sort bs" "dimension s" M] that b(2) d assms(3) by simp
    ultimately show ?thesis using assms(2,4) by (simp add: valid_batch_def)
  qed
  then have "filter_r (batch_in_residual s) batches = Inr (filter (\<lambda>batch. batch \<in> residual_set s) batches)"
    by (intro filter_r_total batch_in_residual_total [OF assms(1)])
  then show ?thesis using assms(4) b by (auto simp: enumerated_residual_profile_def Let_def)
qed

section \<open>Adding batches\<close>

text \<open>The weight a batch gives a branch; a batch's demand summed over any set of branches covering it.\<close>

definition weight_of :: "nat \<Rightarrow> batch \<Rightarrow> branch \<Rightarrow> vector" where
  "weight_of d batch b = (case map_of batch b of None \<Rightarrow> replicate d 0 | Some w \<Rightarrow> w)"

lemma bdemand_sum:
  assumes "distinct (map fst batch)" and "fst ` set batch \<subseteq> K" and "finite K" and "i < d"
  shows "bdemand d batch F ! i = (\<Sum>b\<in>K \<inter> F. weight_of d batch b ! i)"
proof -
  let ?sel = "filter (\<lambda>(b, _). b \<in> F) batch"
  have dist: "distinct (map fst ?sel)" using assms(1) by (rule distinct_map_filter)
  have look: "weight_of d batch (fst e) = snd e" if "e \<in> set batch" for e
  proof -
    have "map_of batch (fst e) = Some (snd e)" using that assms(1) by simp
    then show ?thesis by (simp add: weight_of_def)
  qed
  have "bdemand d batch F ! i = (\<Sum>e\<leftarrow>?sel. snd e ! i)"
    using assms(4) by (simp add: bdemand_def comp_def)
  also have "\<dots> = (\<Sum>e\<in>set ?sel. snd e ! i)"
    using dist by (simp add: distinct_map sum_list_distinct_conv_sum_set)
  also have "\<dots> = (\<Sum>e\<in>set ?sel. weight_of d batch (fst e) ! i)"
    by (intro sum.cong) (auto simp: look)
  also have "\<dots> = (\<Sum>b\<in>fst ` set ?sel. weight_of d batch b ! i)"
    using dist by (simp add: distinct_map sum.reindex)
  also have "\<dots> = (\<Sum>b\<in>K \<inter> F. weight_of d batch b ! i)"
  proof (rule sum.mono_neutral_left)
    show "finite (K \<inter> F)" using assms(3) by simp
    show "fst ` set ?sel \<subseteq> K \<inter> F" using assms(2) by auto
    show "\<forall>b\<in>K \<inter> F - fst ` set ?sel. weight_of d batch b ! i = 0"
      using assms(4) by (force simp: weight_of_def map_of_eq_None_iff split: option.splits dest: map_of_SomeD)
  qed
  finally show ?thesis .
qed

lemma fold_add_entry:
  assumes "distinct (map fst r)" and "distinct (map fst ws)"
    and "\<forall>entry\<in>set ws \<union> set r. length (snd entry) = d"
  shows "\<exists>ws'. fold_r add_entry ws r = Inr ws' \<and> distinct (map fst ws') \<and>
    (\<forall>b. map_of ws' b = (case map_of r b of None \<Rightarrow> map_of ws b
       | Some w \<Rightarrow> Some (case map_of ws b of None \<Rightarrow> w | Some v \<Rightarrow> vadd v w)))"
  using assms
proof (induction r arbitrary: ws)
  case (Cons e r)
  obtain b w where e: "e = (b, w)" by (cases e)
  let ?u = "case map_of ws b of None \<Rightarrow> w | Some v \<Rightarrow> vadd v w"
  let ?ws = "AList.update b ?u ws"
  have len: "length v = d" if "map_of ws b = Some v" for v
    using map_of_SomeD [OF that] Cons.prems(3) by force
  have w: "length w = d" using Cons.prems(3) e by auto
  have step: "add_entry ws e = Inr ?ws"
    using len w by (auto simp: add_entry_def e vec split: option.splits)
  have "length ?u = d" using len w by (auto split: option.splits)
  then have lens: "\<forall>entry\<in>set ?ws \<union> set r. length (snd entry) = d"
    using Cons.prems(3) set_alist_update [of _ b ?u ws] by fastforce
  then obtain ws' where ws': "fold_r add_entry ?ws r = Inr ws'" "distinct (map fst ws')"
    "\<forall>x. map_of ws' x = (case map_of r x of None \<Rightarrow> map_of ?ws x
       | Some w \<Rightarrow> Some (case map_of ?ws x of None \<Rightarrow> w | Some v \<Rightarrow> vadd v w))"
    using Cons.IH [of ?ws] Cons.prems(1,2) AList.distinct_update [of ws b ?u] by auto
  have "map_of r b = None" using Cons.prems(1) e by (auto simp: map_of_eq_None_iff)
  then show ?case using ws' step e by (auto simp: AList.update_conv' split: option.splits)
qed simp

lemma weight_of_zero_or_entry:
  assumes "\<forall>entry\<in>set batch. entry_ok d entry"
  shows "length (weight_of d batch b) = d \<and> nonneg (weight_of d batch b)"
  using assms by (auto simp: weight_of_def entry_ok_def nonneg_def split: option.splits dest!: map_of_SomeD)

lemma bdemand_cong:
  assumes "distinct (map fst t)" and "distinct (map fst x)" and "distinct (map fst y)"
    and "fst ` set t \<subseteq> K" and "fst ` set x \<subseteq> K" and "fst ` set y \<subseteq> K" and "finite K"
    and "\<And>b i. i < d \<Longrightarrow> weight_of d t b ! i = weight_of d x b ! i + weight_of d y b ! i"
  shows "bdemand d t F = vadd (bdemand d x F) (bdemand d y F)"
proof (rule nth_equalityI)
  fix i assume "i < length (bdemand d t F)"
  then have i: "i < d" by simp
  then show "bdemand d t F ! i = vadd (bdemand d x F) (bdemand d y F) ! i"
    using bdemand_sum [OF assms(1,4,7) i] bdemand_sum [OF assms(2,5,7) i]
      bdemand_sum [OF assms(3,6,7) i] by (simp add: assms(8) sum.distrib)
qed simp

lemma add_batches_total:
  assumes x: "distinct (map fst x)" "sorted (map fst x)" "\<forall>entry\<in>set x. entry_ok d entry"
    and y: "distinct (map fst y)" "sorted (map fst y)" "\<forall>entry\<in>set y. entry_ok d entry"
    and sub: "fst ` set x \<subseteq> fst ` set y"
  shows "\<exists>t. add_reservation_batches x y = Inr t \<and> map fst t = map fst y \<and>
    (\<forall>b i. i < d \<longrightarrow> weight_of d t b ! i = weight_of d x b ! i + weight_of d y b ! i) \<and>
    (\<forall>entry\<in>set t. entry_ok d entry)"
proof -
  have canon: "make_reservation_batch x = Inr x" "make_reservation_batch y = Inr y"
    using x y by (auto simp: make_reservation_batch_iff sort_key_id_if_sorted)
  have lens: "\<forall>entry\<in>set x \<union> set y. length (snd entry) = d"
    using x(3) y(3) by (auto simp: entry_ok_def)
  obtain ws where ws: "fold_r add_entry x y = Inr ws" "distinct (map fst ws)"
    and look: "\<And>b. map_of ws b = (case map_of y b of None \<Rightarrow> map_of x b
       | Some w \<Rightarrow> Some (case map_of x b of None \<Rightarrow> w | Some v \<Rightarrow> vadd v w))"
    using fold_add_entry [OF y(1) x(1) lens] by blast
  have ok: "entry_ok d (b, w)" if "map_of x b = Some w \<or> map_of y b = Some w" for b w
    using that x(3) y(3) by (auto dest: map_of_SomeD)
  have sum_ok: "entry_ok d (b, vadd v w)" if "entry_ok d (b, v)" "entry_ok d (b, w)" for b v w
    using that by (auto simp: entry_ok_def nonneg_iff_nth vadd_def)
  have entries: "\<forall>entry\<in>set ws. entry_ok d entry"
  proof
    fix e assume "e \<in> set ws"
    then have "map_of ws (fst e) = Some (snd e)" using ws(2) by simp
    then have "entry_ok d (fst e, snd e)"
      using ok [of "fst e"] sum_ok [of "fst e"]
      by (simp only: look split: option.splits) (metis option.inject)+
    then show "entry_ok d e" by simp
  qed
  have "dom (map_of ws) = dom (map_of x) \<union> dom (map_of y)"
    by (auto simp: look dom_def split: option.splits)
  then have keys: "fst ` set ws = fst ` set y" using sub by (simp add: dom_map_of_conv_image_fst) blast
  let ?t = "sort_key fst ws"
  have make: "make_reservation_batch ws = Inr ?t"
    using ws(2) entries by (auto simp: make_reservation_batch_iff)
  have fst: "map fst ?t = map fst y"
    using keys ws(2) y by (intro sorted_distinct_set_unique) simp_all
  have "map_of ?t = map_of ws"
    using ws(2) by (subst map_of_inject_set) simp_all
  then have "weight_of d ?t b ! i = weight_of d x b ! i + weight_of d y b ! i" if "i < d" for b i
    using that ok [of b] by (auto simp: weight_of_def look entry_ok_def split: option.splits)
  then show ?thesis using canon ws(1) make fst entries
    by (intro exI [of _ ?t]) (auto simp: add_reservation_batches_def)
qed

section \<open>The residual derivative\<close>

definition largest_component :: "batch \<Rightarrow> int" where
  "largest_component batch =
     (let components = concat (map snd batch) in
      if components = [] then 0 else Max (set components))"

lemma component_le_largest: "(b, w) \<in> set batch \<Longrightarrow> v \<in> set w \<Longrightarrow> v \<le> largest_component batch"
  by (cases "concat (map snd batch) = []")
    (auto simp: largest_component_def Let_def intro!: Max_ge)

lemma weight_le_largest:
  assumes "i < d" and "\<forall>entry\<in>set batch. entry_ok d entry"
  shows "weight_of d batch b ! i \<le> largest_component batch"
proof (cases "map_of batch b")
  case None
  have "0 \<le> largest_component batch"
  proof (cases batch)
    case (Cons e rest)
    then have "snd e \<noteq> []" "\<forall>v\<in>set (snd e). 0 \<le> v" "(fst e, snd e) \<in> set batch"
      using assms(2) by (auto simp: entry_ok_def nonneg_def)
    then show ?thesis using component_le_largest [of "fst e" "snd e" batch "hd (snd e)"]
      by (meson hd_in_set order_trans)
  qed (simp add: largest_component_def)
  then show ?thesis using None assms(1) by (simp add: weight_of_def)
next
  case (Some w)
  then have "(b, w) \<in> set batch" by (rule map_of_SomeD)
  then show ?thesis using Some assms component_le_largest [of b w batch "w ! i"]
    by (auto simp: weight_of_def entry_ok_def)
qed

lemma candidate_total:
  assumes "valid_batch s x" and "y \<in> box (sort bs) (dimension s) M" and "distinct bs"
    and "[] \<notin> set bs" and "fst ` set x \<subseteq> set bs" and "0 < dimension s"
  shows "\<exists>t. add_reservation_batches x y = Inr t \<and> t \<in> box (sort bs) (dimension s) (M + largest_component x) \<and>
     (\<forall>F. bdemand (dimension s) t F = vadd (bdemand (dimension s) x F) (bdemand (dimension s) y F))"
proof -
  let ?d = "dimension s"
  have y: "map fst y = sort bs" "\<forall>entry\<in>set y. entry_ok ?d entry"
    using assms(2) box_entries [OF assms(2,6)] assms(4) by (auto simp: box_def)
  have x: "distinct (map fst x)" "sorted (map fst x)" "\<forall>entry\<in>set x. entry_ok ?d entry"
    using assms(1) by (auto simp: valid_batch_def)
  have keys: "fst ` set y = set bs" using y(1) by (metis list.set_map set_sort)
  obtain t where t: "add_reservation_batches x y = Inr t" "map fst t = map fst y"
    "\<And>b i. i < ?d \<Longrightarrow> weight_of ?d t b ! i = weight_of ?d x b ! i + weight_of ?d y b ! i"
    "\<forall>entry\<in>set t. entry_ok ?d entry"
    using add_batches_total [OF x, of y] y assms(3,5) keys by auto
  have "bdemand ?d t F = vadd (bdemand ?d x F) (bdemand ?d y F)" for F
    using t(2,3) x(1) y(1) assms(3,5) keys
    by (intro bdemand_cong [where K = "set bs"]) (auto simp flip: set_map)
  moreover have "v \<le> M + largest_component x" if "(b, w) \<in> set t" "v \<in> set w" for b w v
  proof -
    have "length w = ?d" using that(1) t(4) by (auto simp: entry_ok_def)
    then have "\<exists>i<?d. v = w ! i" using that(2) by (auto simp: in_set_conv_nth)
    then obtain i where i: "i < ?d" "v = w ! i" by blast
    have "map_of t b = Some w" using that(1) t(2) y(1) assms(3) by simp
    then have v: "v = weight_of ?d x b ! i + weight_of ?d y b ! i"
      using t(3) [OF i(1), of b] i(2) by (simp add: weight_of_def)
    have "b \<in> fst ` set y" using that(1) t(2) by (metis fst_conv image_eqI list.set_map)
    then obtain u where u: "(b, u) \<in> set y" by auto
    then have "map_of y b = Some u" using y(1) assms(3) by simp
    moreover have "\<forall>entry\<in>set y. length (snd entry) = ?d \<and> set (snd entry) \<subseteq> {0..M}"
      using assms(2) by (simp add: box_def)
    from bspec [OF this u] have "length u = ?d" "set u \<subseteq> {0..M}" by simp_all
    ultimately have "weight_of ?d y b ! i \<le> M"
      using i(1) nth_mem [of i u] by (auto simp: weight_of_def subset_iff)
    then show ?thesis using v weight_le_largest [OF i(1) x(3), of b] by simp
  qed
  then have "t \<in> box (sort bs) ?d (M + largest_component x)"
    using t(2,4) y(1) by (fastforce simp: box_def entry_ok_def nonneg_def)
  ultimately show ?thesis using t(1) by blast
qed

lemma residual_reserved:
  assumes "valid_batch s x"
    and "\<And>F. bdemand (dimension s) t F = vadd (bdemand (dimension s) x F) (bdemand (dimension s) y F)"
  shows "y \<in> residual_set (reserved s x p) \<longleftrightarrow> t \<in> residual_set s"
proof -
  have "frontiers (reserved s x p) = frontiers s" "grant (reserved s x p) = grant s"
    "dimension (reserved s x p) = dimension s"
    by (simp_all add: reserved_def dimension_def)
  moreover have "vadd (vadd (load s F) u) v = vadd (load s F) (vadd u v)"
    if "length u = dimension s" for F u v
    using that by (intro nth_equalityI) auto
  ultimately show ?thesis by (simp add: residual_set_def load_reserved [OF assms(1)] assms(2))
qed

text \<open>
  C24. The residual derivative law: after an accepted batch is reserved, the residual profile
  of the successor state, enumerated up to a bound, is the set of candidates whose sum with the
  accepted batch lies in the parent's residual profile; the operation returns both
  enumerations and they are equal as sets.
\<close>

theorem residual_derivative_law:
  assumes "state_ok s" and "valid_batch s x" and "x \<in> residual_set s"
    and "reservation_fresh s x ''derivative''" and "distinct bs" and "[] \<notin> set bs"
    and "fst ` set x \<subseteq> set bs" and "set bs \<subseteq> supported_branches s" and "0 \<le> M"
  shows "\<exists>succ der bound. bounded_residual_derivative s x bs M = Inr (succ, der, bound) \<and>
     set succ = set der"
proof -
  let ?d = "dimension s" and ?t = "reserved s x ''derivative''"
  let ?B = "M + largest_component x"
  have d: "0 < ?d" using assms(1) by (rule state_okD)
  have t: "state_ok ?t" "reserve_batch s x ''derivative'' = Inr ?t"
    using reserved_ok [OF assms(1,2,4)] assms(3) batch_in_residual_total [OF assms(1,2)]
    by (simp_all add: reserve_batch_def)
  have same: "dimension ?t = ?d" "supported_branches ?t = supported_branches s"
    by (simp_all add: reserved_def dimension_def supported_branches_def)
  have "0 \<le> largest_component x" using weight_le_largest [OF d, of x] assms(2) 
    nonneg_nth [of "weight_of ?d x []" 0] weight_of_zero_or_entry [of x ?d] d
    by (metis valid_batch_def order_trans)
  then have B: "0 \<le> ?B" using assms(9) by simp
  obtain parent where parent: "enumerated_residual_profile s bs ?B = Inr parent"
    "set parent = box (sort bs) ?d ?B \<inter> residual_set s"
    using profile_total [OF assms(1,5,6,8) B] by blast
  obtain succ where succ: "enumerated_residual_profile ?t bs M = Inr succ"
    "set succ = box (sort bs) ?d M \<inter> residual_set ?t"
    using profile_total [OF t(1) assms(5,6) _ assms(9)] assms(8) same by auto
  obtain cands where cands: "enumerate_reservation_batches bs ?d M = Inr cands"
    "set cands = box (sort bs) ?d M"
    using enumerate_total [OF assms(5,6) d assms(9)] by blast
  let ?in = "\<lambda>y. y \<in> residual_set ?t"
  have "bind_r (add_reservation_batches x y) (\<lambda>total. Inr (total \<in> set parent)) = Inr (?in y)"
    if "y \<in> set cands" for y
  proof -
    have "y \<in> box (sort bs) ?d M" using that cands(2) by simp
    then obtain u where u: "add_reservation_batches x y = Inr u" "u \<in> box (sort bs) ?d ?B"
      "\<forall>F. bdemand ?d u F = vadd (bdemand ?d x F) (bdemand ?d y F)"
      using candidate_total [OF assms(2) _ assms(5,6,7) d, of y M] by blast
    then show ?thesis using residual_reserved [OF assms(2), of u y] parent(2) by simp
  qed
  then have filt: "filter_r (\<lambda>y. bind_r (add_reservation_batches x y) (\<lambda>total. Inr (total \<in> set parent))) cands
      = Inr (filter ?in cands)"
    by (rule filter_r_total)
  have "bounded_residual_derivative s x bs M = Inr (succ, filter ?in cands, ?B)"
    using assms(1,2,3,9) parent(1) succ(1) cands(1) filt t(2)
    by (simp add: bounded_residual_derivative_def batch_in_residual_total validate_batch_iff
        largest_component_def Let_def)
  then show ?thesis using succ(2) cands(2) by auto
qed

end
