(* ===== verification/Repair.thy ===== *)
theory Repair
  imports Guards Reservations
begin

text \<open>
  Repairs of promotion in \<open>artifact/authority_continuity.py\<close> (lines 852 to 1104): the frozen
  threshold guard whose models are exactly the authority-safe frontiers, its installation and
  promotion with it, withdrawal of a tentative claim, the conservative promotion that
  conditions on the owner and tombstones the rest, conflict-graph families, and the two
  litmus examples of the source.
\<close>

section \<open>The exact repair guard\<close>

text \<open>The total weight a branch's tentative claims carry, and the term that freezes it.\<close>

definition branch_weight :: "state \<Rightarrow> branch \<Rightarrow> vector result" where
  "branch_weight s b =
     vector_sum (map claim_weight (filter (\<lambda>c. claim_branch c = Some b) (conditional s))) (dimension s)"

fun repair_terms :: "state \<Rightarrow> string \<Rightarrow> branch list \<Rightarrow> guard_term list result" where
  "repair_terms s gid [] = Inr []"
| "repair_terms s gid (b # bs) =
     bind_r (branch_weight s b) (\<lambda>w.
     if \<exists>component\<in>set w. component \<noteq> 0
     then bind_r (guard_term_post_init
                    \<lparr>lineage_id = gid @ '':'' @ b, term_weight = w, descendants = {b}\<rparr>)
            (\<lambda>t. bind_r (repair_terms s gid bs) (\<lambda>ts. Inr (t # ts)))
     else repair_terms s gid bs)"

definition exact_repair_guard :: "state \<Rightarrow> string \<Rightarrow> guard result" where
  "exact_repair_guard s gid =
     bind_r (durable_demand s) (\<lambda>d.
     let res = map (\<lambda>(g, x). g - x) (zip (grant s) d) in
     if \<exists>component\<in>set res. component < 0
     then Inl (NoTopologyRepair ''durable demand exceeds the grant; even the empty frontier is unsafe'')
     else
       let branches = sorted_list_of_set (set (List.map_filter claim_branch (conditional s))) in
       bind_r (repair_terms s gid branches) (\<lambda>ts.
       guard_post_init \<lparr>guard_id = gid, residual = res, terms = sort_key lineage_id ts\<rparr>))"

definition install_exact_repair :: "state \<Rightarrow> contract \<Rightarrow> string \<Rightarrow> contract result" where
  "install_exact_repair s c gid =
     (if set (frontiers s) \<noteq> set (base_frontiers c)
      then Inl (ValueError ''state frontiers and contract base frontiers must agree'')
      else bind_r (exact_repair_guard s gid) (add_guard c))"

definition guarded_authority_continuous :: "state \<Rightarrow> contract \<Rightarrow> bool result" where
  "guarded_authority_continuous s c =
     (if set (frontiers s) \<noteq> set (base_frontiers c)
      then Inl (ValueError ''state frontiers and contract base frontiers must agree'')
      else bind_r (support c) (all_r (\<lambda>frontier.
             bind_r (frontier_load s frontier) (\<lambda>load. vector_leq load (grant s)))))"

definition promote_with_exact_guard ::
    "state \<Rightarrow> contract \<Rightarrow> string list \<Rightarrow> string \<Rightarrow> (state \<times> contract) result" where
  "promote_with_exact_guard s c claim_ids gid =
     bind_r (promote_plain s claim_ids) (\<lambda>target.
     bind_r (install_exact_repair target c gid) (\<lambda>repaired.
     bind_r (guarded_authority_continuous target repaired) (\<lambda>safe.
     if \<not> safe then Inl (AssertionError ''exact repair construction failed its support invariant'')
     else Inr (target, repaired))))"

section \<open>Withdrawal and witnessed promotion\<close>

definition withdraw_tentative :: "state \<Rightarrow> string \<Rightarrow> state result" where
  "withdraw_tentative s cid =
     (let matches = filter (\<lambda>c. claim_id c = cid) (conditional s) in
      if length matches \<noteq> 1 then Inl (ValueError ''claim is not uniquely tentative'')
      else make_state (grant s) (durable s) (filter (\<lambda>c. claim_id c \<noteq> cid) (conditional s))
             (frontiers s))"

record witnessed_promotion =
  promotion_state :: state
  tombstoned_branches :: "branch set"
  terminal_claim_ids :: "string set"

definition conditioned_family :: "family \<Rightarrow> branch \<Rightarrow> family" where
  "conditioned_family fam owner =
     remdups (concat (map (\<lambda>witness. powerset (sorted_list_of_set witness))
       (filter (\<lambda>frontier. owner \<in> frontier) fam)))"

definition witnessed_promote_with_tombstones :: "state \<Rightarrow> string \<Rightarrow> witnessed_promotion result" where
  "witnessed_promote_with_tombstones s cid =
     bind_r (claims_to_promote s [cid]) (\<lambda>claims.
     let selected = hd claims in
     case claim_branch selected of
       None \<Rightarrow> Inl (AssertionError ''selected.branch is not None'')
     | Some owner \<Rightarrow>
       if filter (\<lambda>frontier. owner \<in> frontier) (frontiers s) = []
       then Inl (ValueError ''claim owner is not selectable'')
       else
         let conditioned = conditioned_family (frontiers s) owner;
             tombstoned = family_union (frontiers s) - family_union conditioned;
             terminal_claims = claim_id ` set (filter (owned_in tombstoned) (conditional s)) in
         bind_r (make_state (grant s) (durable s @ [selected])
                   (filter (\<lambda>c. claim_id c \<noteq> cid \<and> \<not> owned_in tombstoned c) (conditional s))
                   conditioned) (\<lambda>target.
         bind_r (authority_continuous target) (\<lambda>safe.
         if \<not> safe then Inl (AssertionError ''witnessed promotion must preserve authority continuity'')
         else Inr \<lparr>promotion_state = target, tombstoned_branches = tombstoned,
                   terminal_claim_ids = terminal_claims\<rparr>)))"

section \<open>Conflict graphs\<close>

definition independent_set_family :: "branch list \<Rightarrow> branch list list \<Rightarrow> family" where
  "independent_set_family branches conflicts =
     (let edge_set = map set conflicts in
      remdups (filter (\<lambda>frontier. \<forall>edge\<in>set edge_set. \<not> edge \<subseteq> frontier) (powerset branches)))"

definition masked_edges :: "branch list list \<Rightarrow> nat \<Rightarrow> branch list list" where
  "masked_edges possible_edges m =
     map (\<lambda>index. possible_edges ! index) (filter (bit m) [0..<length possible_edges])"

definition is_conflict_graph_representable :: "family \<Rightarrow> branch list \<Rightarrow> bool" where
  "is_conflict_graph_representable fam branches =
     (let ordered = sort branches;
          possible_edges = combinations ordered 2 in
      \<exists>m\<in>set [0..<2 ^ length possible_edges].
        set (independent_set_family ordered (masked_edges possible_edges m)) = set fam)"

section \<open>The two litmus examples\<close>

definition mk_claim :: "string \<Rightarrow> vector \<Rightarrow> branch \<Rightarrow> claim result" where
  "mk_claim cid w b = claim_post_init \<lparr>claim_id = cid, claim_weight = w, claim_branch = Some b\<rparr>"

text \<open>
  One side of the litmus: safety and need before the reservation and after it. The other
  entries of the report are string constants.
\<close>

record litmus_side =
  pre_safe :: bool
  pre_need :: vector
  pre_conditional :: "string list"
  successor_safe :: bool
  successor_need :: vector
  decision :: string

definition litmus_observe :: "state \<Rightarrow> state \<Rightarrow> string list \<Rightarrow> string \<Rightarrow> litmus_side result" where
  "litmus_observe pre post ids dec =
     bind_r (authority_continuous pre) (\<lambda>safe. bind_r (need pre) (\<lambda>n.
     bind_r (authority_continuous post) (\<lambda>safe'. bind_r (need post) (\<lambda>n'.
     Inr \<lparr>pre_safe = safe, pre_need = n, pre_conditional = ids,
          successor_safe = safe', successor_need = n', decision = dec\<rparr>))))"

definition snapshot_local_impossibility_litmus :: "(litmus_side \<times> litmus_side) result" where
  "snapshot_local_impossibility_litmus =
     bind_r (make_state [1] [] [] [{}, {''restored''}]) (\<lambda>replace_pre.
     bind_r (mk_claim ''old'' [1] ''old'') (\<lambda>old.
     bind_r (make_state [1] [] [old] (downward_closure [[''old'', ''restored'']])) (\<lambda>live_pre.
     bind_r (make_reservation_batch [(''restored'', [1])]) (\<lambda>proposal.
     bind_r (reservation_target replace_pre proposal ''same-fresh-reserve'') (\<lambda>replace_successor.
     bind_r (reservation_target live_pre proposal ''same-fresh-reserve'') (\<lambda>live_successor.
     bind_r (litmus_observe replace_pre replace_successor [] ''accept-for-maximal-permissiveness'') (\<lambda>replace.
     bind_r (litmus_observe live_pre live_successor [''old''] ''reject-for-soundness'') (\<lambda>live.
     Inr (replace, live)))))))))"

definition plain_escape_counterexample :: "(state \<times> state \<times> frontier) result" where
  "plain_escape_counterexample =
     (let fam = downward_closure [[''left''], [''right'']] in
      bind_r (mk_claim ''left-use'' [1] ''left'') (\<lambda>left_use.
      bind_r (mk_claim ''right-use'' [1] ''right'') (\<lambda>right_use.
      bind_r (make_state [1] [] [left_use, right_use] fam) (\<lambda>source.
      bind_r (promote_plain source [''left-use'']) (\<lambda>target.
      Inr (source, target, {''right''}))))))"

section \<open>The exact guard charges what the state loads\<close>

definition owners :: "state \<Rightarrow> branch set" where
  "owners s = {b. \<exists>c\<in>set (conditional s). claim_branch c = Some b}"

definition bweight :: "state \<Rightarrow> branch \<Rightarrow> vector" where
  "bweight s b =
     vsum (dimension s) (map claim_weight (filter (\<lambda>c. claim_branch c = Some b) (conditional s)))"

definition frozen_term :: "state \<Rightarrow> string \<Rightarrow> branch \<Rightarrow> guard_term" where
  "frozen_term s gid b =
     \<lparr>lineage_id = gid @ '':'' @ b, term_weight = bweight s b, descendants = {b}\<rparr>"

definition exact_guard :: "state \<Rightarrow> string \<Rightarrow> guard" where
  "exact_guard s gid =
     \<lparr>guard_id = gid, residual = vsub (grant s) (ddemand s),
      terms = sort_key lineage_id (map (frozen_term s gid)
        (filter (\<lambda>b. \<exists>x\<in>set (bweight s b). x \<noteq> 0) (sorted_list_of_set (owners s))))\<rparr>"

lemma finite_owners [simp]: "finite (owners s)"
proof -
  have "owners s \<subseteq> the ` claim_branch ` set (conditional s)"
    by (force simp: owners_def image_iff)
  then show ?thesis by (rule finite_subset) simp
qed

lemma length_bweight [simp]: "length (bweight s b) = dimension s"
  by (simp add: bweight_def)

lemma branch_weight_total: "state_ok s \<Longrightarrow> branch_weight s b = Inr (bweight s b)"
  using state_ok_weights [of s] by (auto simp: branch_weight_def bweight_def vec)

lemma nonneg_bweight: "state_ok s \<Longrightarrow> nonneg (bweight s b)"
  unfolding bweight_def using state_ok_weights [of s] by (intro nonneg_vsum) auto

lemma frozen_term_ok: "state_ok s \<Longrightarrow> term_ok (frozen_term s gid b)"
  using state_okD(3) [of s] nonneg_bweight [of s b] length_bweight [of s b]
  by (auto simp: term_ok_def frozen_term_def simp del: length_bweight)

lemma repair_terms_total:
  assumes "state_ok s"
  shows "repair_terms s gid bs =
     Inr (map (frozen_term s gid) (filter (\<lambda>b. \<exists>x\<in>set (bweight s b). x \<noteq> 0) bs))"
proof (induction bs)
  case (Cons b bs)
  have "guard_term_post_init (frozen_term s gid b) = Inr (frozen_term s gid b)"
    using frozen_term_ok [OF assms] by (simp add: guard_term_post_init_iff)
  then show ?case using Cons by (simp add: branch_weight_total assms frozen_term_def)
qed simp

lemma sum_by_owner:
  assumes "finite B" and "\<forall>c\<in>set cs. \<exists>b. claim_branch c = Some b \<and> (b \<in> F \<longrightarrow> b \<in> B)"
  shows "(\<Sum>b\<in>B \<inter> F. \<Sum>c\<leftarrow>filter (\<lambda>c. claim_branch c = Some b) cs. f c) =
     (\<Sum>c\<leftarrow>filter (owned_in F) cs. (f c :: int))"
  using assms(2)
proof (induction cs)
  case (Cons c cs)
  then obtain b where b: "claim_branch c = Some b" "b \<in> F \<longrightarrow> b \<in> B" by auto
  have "(\<Sum>x\<in>B \<inter> F. \<Sum>c\<leftarrow>filter (\<lambda>c. claim_branch c = Some x) (c # cs). f c) =
      (\<Sum>x\<in>B \<inter> F. (if x = b then f c else 0) + (\<Sum>c\<leftarrow>filter (\<lambda>c. claim_branch c = Some x) cs. f c))"
    using b(1) by (intro sum.cong) auto
  also have "\<dots> = (if b \<in> F then f c else 0) + (\<Sum>c\<leftarrow>filter (owned_in F) cs. f c)"
    using Cons b(2) assms(1) by (auto simp: sum.distrib)
  finally show ?case using b(1) by simp
qed simp

lemma bweight_zero:
  assumes "\<not> (\<exists>x\<in>set (bweight s b). x \<noteq> 0)" and "i < dimension s"
  shows "bweight s b ! i = 0"
  using assms nth_mem [of i "bweight s b"] by simp

lemma gcharge_exact_guard:
  assumes "state_ok s"
  shows "gcharge (exact_guard s gid) F = qdemand s F"
proof (rule nth_equalityI)
  let ?heavy = "\<lambda>b. \<exists>x\<in>set (bweight s b). x \<noteq> 0"
  let ?bs = "sorted_list_of_set (owners s)"
  let ?ts = "map (frozen_term s gid) (filter ?heavy ?bs)"
  have res: "length (residual (exact_guard s gid)) = dimension s"
    by (simp add: exact_guard_def dimension_def)
  then show "length (gcharge (exact_guard s gid) F) = length (qdemand s F)"
    by (simp add: gcharge_def)
  fix i assume "i < length (gcharge (exact_guard s gid) F)"
  then have i: "i < dimension s" using res by (simp add: gcharge_def)
  have "mset (filter (\<lambda>t. descendants t \<inter> F \<noteq> {}) (sort_key lineage_id ?ts)) =
      mset (filter (\<lambda>t. descendants t \<inter> F \<noteq> {}) ?ts)"
    by (simp only: mset_filter mset_sort)
  then have "gcharge (exact_guard s gid) F ! i =
      (\<Sum>t\<leftarrow>filter (\<lambda>t. descendants t \<inter> F \<noteq> {}) ?ts. term_weight t ! i)"
    using i res sum_list_mset_cong by (fastforce simp: gcharge_def exact_guard_def comp_def)
  also have "\<dots> = (\<Sum>b\<leftarrow>filter (\<lambda>b. ?heavy b \<and> b \<in> F) ?bs. bweight s b ! i)"
    by (simp add: filter_map comp_def frozen_term_def conj_commute)
  also have "\<dots> = (\<Sum>b\<in>{b \<in> owners s. ?heavy b \<and> b \<in> F}. bweight s b ! i)"
    by (simp add: sum_list_distinct_conv_sum_set)
  also have "\<dots> = (\<Sum>b\<in>owners s \<inter> F. bweight s b ! i)"
    using bweight_zero [OF _ i] by (intro sum.mono_neutral_left) auto
  also have "\<dots> = (\<Sum>b\<in>owners s \<inter> F. \<Sum>c\<leftarrow>filter (\<lambda>c. claim_branch c = Some b) (conditional s). claim_weight c ! i)"
    using i by (simp add: bweight_def comp_def)
  also have "\<dots> = (\<Sum>c\<leftarrow>filter (owned_in F) (conditional s). claim_weight c ! i)"
    by (intro sum_by_owner finite_owners ballI) (use state_okD(8) [OF assms] in \<open>force simp: owners_def\<close>)
  finally show "gcharge (exact_guard s gid) F ! i = qdemand s F ! i"
    using i by (simp add: qdemand_def comp_def)
qed

lemma gallows_exact_guard:
  assumes "state_ok s"
  shows "gallows (exact_guard s gid) F \<longleftrightarrow> solvent s F"
proof -
  have "residual (exact_guard s gid) = vsub (grant s) (ddemand s)" by (simp add: exact_guard_def)
  then show ?thesis using vle_sub_iff [of "qdemand s F" "grant s" "ddemand s"]
    by (simp add: gallows_def gcharge_exact_guard [OF assms] solvent_def load_def dimension_def)
qed

lemma exact_guard_ok:
  assumes "state_ok s" and "gid \<noteq> []" and "vle (ddemand s) (grant s)"
  shows "guard_ok (exact_guard s gid)"
proof -
  have "inj_on (\<lambda>b. gid @ '':'' @ b) A" for A by (auto simp: inj_on_def)
  then have "distinct (map lineage_id (map (frozen_term s gid)
      (filter (\<lambda>b. \<exists>x\<in>set (bweight s b). x \<noteq> 0) (sorted_list_of_set (owners s)))))"
    by (simp add: comp_def frozen_term_def distinct_map)
  moreover have "nonneg (vsub (grant s) (ddemand s))" "vsub (grant s) (ddemand s) \<noteq> []"
    using assms(3) state_okD(3) [OF assms(1)]
    by (auto simp: nonneg_iff_nth vle_def dimension_def simp flip: length_greater_0_conv)
  ultimately show ?thesis
    using assms(2) frozen_term_ok [OF assms(1)]
    by (auto simp: guard_ok_def guard_inv_def exact_guard_def frozen_term_def dimension_def)
qed

lemma exact_repair_guard_eq:
  assumes "state_ok s" and "gid \<noteq> []"
  shows "exact_repair_guard s gid =
    (if vle (ddemand s) (grant s) then Inr (exact_guard s gid)
     else Inl (NoTopologyRepair ''durable demand exceeds the grant; even the empty frontier is unsafe''))"
proof -
  have res: "map (\<lambda>(g, x). g - x) (zip (grant s) (ddemand s)) = vsub (grant s) (ddemand s)"
    by (auto simp: dimension_def intro!: nth_equalityI)
  have neg: "(\<exists>x\<in>set (vsub (grant s) (ddemand s)). x < 0) \<longleftrightarrow> \<not> vle (ddemand s) (grant s)"
    unfolding Bex_def in_set_conv_nth by (force simp: vle_def dimension_def not_le)
  have own: "set (List.map_filter claim_branch (conditional s)) = owners s"
    by (simp add: set_owners owners_def)
  have "guard_post_init (exact_guard s gid) = Inr (exact_guard s gid)" if "vle (ddemand s) (grant s)"
    using exact_guard_ok [OF assms that] by (simp add: guard_post_init_iff guard_ok_def)
  then show ?thesis
    unfolding exact_repair_guard_def durable_demand_total [OF assms(1)] Let_def bind_r_simps res neg own
      repair_terms_total [OF assms(1)]
    by (simp add: exact_guard_def)
qed

section \<open>Promotion with the exact guard\<close>

lemma install_exact_repair_eq:
  assumes "state_ok p" and "contract_ok c" and "set (frontiers p) = set (base_frontiers c)"
    and "gid \<noteq> []" and "gid \<notin> guard_id ` set (guards c)" and "vle (ddemand p) (grant p)"
  shows "install_exact_repair p c gid = Inr (c\<lparr>guards := guards c @ [exact_guard p gid]\<rparr>)"
    and "contract_ok (c\<lparr>guards := guards c @ [exact_guard p gid]\<rparr>)"
    and "callows (c\<lparr>guards := guards c @ [exact_guard p gid]\<rparr>) F \<longleftrightarrow> callows c F \<and> solvent p F"
proof -
  have gid: "guard_id (exact_guard p gid) = gid" by (simp add: exact_guard_def)
  note add = contract_ok_add_guard [OF assms(2) exact_guard_ok [OF assms(1,4,6)]]
  show "install_exact_repair p c gid = Inr (c\<lparr>guards := guards c @ [exact_guard p gid]\<rparr>)"
    using add(1) assms gid by (simp add: install_exact_repair_def exact_repair_guard_eq)
  show "contract_ok (c\<lparr>guards := guards c @ [exact_guard p gid]\<rparr>)"
    using add(2) assms(5) gid by simp
  show "callows (c\<lparr>guards := guards c @ [exact_guard p gid]\<rparr>) F \<longleftrightarrow> callows c F \<and> solvent p F"
    using gallows_exact_guard [OF assms(1)] by (auto simp: callows_def)
qed

lemma guarded_authority_continuous_total:
  assumes "state_ok p" and "contract_ok c" and "set (frontiers p) = set (base_frontiers c)"
  shows "guarded_authority_continuous p c = Inr (\<forall>F. callows c F \<longrightarrow> solvent p F)"
proof -
  have "all_r (\<lambda>F. bind_r (frontier_load p F) (\<lambda>load. vector_leq load (grant p))) (csupport c) =
      Inr (\<forall>F\<in>set (csupport c). solvent p F)"
    unfolding solvent_def using assms
    by (intro all_r_total load_leq_total) (auto simp: callows_def dimension_def)
  then show ?thesis by (simp add: guarded_authority_continuous_def assms support_total)
qed

lemma promote_with_exact_guard_eq:
  assumes "state_ok s" and "contract_ok c" and "set (frontiers s) = set (base_frontiers c)"
    and "gid \<noteq> []" and "gid \<notin> guard_id ` set (guards c)" and "promote_plain s ids = Inr p"
  shows "promote_with_exact_guard s c ids gid =
    (if vle (ddemand p) (grant p) then Inr (p, c\<lparr>guards := guards c @ [exact_guard p gid]\<rparr>)
     else Inl (NoTopologyRepair ''durable demand exceeds the grant; even the empty frontier is unsafe''))"
proof -
  note p = promote_plain_InrD [OF assms(1,6)]
  have fr: "set (frontiers p) = set (base_frontiers c)" using assms(3) p(3) by simp
  show ?thesis
  proof (cases "vle (ddemand p) (grant p)")
    case True
    note inst = install_exact_repair_eq [OF p(2) assms(2) fr assms(4,5) True]
    have "guarded_authority_continuous p (c\<lparr>guards := guards c @ [exact_guard p gid]\<rparr>) = Inr True"
      using guarded_authority_continuous_total [OF p(2) inst(2)] fr inst(3) by simp
    then show ?thesis using assms(6) inst(1) True by (simp add: promote_with_exact_guard_def)
  next
    case False
    then show ?thesis using assms(6) p fr assms(4)
      by (simp add: promote_with_exact_guard_def install_exact_repair_def exact_repair_guard_eq)
  qed
qed

text \<open>
  C25. Promotion with the exact repair guard, on a contract over the state's own frontiers and
  under a fresh guard identifier: when the durable demand after promotion is within the grant
  it returns the plainly promoted state and a valid contract whose support is exactly the old
  support restricted to the frontiers that are solvent after promotion, and its internal
  assertion cannot fail; otherwise it raises \<open>NoTopologyRepair\<close>.
\<close>

theorem promote_with_exact_guard_exact:
  assumes "state_ok s" and "contract_ok c" and "set (frontiers s) = set (base_frontiers c)"
    and "gid \<noteq> []" and "gid \<notin> guard_id ` set (guards c)" and "promote_plain s ids = Inr p"
  shows "if vle (ddemand p) (grant s)
    then \<exists>c' fam fam'. promote_with_exact_guard s c ids gid = Inr (p, c') \<and> contract_ok c' \<and>
           support c = Inr fam \<and> support c' = Inr fam' \<and>
           set fam' = {F \<in> set fam. vle (load p F) (grant s)} \<and>
           guarded_authority_continuous p c' = Inr True
    else promote_with_exact_guard s c ids gid = Inl (NoTopologyRepair
           ''durable demand exceeds the grant; even the empty frontier is unsafe'')"
proof (cases "vle (ddemand p) (grant p)")
  case True
  note p = promote_plain_InrD [OF assms(1,6)]
  have fr: "set (frontiers p) = set (base_frontiers c)" using assms(3) p(3) by simp
  let ?c = "c\<lparr>guards := guards c @ [exact_guard p gid]\<rparr>"
  note inst = install_exact_repair_eq [OF p(2) assms(2) fr assms(4,5) True]
  have "guarded_authority_continuous p ?c = Inr True"
    using guarded_authority_continuous_total [OF p(2) inst(2)] fr inst(3) by simp
  moreover have "set (csupport ?c) = {F \<in> set (csupport c). vle (load p F) (grant s)}"
    using inst(3) p(4) by (auto simp: solvent_def)
  ultimately show ?thesis
    using promote_with_exact_guard_eq [OF assms] True p(4) inst(2) support_total [OF assms(2)]
      support_total [OF inst(2)] by auto
next
  case False
  then show ?thesis
    using promote_with_exact_guard_eq [OF assms] promote_plain_InrD(4) [OF assms(1,6)] by simp
qed

section \<open>Witnessed promotion\<close>

lemma set_conditioned_family:
  assumes "family_ok fam"
  shows "F \<in> set (conditioned_family fam owner) \<longleftrightarrow> (\<exists>W\<in>set fam. owner \<in> W \<and> F \<subseteq> W)"
  using assms by (auto simp: conditioned_family_def family_ok_def)

lemma conditioned_family_closed:
  assumes "family_ok fam" and "owner \<in> family_union fam"
  shows "family_ok (conditioned_family fam owner)" "is_downward_closed (conditioned_family fam owner)"
    "set (conditioned_family fam owner) \<subseteq> (\<Union>W\<in>set fam. Pow W)"
proof -
  show ok: "family_ok (conditioned_family fam owner)"
    using assms(1) unfolding family_ok_def
    by (auto simp: set_conditioned_family [OF assms(1)] conditioned_family_def intro: finite_subset)
  obtain W where "W \<in> set fam" "owner \<in> W" using assms(2) by (auto simp: family_union_def)
  then have "W \<in> set (conditioned_family fam owner)" using set_conditioned_family [OF assms(1)] by blast
  then have "conditioned_family fam owner \<noteq> []" by auto
  then show "is_downward_closed (conditioned_family fam owner)"
    unfolding is_downward_closed_iff [OF ok] by (meson order_trans set_conditioned_family [OF assms(1)])
  show "set (conditioned_family fam owner) \<subseteq> (\<Union>W\<in>set fam. Pow W)"
    using set_conditioned_family [OF assms(1)] by blast
qed

definition witnessed_target :: "state \<Rightarrow> claim \<Rightarrow> branch \<Rightarrow> branch set \<Rightarrow> state" where
  "witnessed_target s c owner tombstoned =
     rebuilt s (durable s @ [c])
       (filter (\<lambda>d. claim_id d \<noteq> claim_id c \<and> \<not> owned_in tombstoned d) (conditional s))
       (conditioned_family (frontiers s) owner)"

lemma witnessed_target_ok:
  assumes "state_ok s" and "c \<in> set (conditional s)" and "owner \<in> supported_branches s"
  shows "make_state (grant s) (durable s @ [c])
       (filter (\<lambda>d. claim_id d \<noteq> claim_id c \<and> \<not> owned_in tomb d) (conditional s))
       (conditioned_family (frontiers s) owner) = Inr (witnessed_target s c owner tomb)"
    and "state_ok (witnessed_target s c owner tomb)"
proof -
  let ?q = "filter (\<lambda>d. claim_id d \<noteq> claim_id c \<and> \<not> owned_in tomb d) (conditional s)"
  have "distinct (map claim_id (durable s @ conditional s))" using assms(1) by (rule state_okD)
  then have "distinct (map claim_id ((durable s @ [c]) @ ?q))"
    using assms(2) by (auto simp: distinct_map_filter)
  moreover have "owner \<in> family_union (frontiers s)" using assms(3) by (simp add: supported_branches_def)
  note fam = conditioned_family_closed(1,2) [OF state_okD(1) [OF assms(1)] this]
  ultimately show "make_state (grant s) (durable s @ [c]) ?q (conditioned_family (frontiers s) owner) =
      Inr (witnessed_target s c owner tomb)"
    "state_ok (witnessed_target s c owner tomb)"
    unfolding witnessed_target_def using assms state_okD [OF assms(1)]
    by (intro make_state_rebuilt; auto simp: state_ok_def state_inv_def)+
qed

lemma load_witnessed_target:
  assumes "state_ok s" and "c \<in> set (conditional s)" and "claim_branch c = Some owner"
    and "owner \<in> W" and "F \<subseteq> W"
  shows "vle (load (witnessed_target s c owner tomb) F) (load s W)"
proof -
  let ?t = "witnessed_target s c owner tomb"
  have dim: "dimension ?t = dimension s" by (simp add: witnessed_target_def rebuilt_def dimension_def)
  have "load ?t F ! i \<le> load s W ! i" if i: "i < dimension s" for i
  proof -
    let ?w = "\<lambda>d. claim_weight d ! i"
    have split: "(\<Sum>d\<leftarrow>filter (owned_in W) (conditional s). ?w d) =
        ?w c + (\<Sum>d\<leftarrow>filter (\<lambda>d. owned_in W d \<and> claim_id d \<noteq> claim_id c) (conditional s). ?w d)"
    proof -
      have "mset (filter (owned_in W) (conditional s)) =
          mset (filter (\<lambda>d. claim_id d = claim_id c) (filter (owned_in W) (conditional s))) +
          mset (filter (\<lambda>d. claim_id d \<noteq> claim_id c) (filter (owned_in W) (conditional s)))"
        by (simp only: mset_filter flip: multiset_partition)
      moreover have "filter (\<lambda>d. claim_id d = claim_id c) (filter (owned_in W) (conditional s)) = [c]"
        using filter_unique_key [of claim_id "filter (owned_in W) (conditional s)" c] assms
          state_okD(7) [OF assms(1)] by (simp add: distinct_map_filter)
      ultimately have "mset (filter (owned_in W) (conditional s)) = mset [c] +
          mset (filter (\<lambda>d. claim_id d \<noteq> claim_id c) (filter (owned_in W) (conditional s)))"
        by argo
      then have "mset (filter (owned_in W) (conditional s)) =
          mset (c # filter (\<lambda>d. owned_in W d \<and> claim_id d \<noteq> claim_id c) (conditional s))"
        by simp
      from sum_list_mset_cong [OF this, of ?w] show ?thesis by simp
    qed
    have "(\<Sum>d\<leftarrow>filter (\<lambda>d. owned_in F d \<and> claim_id d \<noteq> claim_id c \<and> \<not> owned_in tomb d) (conditional s). ?w d)
        \<le> (\<Sum>d\<leftarrow>filter (\<lambda>d. owned_in W d \<and> claim_id d \<noteq> claim_id c) (conditional s). ?w d)"
      using i assms(5) state_ok_weights [OF assms(1)]
      by (intro sum_list_filter_mono) (auto intro: owned_in_mono nonneg_nth)
    then show ?thesis
      using i split unfolding witnessed_target_def
      by (subst load_rebuilt) (auto simp: load_def ddemand_def qdemand_def dimension_def conj_commute comp_def)
  qed
  then show ?thesis using dim by (simp add: vle_def)
qed

text \<open>
  C26. The conservative promotion shortcut on an authority-continuous state: for a tentative
  claim whose owner is selectable the operation succeeds and its assertions cannot fail. The
  target is valid and authority continuous, the claim is durable, the frontiers are those
  below a frontier that selects the owner, and the claims of tombstoned branches are exactly
  the ones that became terminal.
\<close>

theorem witnessed_promotion_safe:
  assumes "state_ok s" and "authority_continuous s = Inr True" and "c \<in> set (conditional s)"
    and "claim_branch c = Some owner" and "owner \<in> supported_branches s"
  shows "\<exists>r. witnessed_promote_with_tombstones s (claim_id c) = Inr r \<and>
    state_ok (promotion_state r) \<and> authority_continuous (promotion_state r) = Inr True \<and>
    set (durable (promotion_state r)) = insert c (set (durable s)) \<and>
    set (frontiers (promotion_state r)) = {F. \<exists>W\<in>set (frontiers s). owner \<in> W \<and> F \<subseteq> W} \<and>
    tombstoned_branches r = {b \<in> supported_branches s. \<forall>W\<in>set (frontiers s). b \<in> W \<longrightarrow> owner \<notin> W} \<and>
    terminal_claim_ids r = {claim_id d |d. d \<in> set (conditional s) \<and> owned_in (tombstoned_branches r) d}"
proof -
  let ?cond = "conditioned_family (frontiers s) owner"
  let ?tomb = "family_union (frontiers s) - family_union ?cond"
  let ?t = "witnessed_target s c owner ?tomb"
  note fam = set_conditioned_family [OF state_okD(1) [OF assms(1)]]
  note make = witnessed_target_ok [OF assms(1,3,5)]
  have sel: "claims_to_promote s [claim_id c] = Inr [c]"
    using filter_unique_key [OF state_okD(7) [OF assms(1)] assms(3)] by (simp add: claims_to_promote_def)
  have wit: "filter (\<lambda>F. owner \<in> F) (frontiers s) \<noteq> []"
    using assms(5) by (auto simp: supported_branches_def family_union_def filter_empty_conv)
  have tomb: "?tomb = {b \<in> supported_branches s. \<forall>W\<in>set (frontiers s). b \<in> W \<longrightarrow> owner \<notin> W}"
    unfolding supported_branches_def family_union_def using fam by (auto simp: subset_iff)
  have fr: "frontiers ?t = ?cond" "grant ?t = grant s" by (simp_all add: witnessed_target_def)
  have "solvent ?t F" if "F \<in> set (frontiers ?t)" for F
  proof -
    from that fr(1) fam obtain W where W: "W \<in> set (frontiers s)" "owner \<in> W" "F \<subseteq> W" by auto
    then have "solvent s W" using assms(2) authority_continuous_total [OF assms(1)] by simp
    then show ?thesis
      using load_witnessed_target [OF assms(1,3,4) W(2,3)] fr(2) by (auto simp: solvent_def intro: vle_trans)
  qed
  then have safe: "authority_continuous ?t = Inr True"
    using authority_continuous_total [OF make(2)] by simp
  have "witnessed_promote_with_tombstones s (claim_id c) = Inr \<lparr>promotion_state = ?t,
      tombstoned_branches = ?tomb, terminal_claim_ids = claim_id ` set (filter (owned_in ?tomb) (conditional s))\<rparr>"
    using sel wit make(1) safe assms(4)
    by (simp add: witnessed_promote_with_tombstones_def Let_def)
  moreover have "set (durable ?t) = insert c (set (durable s))"
    by (simp add: witnessed_target_def rebuilt_def)
  moreover have "set (frontiers ?t) = {F. \<exists>W\<in>set (frontiers s). owner \<in> W \<and> F \<subseteq> W}"
    unfolding fr(1) using fam by blast
  ultimately show ?thesis using make(2) safe tomb by (auto simp: image_iff)
qed

text \<open>
  Withdrawing a tentative claim succeeds, keeps validity, removes exactly that claim, and
  never increases the load of a frontier, so it preserves authority continuity.
\<close>

theorem withdraw_preserves_continuity:
  assumes "state_ok s" and "c \<in> set (conditional s)"
  shows "\<exists>t. withdraw_tentative s (claim_id c) = Inr t \<and> state_ok t \<and>
    set (conditional t) = set (conditional s) - {c} \<and> durable t = durable s \<and>
    frontiers t = frontiers s \<and>
    (authority_continuous s = Inr True \<longrightarrow> authority_continuous t = Inr True)"
proof -
  let ?q = "filter (\<lambda>d. claim_id d \<noteq> claim_id c) (conditional s)"
  let ?t = "s\<lparr>conditional := ?q\<rparr>"
  note t = keep_conditional [OF assms(1), of "\<lambda>d. claim_id d \<noteq> claim_id c"]
  have run: "withdraw_tentative s (claim_id c) = Inr ?t"
    using filter_unique_key [OF state_okD(7) [OF assms(1)] assms(2)] t(1) by (simp add: withdraw_tentative_def)
  have "set ?q = set (conditional s) - {c}"
    using conditional_id_unique [OF assms(1)] assms(2) by auto
  moreover have "solvent s F \<Longrightarrow> solvent ?t F" for F
    using t(3) [of F] by (auto simp: solvent_def intro: vle_trans)
  ultimately show ?thesis
    using run t(2) authority_continuous_total [OF assms(1)] authority_continuous_total [OF t(2)]
    by (intro exI [of _ ?t]) auto
qed

section \<open>Families of conflict graphs\<close>

lemma set_independent_set_family:
  "set (independent_set_family bs es) = {F. F \<subseteq> set bs \<and> (\<forall>e\<in>set es. \<not> set e \<subseteq> F)}"
  by (auto simp: independent_set_family_def Let_def)

lemma masked_edges_range:
  "(\<exists>m\<in>set [0..<2 ^ length es]. set (masked_edges es m) = E) \<longleftrightarrow> E \<subseteq> set es"
proof
  show "\<exists>m\<in>set [0..<2 ^ length es]. set (masked_edges es m) = E \<Longrightarrow> E \<subseteq> set es"
    by (auto simp: masked_edges_def)
next
  assume E: "E \<subseteq> set es"
  let ?bs = "map (\<lambda>e. e \<in> E) es"
  let ?m = "horner_sum of_bool 2 ?bs :: nat"
  have "?m < 2 ^ length es" using horner_sum_of_bool_2_less [of ?bs] by simp
  moreover have "bit ?m i \<longleftrightarrow> i < length es \<and> es ! i \<in> E" for i
    by (auto simp: bit_horner_sum_bit_iff)
  then have "set (masked_edges es ?m) = E"
    using E by (auto simp: masked_edges_def in_set_conv_nth image_iff subset_iff)
  ultimately show "\<exists>m\<in>set [0..<2 ^ length es]. set (masked_edges es m) = E" by auto
qed

lemma set_combinations_2:
  "distinct xs \<Longrightarrow> set ` set (combinations xs 2) = {{x, y} |x y. x \<in> set xs \<and> y \<in> set xs \<and> x \<noteq> y}"
proof (induction xs)
  case (Cons a xs)
  have one: "combinations ys (Suc 0) = map (\<lambda>y. [y]) ys" for ys :: "'a list"
    by (induction ys) simp_all
  have "set ` set (combinations (a # xs) 2) = {{a, y} |y. y \<in> set xs} \<union> set ` set (combinations xs 2)"
    by (auto simp: numeral_2_eq_2 one image_Un image_image)
  then show ?case using Cons by auto
qed (simp add: numeral_2_eq_2)

lemma ex_masked_edges:
  "(\<exists>m\<in>set [0..<2 ^ length es]. P (set ` set (masked_edges es m))) \<longleftrightarrow> (\<exists>E\<subseteq>set ` set es. P E)"
proof -
  have "(\<exists>m\<in>set [0..<2 ^ length es]. P (set ` set (masked_edges es m))) \<longleftrightarrow>
      (\<exists>E. (\<exists>m\<in>set [0..<2 ^ length es]. set (masked_edges es m) = E) \<and> P (set ` E))"
    by blast
  then show ?thesis unfolding masked_edges_range by (auto simp: subset_image_iff)
qed

definition pairs_of :: "'a set \<Rightarrow> 'a set set" where
  "pairs_of B = {{x, y} |x y. x \<in> B \<and> y \<in> B \<and> x \<noteq> y}"

definition independent :: "'a set \<Rightarrow> 'a set set \<Rightarrow> 'a set set" where
  "independent B E = {F. F \<subseteq> B \<and> (\<forall>e\<in>E. \<not> e \<subseteq> F)}"

definition pairwise_closed :: "'a set \<Rightarrow> 'a set set \<Rightarrow> bool" where
  "pairwise_closed B X \<longleftrightarrow> X = {F. F \<subseteq> B \<and> (\<forall>x\<in>F. \<forall>y\<in>F. x \<noteq> y \<longrightarrow> {x, y} \<in> X)}"

lemma independent_pairwise_closed:
  assumes "E \<subseteq> pairs_of B"
  shows "pairwise_closed B (independent B E)"
proof -
  have "F \<in> independent B E \<longleftrightarrow>
      F \<subseteq> B \<and> (\<forall>x\<in>F. \<forall>y\<in>F. x \<noteq> y \<longrightarrow> {x, y} \<in> independent B E)" for F
  proof
    assume "F \<in> independent B E"
    then have F: "F \<subseteq> B" "\<And>e. e \<in> E \<Longrightarrow> \<not> e \<subseteq> F" by (simp_all add: independent_def)
    have "{x, y} \<in> independent B E" if "x \<in> F" "y \<in> F" for x y
    proof -
      have "{x, y} \<subseteq> F" using that by simp
      then show ?thesis using F unfolding independent_def by (blast dest: order_trans)
    qed
    then show "F \<subseteq> B \<and> (\<forall>x\<in>F. \<forall>y\<in>F. x \<noteq> y \<longrightarrow> {x, y} \<in> independent B E)"
      using F(1) by simp
  next
    assume F: "F \<subseteq> B \<and> (\<forall>x\<in>F. \<forall>y\<in>F. x \<noteq> y \<longrightarrow> {x, y} \<in> independent B E)"
    have "\<not> e \<subseteq> F" if e: "e \<in> E" for e
    proof
      assume sub: "e \<subseteq> F"
      obtain x y where xy: "e = {x, y}" "x \<noteq> y" using e assms by (auto simp: pairs_of_def)
      then have "e \<in> independent B E" using sub F by simp
      then show False using e by (auto simp: independent_def)
    qed
    then show "F \<in> independent B E" using F by (simp add: independent_def)
  qed
  then show ?thesis unfolding pairwise_closed_def by blast
qed

lemma pairwise_closed_independent:
  assumes "pairwise_closed B X"
  shows "independent B (pairs_of B - X) = X"
proof -
  have indep: "F \<in> independent B (pairs_of B - X) \<longleftrightarrow>
      F \<subseteq> B \<and> (\<forall>x\<in>F. \<forall>y\<in>F. x \<noteq> y \<longrightarrow> {x, y} \<in> X)" for F
  proof
    assume F: "F \<in> independent B (pairs_of B - X)"
    then have sub: "F \<subseteq> B" and none: "\<forall>e\<in>pairs_of B - X. \<not> e \<subseteq> F"
      by (simp_all add: independent_def)
    have "{x, y} \<in> X" if "x \<in> F" "y \<in> F" "x \<noteq> y" for x y
    proof (rule ccontr)
      assume "{x, y} \<notin> X"
      moreover have "{x, y} \<in> pairs_of B"
        unfolding pairs_of_def using that subsetD [OF sub] by (intro CollectI exI [of _ x] exI [of _ y]) simp
      ultimately have "\<not> {x, y} \<subseteq> F" using bspec [OF none, of "{x, y}"] by simp
      then show False using that by simp
    qed
    then show "F \<subseteq> B \<and> (\<forall>x\<in>F. \<forall>y\<in>F. x \<noteq> y \<longrightarrow> {x, y} \<in> X)" using sub by simp
  next
    assume F: "F \<subseteq> B \<and> (\<forall>x\<in>F. \<forall>y\<in>F. x \<noteq> y \<longrightarrow> {x, y} \<in> X)"
    have "\<not> e \<subseteq> F" if e: "e \<in> pairs_of B - X" for e
    proof
      assume sub: "e \<subseteq> F"
      obtain x y where "e = {x, y}" "x \<noteq> y" using e by (auto simp: pairs_of_def)
      with sub F have "e \<in> X" by simp
      with e show False by simp
    qed
    then show "F \<in> independent B (pairs_of B - X)" using F by (simp add: independent_def)
  qed
  have closed: "F \<in> X \<longleftrightarrow> F \<subseteq> B \<and> (\<forall>x\<in>F. \<forall>y\<in>F. x \<noteq> y \<longrightarrow> {x, y} \<in> X)" for F
    using assms unfolding pairwise_closed_def set_eq_iff mem_Collect_eq by (rule spec)
  show ?thesis by (intro set_eqI) (rule trans [OF indep closed [symmetric]])
qed

text \<open>
  C27. The brute-force search for a conflict graph, over every edge set on the given branches,
  succeeds exactly for the families that are determined by their pairs: a set of branches is
  a member if and only if each two of its branches are together a member.
\<close>

theorem conflict_graph_iff_pairwise:
  assumes "distinct bs"
  shows "is_conflict_graph_representable fam bs \<longleftrightarrow>
    set fam = {F. F \<subseteq> set bs \<and> (\<forall>x\<in>F. \<forall>y\<in>F. x \<noteq> y \<longrightarrow> {x, y} \<in> set fam)}"
proof -
  let ?es = "combinations (sort bs) 2"
  have pairs: "set ` set ?es = pairs_of (set bs)"
    using assms set_combinations_2 [of "sort bs"] by (simp add: pairs_of_def)
  have "is_conflict_graph_representable fam bs \<longleftrightarrow>
      (\<exists>m\<in>set [0..<2 ^ length ?es]. independent (set bs) (set ` set (masked_edges ?es m)) = set fam)"
    by (simp add: is_conflict_graph_representable_def Let_def set_independent_set_family independent_def)
  also have "\<dots> \<longleftrightarrow> (\<exists>E\<subseteq>pairs_of (set bs). independent (set bs) E = set fam)"
    using ex_masked_edges [of ?es "\<lambda>E. independent (set bs) E = set fam"] unfolding pairs .
  also have "\<dots> \<longleftrightarrow> pairwise_closed (set bs) (set fam)"
    using independent_pairwise_closed [of _ "set bs"] pairwise_closed_independent [of "set bs" "set fam"]
    by (metis Diff_subset)
  finally show ?thesis by (simp only: pairwise_closed_def)
qed

section \<open>The litmus examples\<close>

text \<open>
  The litmus evaluates: one and the same reservation leaves the state after a
  replacement within its authority and drives the state with the old branch still live past
  it, so no decision that sees only the snapshot can be right for both.
\<close>

theorem snapshot_local_litmus_holds:
  "snapshot_local_impossibility_litmus = Inr
     (\<lparr>pre_safe = True, pre_need = [0], pre_conditional = [], successor_safe = True,
       successor_need = [1], decision = ''accept-for-maximal-permissiveness''\<rparr>,
      \<lparr>pre_safe = True, pre_need = [1], pre_conditional = [''old''], successor_safe = False,
       successor_need = [2], decision = ''reject-for-soundness''\<rparr>)"
  by code_simp

text \<open>
  The exclusive-choice counterexample: the source is authority continuous, plain
  promotion of one branch's claim is not, and the frontier the function returns is overloaded.
\<close>

theorem plain_escape_breaks_continuity:
  "\<exists>source target F. plain_escape_counterexample = Inr (source, target, F) \<and>
     authority_continuous source = Inr True \<and> authority_continuous target = Inr False \<and>
     F \<in> set (frontiers target) \<and> frontier_load target F = Inr [2] \<and> grant target = [1]"
proof -
  have "case plain_escape_counterexample of Inl e \<Rightarrow> False | Inr (source, target, F) \<Rightarrow>
     authority_continuous source = Inr True \<and> authority_continuous target = Inr False \<and>
     F \<in> set (frontiers target) \<and> frontier_load target F = Inr [2] \<and> grant target = [1]"
    by code_simp
  then show ?thesis by (auto split: sum.splits)
qed

end
