(* ===== verification/Machines.thy ===== *)
theory Machines
  imports Prelude
begin

text \<open>
  Runs of labelled step relations, and the three contracts the components' machines meet:
  an invariant kept by every step, histories that only grow, and keys that a step may use
  only once. Each contract is a locale whose lemmas hold of whole runs.
\<close>

section \<open>Runs\<close>

inductive run :: "('s \<Rightarrow> 'e \<Rightarrow> 's \<Rightarrow> bool) \<Rightarrow> 's \<Rightarrow> 'e list \<Rightarrow> 's \<Rightarrow> bool" for step where
  run_Nil: "run step s [] s"
| run_Cons: "step s e t \<Longrightarrow> run step t es u \<Longrightarrow> run step s (e # es) u"

inductive_simps run_Nil_iff [simp]: "run step s [] t"
inductive_simps run_Cons_iff: "run step s (e # es) u"

text \<open>The labels of a run that carry a key, in order.\<close>

definition keys_of :: "('e \<Rightarrow> 'k option) \<Rightarrow> 'e list \<Rightarrow> 'k list" where
  "keys_of key es = List.map_filter key es"

lemma keys_of_simps [simp]:
  "keys_of key [] = []"
  "keys_of key (e # es) = (case key e of None \<Rightarrow> keys_of key es | Some k \<Rightarrow> k # keys_of key es)"
  by (simp_all add: keys_of_def List.map_filter_simps split: option.split)

section \<open>Contracts of machines\<close>

locale invariant_machine =
  fixes step :: "'s \<Rightarrow> 'e \<Rightarrow> 's \<Rightarrow> bool"
    and inv :: "'s \<Rightarrow> bool"
  assumes step_inv: "step s e t \<Longrightarrow> inv s \<Longrightarrow> inv t"
begin

lemma run_inv: "run step s es t \<Longrightarrow> inv s \<Longrightarrow> inv t"
  by (induction rule: run.induct) (auto dest: step_inv)

end

locale growing_machine = invariant_machine step inv
  for step :: "'s \<Rightarrow> 'e \<Rightarrow> 's \<Rightarrow> bool" and inv :: "'s \<Rightarrow> bool" +
  fixes history :: "'s \<Rightarrow> 'h set"
  assumes step_grows: "step s e t \<Longrightarrow> inv s \<Longrightarrow> history s \<subseteq> history t"
begin

lemma run_grows: "run step s es t \<Longrightarrow> inv s \<Longrightarrow> history s \<subseteq> history t"
  by (induction rule: run.induct) (auto dest: step_inv step_grows)

end

text \<open>A step labelled with a key finds the key unused and leaves it used.\<close>

locale once_machine = growing_machine step inv used
  for step :: "'s \<Rightarrow> 'e \<Rightarrow> 's \<Rightarrow> bool" and inv :: "'s \<Rightarrow> bool" and used :: "'s \<Rightarrow> 'k set" +
  fixes key :: "'e \<Rightarrow> 'k option"
  assumes step_key: "step s e t \<Longrightarrow> inv s \<Longrightarrow> key e = Some k \<Longrightarrow> k \<notin> used s \<and> k \<in> used t"
begin

lemma run_keys:
  assumes "run step s es t" and "inv s"
  shows "distinct (keys_of key es)" "set (keys_of key es) \<inter> used s = {}"
    "set (keys_of key es) \<subseteq> used t"
proof -
  have "distinct (keys_of key es) \<and> set (keys_of key es) \<inter> used s = {} \<and>
      set (keys_of key es) \<subseteq> used t"
    using assms
  proof (induction rule: run.induct)
    case (run_Cons s e t es u)
    note t = step_inv [OF run_Cons.hyps(1) run_Cons.prems]
    note IH = run_Cons.IH [OF t]
    have "used s \<subseteq> used t" "used t \<subseteq> used u"
      using step_grows [OF run_Cons.hyps(1) run_Cons.prems] run_grows [OF run_Cons.hyps(2) t] .
    moreover have "k \<notin> used s \<and> k \<in> used t" if "key e = Some k" for k
      using step_key [OF run_Cons.hyps(1) run_Cons.prems that] .
    ultimately show ?case using IH by (auto split: option.splits)
  qed simp
  then show "distinct (keys_of key es)" "set (keys_of key es) \<inter> used s = {}"
    "set (keys_of key es) \<subseteq> used t" by blast+
qed

end

end
