(* ===== verification/Lifecycle.thy ===== *)
theory Lifecycle
  imports Repair Machines
begin

text \<open>
  The lifecycle machine of \<open>artifact/authority_continuity.py\<close> (lines 1106 to 1707):
  tickets, receipts, epochs, terminal identifiers and tombstoned branches around an authority
  state and its guarded contract, with every operation that moves it. A frozen dataclass is
  a record with its validation; \<open>replace\<close> validates again, so each operation ends in
  \<open>lifecycle_post_init\<close>.
\<close>

section \<open>Tickets and receipts\<close>

record ticket =
  ticket_operation :: string
  ticket_claim :: string
  phase :: string
  retry_mode :: string

definition ticket_post_init :: "ticket \<Rightarrow> ticket result" where
  "ticket_post_init t =
     (if ticket_operation t = [] \<or> ticket_claim t = []
      then Inl (ValueError ''ticket operation and claim IDs must be nonempty'')
      else if phase t \<notin> {''prepared'', ''inflight'', ''uncertain''}
      then Inl (ValueError ''invalid ticket phase'')
      else if retry_mode t \<notin> {''deduplicated'', ''aggregate-bounded''}
      then Inl (ValueError ''invalid retry mode'')
      else Inr t)"

record receipt =
  receipt_operation :: string
  receipt_claim :: string
  outcome :: string

definition receipt_post_init :: "receipt \<Rightarrow> receipt result" where
  "receipt_post_init r =
     (if receipt_operation r = [] \<or> receipt_claim r = [] \<or> outcome r = []
      then Inl (ValueError ''receipt fields must be nonempty'')
      else Inr r)"

definition ticket_key :: "ticket \<Rightarrow> string \<times> string \<times> string \<times> string" where
  "ticket_key t = (ticket_operation t, ticket_claim t, phase t, retry_mode t)"

definition receipt_key :: "receipt \<Rightarrow> string \<times> string \<times> string" where
  "receipt_key r = (receipt_operation r, receipt_claim r, outcome r)"

section \<open>The lifecycle state\<close>

record lifecycle =
  authority :: state
  lcontract :: contract
  epochs :: "string list"
  claim_epochs :: "(string \<times> string) list"
  closed_epochs :: "string set"
  tickets :: "ticket list"
  receipts :: "receipt list"
  terminal_ids :: "string set"
  tombstones :: "branch set"

definition branch_is_open :: "lifecycle \<Rightarrow> branch \<Rightarrow> bool" where
  "branch_is_open l b \<longleftrightarrow> b \<notin> tombstones l"

definition owner_closed :: "lifecycle \<Rightarrow> claim \<Rightarrow> bool" where
  "owner_closed l c = (case claim_branch c of None \<Rightarrow> False | Some b \<Rightarrow> \<not> branch_is_open l b)"

definition active_ids :: "state \<Rightarrow> string set" where
  "active_ids s = claim_id ` set (durable s @ conditional s)"

definition used_operations :: "lifecycle \<Rightarrow> string list" where
  "used_operations l = map ticket_operation (tickets l) @ map receipt_operation (receipts l)"

definition used_claims :: "lifecycle \<Rightarrow> string list" where
  "used_claims l = map ticket_claim (tickets l) @ map receipt_claim (receipts l)"

text \<open>
  The validation, in the order of the source. The lookup of a claim's epoch follows the check
  that the bindings cover every claim.
\<close>

definition lifecycle_post_init :: "lifecycle \<Rightarrow> lifecycle result" where
  "lifecycle_post_init l =
     (if set (frontiers (authority l)) \<noteq> set (base_frontiers (lcontract l))
      then Inl (ValueError ''authority frontiers and contract base must agree'')
      else bind_r (guarded_authority_continuous (authority l) (lcontract l)) (\<lambda>continuous.
      if \<not> continuous then Inl (ValueError ''lifecycle state violates guarded authority continuity'')
      else bind_r (support (lcontract l)) (\<lambda>supp.
      if \<not> owner_support_well_formed (authority l) (Some supp)
      then Inl (ValueError ''every tentative owner must have guarded support'')
      else if epochs l = [] \<or> sorted_list_of_set (set (epochs l)) \<noteq> epochs l
      then Inl (ValueError ''epochs must be a sorted, unique, nonempty tuple'')
      else if \<not> closed_epochs l \<subseteq> set (epochs l)
      then Inl (ValueError ''closed epochs must be declared'')
      else if sort (claim_epochs l) \<noteq> claim_epochs l
      then Inl (ValueError ''claim epoch bindings must be sorted canonically'')
      else if \<not> distinct (map fst (claim_epochs l))
      then Inl (ValueError ''each claim must have exactly one epoch binding'')
      else if set (map fst (claim_epochs l)) \<noteq> active_ids (authority l) \<union> terminal_ids l
      then Inl (ValueError ''epoch bindings must cover active and terminal claims'')
      else if \<not> set (map snd (claim_epochs l)) \<subseteq> set (epochs l)
      then Inl (ValueError ''claim epoch binding names an undeclared epoch'')
      else bind_r (filter_r (\<lambda>c. bind_r (dict_get (claim_epochs l) (claim_id c))
                     (\<lambda>e. Inr (e \<in> closed_epochs l))) (conditional (authority l))) (\<lambda>closed_tentative.
      if closed_tentative \<noteq> []
      then Inl (ValueError ''tentative claims cannot remain in closed epochs'')
      else if sort_key ticket_key (tickets l) \<noteq> tickets l
      then Inl (ValueError ''tickets must be sorted canonically'')
      else if sort_key receipt_key (receipts l) \<noteq> receipts l
      then Inl (ValueError ''receipts must be sorted canonically'')
      else if \<not> distinct (used_operations l)
      then Inl (ValueError ''operation IDs must be unique across tickets and receipts'')
      else if \<not> distinct (used_claims l)
      then Inl (ValueError ''a durable claim may seal at most one operation'')
      else if \<not> set (used_claims l) \<subseteq> claim_id ` set (durable (authority l))
      then Inl (ValueError ''tickets and receipts must reference durable claims'')
      else if active_ids (authority l) \<inter> terminal_ids l \<noteq> {}
      then Inl (ValueError ''terminal claim IDs cannot remain active'')
      else if [] \<in> tombstones l
      then Inl (ValueError ''tombstoned branch names must be nonempty'')
      else if \<exists>c\<in>set (conditional (authority l)). owner_closed l c
      then Inl (ValueError ''tombstoned branches cannot retain tentative claims'')
      else if family_union supp \<inter> tombstones l \<noteq> {}
      then Inl (ValueError ''tombstoned branch epochs cannot re-enter contract support'')
      else Inr l))))"

definition find_ticket :: "lifecycle \<Rightarrow> string \<Rightarrow> ticket result" where
  "find_ticket l operation_id =
     (case filter (\<lambda>t. ticket_operation t = operation_id) (tickets l) of
        [t] \<Rightarrow> Inr t
      | _ \<Rightarrow> Inl (LifecycleRejected ''no live ticket for operation''))"

record lifecycle_step =
  step_state :: lifecycle
  attempt :: "(string \<times> string) option"
  releases_logical_operation :: bool

definition abstract_effect :: "lifecycle_step \<Rightarrow> (string \<times> string) option" where
  "abstract_effect st = (if releases_logical_operation st then attempt st else None)"

definition make_lifecycle_state ::
    "state \<Rightarrow> contract option \<Rightarrow> string list \<Rightarrow> (string \<times> string) list option \<Rightarrow> string set \<Rightarrow>
     ticket list \<Rightarrow> receipt list \<Rightarrow> string set \<Rightarrow> branch set \<Rightarrow> lifecycle result" where
  "make_lifecycle_state a c es ce closed ts rs terminal tombs =
     bind_r (case c of None \<Rightarrow> contract_post_init \<lparr>base_frontiers = frontiers a, guards = []\<rparr>
                     | Some c' \<Rightarrow> Inr c') (\<lambda>concrete_contract.
     let concrete_epochs = sorted_list_of_set (set es) in
     bind_r (case ce of
         Some bindings \<Rightarrow> Inr bindings
       | None \<Rightarrow> if length concrete_epochs \<noteq> 1
                 then Inl (ValueError ''multiple epochs require explicit claim bindings'')
                 else Inr (map (\<lambda>cid. (cid, hd concrete_epochs))
                             (sorted_list_of_set (active_ids a \<union> terminal)))) (\<lambda>bindings.
     lifecycle_post_init
       \<lparr>authority = a, lcontract = concrete_contract, epochs = concrete_epochs,
        claim_epochs = sort bindings, closed_epochs = closed,
        tickets = sort_key ticket_key ts, receipts = sort_key receipt_key rs,
        terminal_ids = terminal, tombstones = tombs\<rparr>))"

section \<open>Operations on tickets\<close>

type_synonym binding = "string \<times> string \<times> string"

definition prepare_operations :: "lifecycle \<Rightarrow> binding list \<Rightarrow> string \<Rightarrow> lifecycle result" where
  "prepare_operations l bindings gid =
     (if bindings = [] then Inl (LifecycleRejected ''Prepare requires at least one claim'')
      else let claim_ids = map (\<lambda>(cid, _, _). cid) bindings;
               operation_ids = map (\<lambda>(_, oid, _). oid) bindings in
      if \<not> distinct claim_ids
      then Inl (LifecycleRejected ''Prepare claim bindings must be injective'')
      else if \<not> distinct operation_ids
      then Inl (LifecycleRejected ''Prepare operation bindings must be injective'')
      else if set operation_ids \<inter> set (used_operations l) \<noteq> {}
      then Inl (LifecycleRejected ''operation IDs are not fresh'')
      else if \<not> set claim_ids \<subseteq> claim_id ` set (conditional (authority l))
      then Inl (LifecycleRejected ''claims are not tentative'')
      else if \<exists>c\<in>set (conditional (authority l)). claim_id c \<in> set claim_ids \<and> owner_closed l c
      then Inl (LifecycleRejected ''claim owners are tombstoned'')
      else bind_r (filter_r (\<lambda>cid. bind_r (dict_get (claim_epochs l) cid)
                     (\<lambda>e. Inr (e \<in> closed_epochs l))) claim_ids) (\<lambda>closed.
      if closed \<noteq> [] then Inl (LifecycleRejected ''claim epochs are closed'')
      else bind_r (rethrow LifecycleRejected
                     (promote_with_exact_guard (authority l) (lcontract l) claim_ids gid))
        (\<lambda>(promoted, repaired).
      bind_r (support repaired) (\<lambda>supp.
      bind_r (cleanup_unsupported_owners promoted supp) (\<lambda>cleanup.
      bind_r (map_r (\<lambda>(cid, oid, mode). ticket_post_init
                \<lparr>ticket_operation = oid, ticket_claim = cid, phase = ''prepared'', retry_mode = mode\<rparr>)
                bindings) (\<lambda>new_tickets.
      lifecycle_post_init (l\<lparr>authority := cleanup_state cleanup, lcontract := repaired,
        tickets := sort_key ticket_key (tickets l @ new_tickets),
        terminal_ids := terminal_ids l \<union> cleanup_terminal cleanup,
        tombstones := tombstones l \<union> cleanup_tombstoned cleanup\<rparr>)))))))"

text \<open>Replacing one ticket by its \<open>inflight\<close> version, shared by dispatch and retry.\<close>

definition put_inflight :: "lifecycle \<Rightarrow> ticket \<Rightarrow> lifecycle result" where
  "put_inflight l t =
     bind_r (ticket_post_init (t\<lparr>phase := ''inflight''\<rparr>)) (\<lambda>inflight.
     lifecycle_post_init (l\<lparr>tickets := sort_key ticket_key
       (map (\<lambda>current. if current = t then inflight else current) (tickets l))\<rparr>))"

definition dispatch_operation :: "lifecycle \<Rightarrow> string \<Rightarrow> lifecycle_step result" where
  "dispatch_operation l oid =
     bind_r (find_ticket l oid) (\<lambda>t.
     if phase t \<noteq> ''prepared''
     then Inl (LifecycleRejected ''first Dispatch requires a prepared ticket'')
     else bind_r (put_inflight l t) (\<lambda>target.
       Inr \<lparr>step_state = target, attempt = Some (oid, ticket_claim t),
            releases_logical_operation = True\<rparr>))"

definition retry_operation :: "lifecycle \<Rightarrow> string \<Rightarrow> lifecycle_step result" where
  "retry_operation l oid =
     bind_r (find_ticket l oid) (\<lambda>t.
     if phase t \<notin> {''inflight'', ''uncertain''}
     then Inl (LifecycleRejected ''Retry requires an inflight or uncertain ticket'')
     else bind_r (put_inflight l t) (\<lambda>target.
       Inr \<lparr>step_state = target, attempt = Some (oid, ticket_claim t),
            releases_logical_operation = False\<rparr>))"

definition settle_operation :: "lifecycle \<Rightarrow> string \<Rightarrow> string \<Rightarrow> lifecycle result" where
  "settle_operation l oid result =
     bind_r (find_ticket l oid) (\<lambda>t.
     let attempted = phase t \<in> {''inflight'', ''uncertain''};
         canceled_prepared = phase t = ''prepared'' \<and> result = ''cancelled'' in
     if \<not> (attempted \<or> canceled_prepared)
     then Inl (LifecycleRejected
       ''Settle requires attempted work or an explicit prepared cancellation'')
     else if result = [] then Inl (LifecycleRejected ''Settle outcome must be nonempty'')
     else bind_r (receipt_post_init
            \<lparr>receipt_operation = oid, receipt_claim = ticket_claim t, outcome = result\<rparr>) (\<lambda>r.
       lifecycle_post_init (l\<lparr>tickets := filter (\<lambda>current. current \<noteq> t) (tickets l),
         receipts := sort_key receipt_key (receipts l @ [r])\<rparr>)))"

definition crash_recover :: "lifecycle \<Rightarrow> lifecycle result" where
  "crash_recover l =
     bind_r (map_r (\<lambda>t. if phase t = ''inflight'' then ticket_post_init (t\<lparr>phase := ''uncertain''\<rparr>)
                         else Inr t) (tickets l)) (\<lambda>recovered.
     lifecycle_post_init (l\<lparr>tickets := sort_key ticket_key recovered\<rparr>))"

definition revoke_epoch :: "lifecycle \<Rightarrow> string \<Rightarrow> lifecycle result" where
  "revoke_epoch l epoch =
     (if epoch \<notin> set (epochs l) then Inl (LifecycleRejected ''unknown epoch'')
      else if epoch \<in> closed_epochs l then Inl (LifecycleRejected ''epoch is already closed'')
      else bind_r (filter_r (\<lambda>c. bind_r (dict_get (claim_epochs l) (claim_id c))
                     (\<lambda>e. Inr (e = epoch))) (conditional (authority l))) (\<lambda>revoked.
      let revoked_ids = claim_id ` set revoked in
      bind_r (make_state (grant (authority l)) (durable (authority l))
                (filter (\<lambda>c. claim_id c \<notin> revoked_ids) (conditional (authority l)))
                (frontiers (authority l))) (\<lambda>a.
      lifecycle_post_init (l\<lparr>authority := a, closed_epochs := insert epoch (closed_epochs l),
        terminal_ids := terminal_ids l \<union> revoked_ids\<rparr>))))"

section \<open>Structural refinement\<close>

definition structural_history_preserved :: "lifecycle \<Rightarrow> lifecycle \<Rightarrow> bool" where
  "structural_history_preserved source target \<longleftrightarrow>
     grant (authority source) = grant (authority target) \<and>
     durable (authority source) = durable (authority target) \<and>
     terminal_ids source \<subseteq> terminal_ids target \<and>
     tombstones source \<subseteq> tombstones target \<and>
     closed_epochs source \<subseteq> closed_epochs target \<and>
     set (receipts source) \<subseteq> set (receipts target) \<and>
     (\<forall>t\<in>set (tickets source).
        map_of (rev (map (\<lambda>u. (ticket_operation u, u)) (tickets target))) (ticket_operation t) =
        map_of (rev (map (\<lambda>u. (ticket_operation u, u)) (tickets source))) (ticket_operation t))"

text \<open>
  One claim of the refined leaf's source: kept, moved to a descendant, or dropped. Moving
  validates the claim again, which does not look at its owner.
\<close>

definition transfer_claim :: "branch \<Rightarrow> (string \<times> branch) list \<Rightarrow> claim \<Rightarrow> claim list" where
  "transfer_claim old transfers c =
     (if claim_branch c \<noteq> Some old then [c]
      else case map_of transfers (claim_id c) of
        None \<Rightarrow> []
      | Some b \<Rightarrow> [c\<lparr>claim_branch := Some b\<rparr>])"

definition projected :: "branch \<Rightarrow> branch set \<Rightarrow> frontier \<Rightarrow> frontier" where
  "projected old child_set frontier =
     (let p = frontier - child_set in
      if frontier \<inter> child_set \<noteq> {} then p \<union> {old} else p)"

text \<open>The bodies of the two certificate loops of a refinement.\<close>

definition refine_load_check ::
    "lifecycle \<Rightarrow> state \<Rightarrow> branch \<Rightarrow> branch set \<Rightarrow> frontier \<Rightarrow> unit result" where
  "refine_load_check l a old child_set frontier =
     (let p = projected old child_set frontier in
      if p \<notin> set (frontiers (authority l))
      then Inl (LifecycleRejected ''refinement projection escapes the source contract'')
      else bind_r (frontier_load a frontier) (\<lambda>x.
           bind_r (frontier_load (authority l) p) (\<lambda>y.
           bind_r (vector_leq x y) (\<lambda>b.
           if \<not> b then Inl (LifecycleRejected ''refinement duplicates conditional demand'')
           else Inr ()))))"

definition refine_guard_check :: "lifecycle \<Rightarrow> branch \<Rightarrow> branch set \<Rightarrow> frontier \<Rightarrow> unit result" where
  "refine_guard_check l old child_set frontier =
     bind_r (support (lcontract l)) (\<lambda>old_supp.
     if projected old child_set frontier \<notin> set old_supp
     then Inl (LifecycleRejected ''refinement violates a frozen source guard'')
     else Inr ())"

definition refine_lifecycle_leaf ::
    "lifecycle \<Rightarrow> branch \<Rightarrow> branch list \<Rightarrow> bool \<Rightarrow> (string \<times> branch) list \<Rightarrow> bool \<Rightarrow> lifecycle result" where
  "refine_lifecycle_leaf l old children parallel transfers tombstone_old =
     (let ds = sort children in
      if set ds \<inter> tombstones l \<noteq> {}
      then Inl (LifecycleRejected ''refinement descendants reuse tombstoned branch epochs'')
      else if \<not> distinct (map fst transfers)
      then Inl (LifecycleRejected ''each tentative claim may transfer at most once'')
      else
        let old_claims = claim_id ` set (filter (\<lambda>c. claim_branch c = Some old) (conditional (authority l))) in
      if \<not> set (map fst transfers) \<subseteq> old_claims
      then Inl (LifecycleRejected ''only tentative claims owned by the refined leaf transfer'')
      else if \<not> set (map snd transfers) \<subseteq> set ds
      then Inl (LifecycleRejected ''claim transfers must target refinement descendants'')
      else bind_r (rethrow LifecycleRejected (refine_leaf (lcontract l) old ds parallel)) (\<lambda>c.
        let canceled = old_claims - set (map fst transfers) in
      bind_r (make_state (grant (authority l)) (durable (authority l))
                (concat (map (transfer_claim old transfers) (conditional (authority l))))
                (base_frontiers c)) (\<lambda>a.
      bind_r (each_r (refine_load_check l a old (set ds)) (base_frontiers c)) (\<lambda>_.
      bind_r (support c) (\<lambda>supp.
      bind_r (each_r (refine_guard_check l old (set ds)) supp) (\<lambda>_.
      bind_r (lifecycle_post_init (l\<lparr>authority := a, lcontract := c,
                terminal_ids := terminal_ids l \<union> canceled,
                tombstones := tombstones l \<union> (if tombstone_old then {old} else {})\<rparr>)) (\<lambda>target.
      if \<not> structural_history_preserved l target
      then Inl (AssertionError ''structural refinement erased durable lifecycle history'')
      else Inr target)))))))"

definition restore_replace ::
    "lifecycle \<Rightarrow> branch \<Rightarrow> branch \<Rightarrow> (string \<times> branch) list \<Rightarrow> lifecycle result" where
  "restore_replace l old restored transfers =
     (if restored = old then Inl (LifecycleRejected ''replacement leaf must be fresh'')
      else refine_lifecycle_leaf l old [restored] False transfers True)"

definition restore_live :: "lifecycle \<Rightarrow> branch \<Rightarrow> branch \<Rightarrow> lifecycle result" where
  "restore_live l old restored =
     refine_lifecycle_leaf l old [old, restored] True
       (map (\<lambda>c. (claim_id c, old))
          (filter (\<lambda>c. claim_branch c = Some old) (conditional (authority l)))) False"

definition fork_branch ::
    "lifecycle \<Rightarrow> branch \<Rightarrow> branch \<Rightarrow> branch \<Rightarrow> bool \<Rightarrow> (string \<times> branch) list \<Rightarrow> lifecycle result" where
  "fork_branch l old left right parallel transfers =
     (if old \<in> {left, right} then Inl (LifecycleRejected ''fork children must be fresh'')
      else refine_lifecycle_leaf l old [left, right] parallel transfers True)"

section \<open>Valid lifecycle states\<close>

definition ticket_ok :: "ticket \<Rightarrow> bool" where
  "ticket_ok t \<longleftrightarrow> ticket_operation t \<noteq> [] \<and> ticket_claim t \<noteq> [] \<and>
     phase t \<in> {''prepared'', ''inflight'', ''uncertain''} \<and>
     retry_mode t \<in> {''deduplicated'', ''aggregate-bounded''}"

definition receipt_ok :: "receipt \<Rightarrow> bool" where
  "receipt_ok r \<longleftrightarrow> receipt_operation r \<noteq> [] \<and> receipt_claim r \<noteq> [] \<and> outcome r \<noteq> []"

text \<open>The authority side of the validation and the history side of it.\<close>

definition authority_inv :: "state \<Rightarrow> contract \<Rightarrow> branch set \<Rightarrow> bool" where
  "authority_inv a c tombs \<longleftrightarrow>
     set (frontiers a) = set (base_frontiers c) \<and> (\<forall>F. callows c F \<longrightarrow> solvent a F) \<and>
     (\<forall>d\<in>set (conditional a). owned_in (family_union (csupport c)) d) \<and>
     [] \<notin> tombs \<and> (\<forall>d\<in>set (conditional a). \<not> owned_in tombs d) \<and>
     family_union (csupport c) \<inter> tombs = {}"

definition epoch_inv :: "state \<Rightarrow> string list \<Rightarrow> (string \<times> string) list \<Rightarrow> string set \<Rightarrow> string set \<Rightarrow> bool" where
  "epoch_inv a es ce closed terminal \<longleftrightarrow>
     es \<noteq> [] \<and> sorted_list_of_set (set es) = es \<and> closed \<subseteq> set es \<and> sort ce = ce \<and>
     distinct (map fst ce) \<and> set (map fst ce) = active_ids a \<union> terminal \<and>
     set (map snd ce) \<subseteq> set es \<and>
     (\<forall>d\<in>set (conditional a). \<forall>e. map_of ce (claim_id d) = Some e \<longrightarrow> e \<notin> closed) \<and>
     active_ids a \<inter> terminal = {}"

definition ticket_inv :: "state \<Rightarrow> ticket list \<Rightarrow> receipt list \<Rightarrow> bool" where
  "ticket_inv a ts rs \<longleftrightarrow>
     sorted (map ticket_key ts) \<and> sorted (map receipt_key rs) \<and>
     distinct (map ticket_operation ts @ map receipt_operation rs) \<and>
     distinct (map ticket_claim ts @ map receipt_claim rs) \<and>
     set (map ticket_claim ts @ map receipt_claim rs) \<subseteq> claim_id ` set (durable a)"

definition lifecycle_inv :: "lifecycle \<Rightarrow> bool" where
  "lifecycle_inv l \<longleftrightarrow> authority_inv (authority l) (lcontract l) (tombstones l) \<and>
     epoch_inv (authority l) (epochs l) (claim_epochs l) (closed_epochs l) (terminal_ids l) \<and>
     ticket_inv (authority l) (tickets l) (receipts l)"

definition lifecycle_ok :: "lifecycle \<Rightarrow> bool" where
  "lifecycle_ok l \<longleftrightarrow> state_ok (authority l) \<and> contract_ok (lcontract l) \<and>
     (\<forall>t\<in>set (tickets l). ticket_ok t) \<and> (\<forall>r\<in>set (receipts l). receipt_ok r) \<and> lifecycle_inv l"

lemma ticket_post_init_iff: "ticket_post_init t = Inr u \<longleftrightarrow> u = t \<and> ticket_ok t"
  by (auto simp: ticket_post_init_def ticket_ok_def)

lemma receipt_post_init_iff: "receipt_post_init r = Inr u \<longleftrightarrow> u = r \<and> receipt_ok r"
  by (auto simp: receipt_post_init_def receipt_ok_def)

lemma closed_tentative_total:
  assumes "set (map fst ce) = active_ids a \<union> terminal"
  shows "filter_r (\<lambda>c. bind_r (dict_get ce (claim_id c)) (\<lambda>e. Inr (P e))) (conditional a) =
     Inr (filter (\<lambda>c. P (the (map_of ce (claim_id c)))) (conditional a))"
proof (rule filter_r_total)
  fix c assume "c \<in> set (conditional a)"
  then have "claim_id c \<in> fst ` set ce" using assms by (auto simp: active_ids_def)
  then obtain e where "map_of ce (claim_id c) = Some e"
    by (metis map_of_eq_None_iff not_None_eq)
  then show "bind_r (dict_get ce (claim_id c)) (\<lambda>e. Inr (P e)) = Inr (P (the (map_of ce (claim_id c))))"
    by simp
qed

lemma owner_support_iff:
  assumes "contract_ok c" and "set (frontiers a) = set (base_frontiers c)"
  shows "owner_support_well_formed a (Some (csupport c)) \<longleftrightarrow>
     (\<forall>d\<in>set (conditional a). owned_in (family_union (csupport c)) d)"
  using csupport_closed [OF assms(1)] assms(2) by (simp add: owner_support_well_formed_def)

lemma epoch_closed_iff:
  assumes "set (map fst ce) = active_ids a \<union> terminal"
  shows "filter (\<lambda>c. the (map_of ce (claim_id c)) \<in> closed) (conditional a) = [] \<longleftrightarrow>
     (\<forall>d\<in>set (conditional a). \<forall>e. map_of ce (claim_id d) = Some e \<longrightarrow> e \<notin> closed)"
proof -
  have "\<exists>e. map_of ce (claim_id d) = Some e" if "d \<in> set (conditional a)" for d
  proof -
    have "claim_id d \<in> fst ` set ce" using that assms by (auto simp: active_ids_def)
    then show ?thesis by (metis map_of_eq_None_iff not_None_eq)
  qed
  then show ?thesis by (force simp: filter_empty_conv)
qed

lemma lifecycle_post_init_iff:
  assumes "state_ok (authority l)" and "contract_ok (lcontract l)"
  shows "lifecycle_post_init l = Inr m \<longleftrightarrow> m = l \<and> lifecycle_inv l"
proof (cases "set (frontiers (authority l)) = set (base_frontiers (lcontract l)) \<and>
    set (map fst (claim_epochs l)) = active_ids (authority l) \<union> terminal_ids l")
  case True
  then have fr: "set (frontiers (authority l)) = set (base_frontiers (lcontract l))"
    and keys: "set (map fst (claim_epochs l)) = active_ids (authority l) \<union> terminal_ids l" by blast+
  have tomb: "(\<exists>c\<in>set (conditional (authority l)). owner_closed l c) \<longleftrightarrow>
      \<not> (\<forall>d\<in>set (conditional (authority l)). \<not> owned_in (tombstones l) d)"
    by (auto simp: owner_closed_def branch_is_open_def owned_in_def split: option.splits)
  show ?thesis
    unfolding lifecycle_post_init_def lifecycle_inv_def authority_inv_def epoch_inv_def ticket_inv_def
      guarded_authority_continuous_total [OF assms fr] support_total [OF assms(2)]
      closed_tentative_total [OF keys] bind_r_simps if_Inl_eq_Inr owner_support_iff [OF assms(2) fr]
      epoch_closed_iff [OF keys] tomb sort_key_fixed_iff used_operations_def used_claims_def
    using fr keys by (simp only: not_not) blast
next
  case False
  then show ?thesis
  proof (cases "set (frontiers (authority l)) = set (base_frontiers (lcontract l))")
    case True
    with False have keys: "set (map fst (claim_epochs l)) \<noteq> active_ids (authority l) \<union> terminal_ids l" by blast
    then have "\<not> lifecycle_inv l" by (simp add: lifecycle_inv_def epoch_inv_def)
    moreover have "lifecycle_post_init l \<noteq> Inr m"
      unfolding lifecycle_post_init_def bind_r_eq_Inr if_Inl_eq_Inr using keys by blast
    ultimately show ?thesis by blast
  next
    case False
    then show ?thesis by (simp add: lifecycle_post_init_def lifecycle_inv_def authority_inv_def)
  qed
qed

lemma lifecycle_okI:
  assumes "state_ok (authority l)" and "contract_ok (lcontract l)" and "\<forall>t\<in>set (tickets l). ticket_ok t"
    and "\<forall>r\<in>set (receipts l). receipt_ok r" and "lifecycle_post_init l = Inr m"
  shows "lifecycle_ok m" "m = l"
  using assms lifecycle_post_init_iff [OF assms(1,2), of m] by (auto simp: lifecycle_ok_def)

lemma lifecycle_okD:
  assumes "lifecycle_ok l"
  shows "state_ok (authority l)" "contract_ok (lcontract l)" "\<And>t. t \<in> set (tickets l) \<Longrightarrow> ticket_ok t"
    "authority_inv (authority l) (lcontract l) (tombstones l)"
    "epoch_inv (authority l) (epochs l) (claim_epochs l) (closed_epochs l) (terminal_ids l)"
    "ticket_inv (authority l) (tickets l) (receipts l)"
    "\<And>r. r \<in> set (receipts l) \<Longrightarrow> receipt_ok r"
    "set (frontiers (authority l)) = set (base_frontiers (lcontract l))"
  using assms by (auto simp: lifecycle_ok_def lifecycle_inv_def authority_inv_def)

section \<open>Ticket operations always revalidate\<close>

lemma find_ticket_iff:
  assumes "lifecycle_ok l"
  shows "find_ticket l oid = Inr t \<longleftrightarrow> t \<in> set (tickets l) \<and> ticket_operation t = oid"
proof
  assume "find_ticket l oid = Inr t"
  then have "filter (\<lambda>t. ticket_operation t = oid) (tickets l) = [t]"
    by (auto simp: find_ticket_def split: list.splits)
  then have "t \<in> set (filter (\<lambda>t. ticket_operation t = oid) (tickets l))" by simp
  then show "t \<in> set (tickets l) \<and> ticket_operation t = oid" by simp
next
  assume t: "t \<in> set (tickets l) \<and> ticket_operation t = oid"
  have "distinct (map ticket_operation (tickets l))"
    using lifecycle_okD(6) [OF assms] by (simp add: ticket_inv_def)
  then have "filter (\<lambda>u. ticket_operation u = ticket_operation t) (tickets l) = [t]"
    using t by (intro filter_unique_key) simp_all
  then show "find_ticket l oid = Inr t" using t by (simp add: find_ticket_def)
qed

lemma find_ticket_none:
  assumes "oid \<notin> ticket_operation ` set (tickets l)"
  shows "find_ticket l oid = Inl (LifecycleRejected ''no live ticket for operation'')"
proof -
  have "filter (\<lambda>t. ticket_operation t = oid) (tickets l) = []"
    using assms by (auto simp: filter_empty_conv)
  then show ?thesis by (simp add: find_ticket_def)
qed

text \<open>Relabelling tickets without touching their operation and claim keeps a state valid.\<close>

definition retagged :: "(ticket \<Rightarrow> ticket) \<Rightarrow> lifecycle \<Rightarrow> lifecycle" where
  "retagged f l = l\<lparr>tickets := sort_key ticket_key (map f (tickets l))\<rparr>"

lemma retagged_ok:
  assumes "lifecycle_ok l"
    and "\<And>t. t \<in> set (tickets l) \<Longrightarrow> ticket_operation (f t) = ticket_operation t \<and>
           ticket_claim (f t) = ticket_claim t \<and> ticket_ok (f t)"
  shows "lifecycle_post_init (retagged f l) = Inr (retagged f l)" and "lifecycle_ok (retagged f l)"
proof -
  let ?ts = "sort_key ticket_key (map f (tickets l))"
  have ops: "map ticket_operation (map f (tickets l)) = map ticket_operation (tickets l)"
    and cls: "map ticket_claim (map f (tickets l)) = map ticket_claim (tickets l)"
    using assms(2) by simp_all
  have "mset (map ticket_operation ?ts @ map receipt_operation (receipts l)) =
      mset (map ticket_operation (tickets l) @ map receipt_operation (receipts l))"
    "mset (map ticket_claim ?ts @ map receipt_claim (receipts l)) =
      mset (map ticket_claim (tickets l) @ map receipt_claim (receipts l))"
    unfolding mset_append mset_map mset_sort using ops cls by (metis mset_map)+
  then have "distinct (map ticket_operation ?ts @ map receipt_operation (receipts l)) =
      distinct (map ticket_operation (tickets l) @ map receipt_operation (receipts l))"
    "distinct (map ticket_claim ?ts @ map receipt_claim (receipts l)) =
      distinct (map ticket_claim (tickets l) @ map receipt_claim (receipts l))"
    "set (map ticket_claim ?ts @ map receipt_claim (receipts l)) =
      set (map ticket_claim (tickets l) @ map receipt_claim (receipts l))"
    by (blast dest: mset_eq_imp_distinct_iff mset_eq_setD)+
  moreover have "sorted (map ticket_key ?ts)" by simp
  ultimately have "ticket_inv (authority l) ?ts (receipts l)"
    using lifecycle_okD(6) [OF assms(1)] unfolding ticket_inv_def by blast
  then have "lifecycle_inv (retagged f l)"
    using lifecycle_okD [OF assms(1)] by (simp add: lifecycle_inv_def retagged_def)
  then show "lifecycle_post_init (retagged f l) = Inr (retagged f l)" "lifecycle_ok (retagged f l)"
    using lifecycle_okD [OF assms(1)] assms(2) lifecycle_post_init_iff [of "retagged f l"]
    by (auto simp: lifecycle_ok_def retagged_def)
qed

definition inflight_tag :: "ticket \<Rightarrow> ticket \<Rightarrow> ticket" where
  "inflight_tag t u = (if u = t then t\<lparr>phase := ''inflight''\<rparr> else u)"

definition crash_tag :: "ticket \<Rightarrow> ticket" where
  "crash_tag t = (if phase t = ''inflight'' then t\<lparr>phase := ''uncertain''\<rparr> else t)"

lemma put_inflight_eq:
  assumes "lifecycle_ok l" and "t \<in> set (tickets l)"
  shows "put_inflight l t = Inr (retagged (inflight_tag t) l)"
    and "lifecycle_ok (retagged (inflight_tag t) l)"
proof -
  have t: "ticket_ok (t\<lparr>phase := ''inflight''\<rparr>)"
    using lifecycle_okD(3) [OF assms] by (simp add: ticket_ok_def)
  have tag: "ticket_operation (inflight_tag t u) = ticket_operation u \<and>
      ticket_claim (inflight_tag t u) = ticket_claim u \<and> ticket_ok (inflight_tag t u)"
    if "u \<in> set (tickets l)" for u
    using that t lifecycle_okD(3) [OF assms(1)] by (simp add: inflight_tag_def)
  have "(\<lambda>current. if current = t then t\<lparr>phase := ''inflight''\<rparr> else current) = inflight_tag t"
    by (simp add: inflight_tag_def fun_eq_iff)
  then show "put_inflight l t = Inr (retagged (inflight_tag t) l)"
    using t retagged_ok(1) [OF assms(1) tag] by (simp add: put_inflight_def ticket_post_init_iff retagged_def)
  show "lifecycle_ok (retagged (inflight_tag t) l)" by (rule retagged_ok(2) [OF assms(1) tag])
qed

lemma crash_recover_eq:
  assumes "lifecycle_ok l"
  shows "crash_recover l = Inr (retagged crash_tag l)" and "lifecycle_ok (retagged crash_tag l)"
proof -
  have tag: "ticket_operation (crash_tag u) = ticket_operation u \<and>
      ticket_claim (crash_tag u) = ticket_claim u \<and> ticket_ok (crash_tag u)"
    if "u \<in> set (tickets l)" for u
    using that lifecycle_okD(3) [OF assms] by (auto simp: crash_tag_def ticket_ok_def)
  have "map_r (\<lambda>t. if phase t = ''inflight'' then ticket_post_init (t\<lparr>phase := ''uncertain''\<rparr>) else Inr t)
      (tickets l) = Inr (map crash_tag (tickets l))"
  proof (rule map_r_total)
    fix t assume "t \<in> set (tickets l)"
    then show "(if phase t = ''inflight'' then ticket_post_init (t\<lparr>phase := ''uncertain''\<rparr>) else Inr t) =
        Inr (crash_tag t)"
      using tag [of t] by (auto simp: crash_tag_def ticket_post_init_iff split: if_splits)
  qed
  then show "crash_recover l = Inr (retagged crash_tag l)"
    using retagged_ok(1) [OF assms tag] by (simp add: crash_recover_def retagged_def)
  show "lifecycle_ok (retagged crash_tag l)" by (rule retagged_ok(2) [OF assms tag])
qed

definition settled :: "lifecycle \<Rightarrow> ticket \<Rightarrow> string \<Rightarrow> lifecycle" where
  "settled l t result = l\<lparr>tickets := filter (\<lambda>current. current \<noteq> t) (tickets l),
     receipts := sort_key receipt_key (receipts l @
       [\<lparr>receipt_operation = ticket_operation t, receipt_claim = ticket_claim t, outcome = result\<rparr>])\<rparr>"

lemma settled_ok:
  assumes "lifecycle_ok l" and "t \<in> set (tickets l)" and "result \<noteq> []"
  shows "lifecycle_post_init (settled l t result) = Inr (settled l t result)"
    and "lifecycle_ok (settled l t result)"
proof -
  let ?r = "\<lparr>receipt_operation = ticket_operation t, receipt_claim = ticket_claim t, outcome = result\<rparr>"
  let ?ts = "filter (\<lambda>current. current \<noteq> t) (tickets l)"
  let ?rs = "sort_key receipt_key (receipts l @ [?r])"
  note inv = lifecycle_okD(6) [OF assms(1)]
  have dist: "distinct (tickets l)" using inv by (auto simp: ticket_inv_def distinct_map)
  have ms: "mset (tickets l) = add_mset t (mset ?ts)"
    using dist assms(2) by (rule mset_filter_out)
  have "mset (map ticket_operation ?ts @ map receipt_operation ?rs) =
      mset (map ticket_operation (tickets l) @ map receipt_operation (receipts l))"
    "mset (map ticket_claim ?ts @ map receipt_claim ?rs) =
      mset (map ticket_claim (tickets l) @ map receipt_claim (receipts l))"
    unfolding mset_append mset_map mset_sort ms by simp_all
  then have "distinct (map ticket_operation ?ts @ map receipt_operation ?rs) =
      distinct (map ticket_operation (tickets l) @ map receipt_operation (receipts l))"
    "distinct (map ticket_claim ?ts @ map receipt_claim ?rs) =
      distinct (map ticket_claim (tickets l) @ map receipt_claim (receipts l))"
    "set (map ticket_claim ?ts @ map receipt_claim ?rs) =
      set (map ticket_claim (tickets l) @ map receipt_claim (receipts l))"
    by (blast dest: mset_eq_imp_distinct_iff mset_eq_setD)+
  moreover have "sorted (map ticket_key ?ts)" "sorted (map receipt_key ?rs)"
    using inv by (simp_all add: ticket_inv_def sorted_map_filter)
  ultimately have "ticket_inv (authority l) ?ts ?rs"
    using inv unfolding ticket_inv_def by blast
  then have "lifecycle_inv (settled l t result)"
    using lifecycle_okD [OF assms(1)] by (simp add: lifecycle_inv_def settled_def)
  moreover have "receipt_ok ?r"
    using lifecycle_okD(3) [OF assms(1,2)] assms(3) by (simp add: receipt_ok_def ticket_ok_def)
  ultimately show "lifecycle_post_init (settled l t result) = Inr (settled l t result)"
    "lifecycle_ok (settled l t result)"
    using lifecycle_okD [OF assms(1)] lifecycle_post_init_iff [of "settled l t result"]
    by (auto simp: lifecycle_ok_def settled_def)
qed

section \<open>Revocation and preparation always revalidate\<close>

text \<open>Dropping tentative claims of a state: their identifiers leave the active ones.\<close>

definition kept :: "(claim \<Rightarrow> bool) \<Rightarrow> state \<Rightarrow> state" where
  "kept P a = a\<lparr>conditional := filter P (conditional a)\<rparr>"

definition dropped_ids :: "(claim \<Rightarrow> bool) \<Rightarrow> state \<Rightarrow> string set" where
  "dropped_ids P a = claim_id ` {c \<in> set (conditional a). \<not> P c}"

lemma active_ids_kept:
  assumes "state_ok a"
  shows "active_ids (kept P a) \<union> dropped_ids P a = active_ids a" "active_ids (kept P a) \<inter> dropped_ids P a = {}"
proof -
  have inj: "inj_on claim_id (set (durable a @ conditional a))"
    and disj: "distinct (map claim_id (durable a @ conditional a))"
    using state_okD(5) [OF assms] distinct_map [of claim_id "durable a @ conditional a"] by blast+
  show "active_ids (kept P a) \<union> dropped_ids P a = active_ids a"
    by (auto simp: active_ids_def kept_def dropped_ids_def)
  have "x \<noteq> y" if x: "x \<in> active_ids (kept P a)" and y: "y \<in> dropped_ids P a" for x y
  proof -
    obtain c where c: "x = claim_id c" "c \<in> set (durable a) \<or> c \<in> set (conditional a) \<and> P c"
      using x by (auto simp: active_ids_def kept_def)
    obtain d where d: "y = claim_id d" "d \<in> set (conditional a)" "\<not> P d"
      using y by (auto simp: dropped_ids_def)
    show ?thesis
    proof
      assume "x = y"
      then have "c = d" using inj c d by (auto simp: inj_on_def)
      then show False using c d disj by auto
    qed
  qed
  then show "active_ids (kept P a) \<inter> dropped_ids P a = {}" by blast
qed

lemma epoch_inv_kept:
  assumes "state_ok a" and "epoch_inv a es ce closed terminal" and "closed' \<subseteq> set es"
    and "\<And>d e. d \<in> set (conditional a) \<Longrightarrow> P d \<Longrightarrow> map_of ce (claim_id d) = Some e \<Longrightarrow> e \<notin> closed'"
  shows "epoch_inv (kept P a) es ce closed' (terminal \<union> dropped_ids P a)"
proof -
  have "active_ids (kept P a) \<union> (terminal \<union> dropped_ids P a) = active_ids a \<union> terminal"
    "active_ids (kept P a) \<inter> (terminal \<union> dropped_ids P a) = {}"
    using active_ids_kept [OF assms(1), of P] assms(2) unfolding epoch_inv_def by blast+
  moreover have "\<forall>d\<in>set (conditional (kept P a)). \<forall>e. map_of ce (claim_id d) = Some e \<longrightarrow> e \<notin> closed'"
    using assms(4) by (auto simp: kept_def)
  ultimately show ?thesis using assms(2,3) unfolding epoch_inv_def by simp
qed

lemma authority_inv_kept:
  assumes "state_ok a" and "authority_inv a c tombs"
  shows "authority_inv (kept P a) c tombs"
proof -
  have "solvent (kept P a) F" if "solvent a F" for F
    using that keep_conditional(3) [OF assms(1), of P F] by (auto simp: kept_def solvent_def intro: vle_trans)
  then show ?thesis using assms(2) by (auto simp: authority_inv_def kept_def)
qed

definition revoked :: "lifecycle \<Rightarrow> string \<Rightarrow> lifecycle" where
  "revoked l epoch =
     l\<lparr>authority := kept (\<lambda>c. map_of (claim_epochs l) (claim_id c) \<noteq> Some epoch) (authority l),
       closed_epochs := insert epoch (closed_epochs l),
       terminal_ids := terminal_ids l \<union>
         dropped_ids (\<lambda>c. map_of (claim_epochs l) (claim_id c) \<noteq> Some epoch) (authority l)\<rparr>"

lemma epoch_bound:
  assumes "lifecycle_ok l" and "c \<in> set (conditional (authority l))"
  shows "\<exists>e. map_of (claim_epochs l) (claim_id c) = Some e"
proof -
  have "claim_id c \<in> fst ` set (claim_epochs l)"
    using lifecycle_okD(5) [OF assms(1)] assms(2) by (auto simp: epoch_inv_def active_ids_def)
  then show ?thesis by (metis map_of_eq_None_iff not_None_eq)
qed

lemma revoke_epoch_eq:
  assumes "lifecycle_ok l" and "epoch \<in> set (epochs l)" and "epoch \<notin> closed_epochs l"
  shows "revoke_epoch l epoch = Inr (revoked l epoch)" and "lifecycle_ok (revoked l epoch)"
proof -
  let ?a = "authority l" and ?m = "map_of (claim_epochs l)"
  let ?live = "\<lambda>c. ?m (claim_id c) \<noteq> Some epoch"
  note ok = lifecycle_okD [OF assms(1)]
  have keys: "set (map fst (claim_epochs l)) = active_ids ?a \<union> terminal_ids l"
    using ok(5) by (simp add: epoch_inv_def)
  have the: "the (?m (claim_id c)) = epoch \<longleftrightarrow> \<not> ?live c" if "c \<in> set (conditional ?a)" for c
    using epoch_bound [OF assms(1) that] by auto
  have rev: "filter_r (\<lambda>c. bind_r (dict_get (claim_epochs l) (claim_id c)) (\<lambda>e. Inr (e = epoch)))
      (conditional ?a) = Inr (filter (\<lambda>c. \<not> ?live c) (conditional ?a))"
    unfolding closed_tentative_total [OF keys] using the by (auto intro: filter_cong)
  have ids: "claim_id ` set (filter (\<lambda>c. \<not> ?live c) (conditional ?a)) = dropped_ids ?live ?a"
    by (simp add: dropped_ids_def)
  have "claim_id c \<notin> dropped_ids ?live ?a \<longleftrightarrow> ?live c" if "c \<in> set (conditional ?a)" for c
    using that conditional_id_unique [OF ok(1) that] by (auto simp: dropped_ids_def)
  then have keep: "filter (\<lambda>c. claim_id c \<notin> dropped_ids ?live ?a) (conditional ?a) = filter ?live (conditional ?a)"
    by (rule filter_cong [OF refl])
  have inv: "lifecycle_inv (revoked l epoch)"
    using ok authority_inv_kept [OF ok(1,4), of ?live]
      epoch_inv_kept [OF ok(1,5), of "insert epoch (closed_epochs l)" ?live] assms(2)
    by (auto simp: lifecycle_inv_def revoked_def ticket_inv_def epoch_inv_def kept_def)
  have st: "state_ok (authority (revoked l epoch))"
    using keep_conditional(2) [OF ok(1)] by (simp add: revoked_def kept_def)
  then have post: "lifecycle_post_init (revoked l epoch) = Inr (revoked l epoch)"
    using inv ok(2) lifecycle_post_init_iff [of "revoked l epoch"] by (simp add: revoked_def)
  show "lifecycle_ok (revoked l epoch)"
    using inv st ok by (simp add: lifecycle_ok_def revoked_def)
  show "revoke_epoch l epoch = Inr (revoked l epoch)"
    unfolding revoke_epoch_def rev bind_r_simps Let_def ids keep keep_conditional(1) [OF ok(1)]
    using assms(2,3) post by (simp add: revoked_def kept_def)
qed

definition binding_claims :: "binding list \<Rightarrow> string list" where
  "binding_claims bindings = map (\<lambda>(cid, _, _). cid) bindings"

definition binding_operations :: "binding list \<Rightarrow> string list" where
  "binding_operations bindings = map (\<lambda>(_, oid, _). oid) bindings"

definition new_tickets :: "binding list \<Rightarrow> ticket list" where
  "new_tickets bindings = map (\<lambda>(cid, oid, mode).
     \<lparr>ticket_operation = oid, ticket_claim = cid, phase = ''prepared'', retry_mode = mode\<rparr>) bindings"

text \<open>What a proposal to prepare must meet besides fitting into the grant.\<close>

definition prepare_ready :: "lifecycle \<Rightarrow> binding list \<Rightarrow> string \<Rightarrow> bool" where
  "prepare_ready l bindings gid \<longleftrightarrow>
     bindings \<noteq> [] \<and> distinct (binding_claims bindings) \<and> distinct (binding_operations bindings) \<and>
     set (binding_operations bindings) \<inter> set (used_operations l) = {} \<and>
     set (binding_claims bindings) \<subseteq> tentative_ids (authority l) \<and>
     [] \<notin> set (binding_operations bindings) \<and>
     (\<forall>(_, _, mode)\<in>set bindings. mode \<in> {''deduplicated'', ''aggregate-bounded''}) \<and>
     gid \<noteq> [] \<and> gid \<notin> guard_id ` set (guards (lcontract l))"

definition repaired_contract :: "lifecycle \<Rightarrow> string set \<Rightarrow> string \<Rightarrow> contract" where
  "repaired_contract l ids gid =
     (lcontract l)\<lparr>guards := guards (lcontract l) @ [exact_guard (promoted (authority l) ids) gid]\<rparr>"

definition prepared :: "lifecycle \<Rightarrow> binding list \<Rightarrow> string \<Rightarrow> lifecycle" where
  "prepared l bindings gid =
     (let p = promoted (authority l) (set (binding_claims bindings));
          c = repaired_contract l (set (binding_claims bindings)) gid;
          live = owned_in (family_union (csupport c)) in
      l\<lparr>authority := kept live p, lcontract := c,
        tickets := sort_key ticket_key (tickets l @ new_tickets bindings),
        terminal_ids := terminal_ids l \<union> dropped_ids live p,
        tombstones := tombstones l \<union> (owners p - family_union (csupport c))\<rparr>)"

lemma new_tickets_simps [simp]:
  "map ticket_operation (new_tickets bs) = binding_operations bs"
  "map ticket_claim (new_tickets bs) = binding_claims bs"
  by (simp_all add: new_tickets_def binding_operations_def binding_claims_def case_prod_beta comp_def)

lemma ids_nonempty: "state_ok s \<Longrightarrow> cid \<in> tentative_ids s \<Longrightarrow> cid \<noteq> []"
  using state_ok_weights [of s] by (auto simp: tentative_ids_def)

lemma new_tickets_ok:
  assumes "state_ok (authority l)" and "prepare_ready l bs gid" and "t \<in> set (new_tickets bs)"
  shows "ticket_ok t" "phase t = ''prepared''"
proof -
  obtain cid oid mode where b: "(cid, oid, mode) \<in> set bs" and
    t: "t = \<lparr>ticket_operation = oid, ticket_claim = cid, phase = ''prepared'', retry_mode = mode\<rparr>"
    using assms(3) by (auto simp: new_tickets_def)
  have "cid \<in> set (binding_claims bs)" "oid \<in> set (binding_operations bs)"
    using b by (force simp: binding_claims_def binding_operations_def)+
  then show "ticket_ok t" "phase t = ''prepared''"
    using assms(2) b t ids_nonempty [OF assms(1)]
    by (auto simp: prepare_ready_def ticket_ok_def split: prod.splits)
qed

lemma map_new_tickets:
  assumes "state_ok (authority l)" and "prepare_ready l bs gid"
  shows "map_r (\<lambda>(cid, oid, mode). ticket_post_init
      \<lparr>ticket_operation = oid, ticket_claim = cid, phase = ''prepared'', retry_mode = mode\<rparr>) bs =
    Inr (new_tickets bs)"
  unfolding new_tickets_def
proof (rule map_r_total)
  fix b assume "b \<in> set bs"
  then have "(\<lambda>(cid, oid, mode). \<lparr>ticket_operation = oid, ticket_claim = cid, phase = ''prepared'',
      retry_mode = mode\<rparr>) b \<in> set (new_tickets bs)"
    by (simp add: new_tickets_def)
  from new_tickets_ok(1) [OF assms this] show "(case b of (cid, oid, mode) \<Rightarrow> ticket_post_init
      \<lparr>ticket_operation = oid, ticket_claim = cid, phase = ''prepared'', retry_mode = mode\<rparr>) =
      Inr (case b of (cid, oid, mode) \<Rightarrow>
      \<lparr>ticket_operation = oid, ticket_claim = cid, phase = ''prepared'', retry_mode = mode\<rparr>)"
    by (simp add: ticket_post_init_iff split: prod.splits)
qed

lemma promoted_sets:
  "set (durable (promoted s ids)) = set (durable s) \<union> {c \<in> set (conditional s). claim_id c \<in> ids}"
  "set (conditional (promoted s ids)) = {c \<in> set (conditional s). claim_id c \<notin> ids}"
  "active_ids (promoted s ids) = active_ids s" "frontiers (promoted s ids) = frontiers s"
  "grant (promoted s ids) = grant s"
  by (auto simp: promoted_def rebuilt_def active_ids_def)

lemma owners_subset:
  assumes "lifecycle_ok l"
  shows "owners (authority l) \<subseteq> family_union (csupport (lcontract l))"
    "family_union (csupport (lcontract l)) \<subseteq> supported_branches (authority l)"
proof -
  show "owners (authority l) \<subseteq> family_union (csupport (lcontract l))"
    using lifecycle_okD(4) [OF assms] by (force simp: owners_def authority_inv_def)
  show "family_union (csupport (lcontract l)) \<subseteq> supported_branches (authority l)"
    using lifecycle_okD(8) [OF assms] by (auto simp: family_union_def supported_branches_def callows_def)
qed

lemma disjoint_subset: "A \<subseteq> D \<Longrightarrow> C \<inter> D = {} \<Longrightarrow> C \<inter> A = {}"
  by blast

lemma disjoint_insert_middle:
  "A \<inter> B = {} \<Longrightarrow> C \<inter> (A \<union> B) = {} \<Longrightarrow> C \<inter> B = {} \<and> A \<inter> (C \<union> B) = {}"
  by blast

lemma ticket_inv_prepared:
  assumes "ticket_inv a ts rs" and "distinct (map ticket_operation ns)" and "distinct (map ticket_claim ns)"
    and "ticket_operation ` set ns \<inter> (ticket_operation ` set ts \<union> receipt_operation ` set rs) = {}"
    and "ticket_claim ` set ns \<inter> claim_id ` set (durable a) = {}"
    and "claim_id ` set (durable a) \<union> ticket_claim ` set ns \<subseteq> claim_id ` set (durable b)"
  shows "ticket_inv b (sort_key ticket_key (ts @ ns)) rs"
proof -
  let ?ts = "sort_key ticket_key (ts @ ns)"
  have sub: "ticket_claim ` set ts \<union> receipt_claim ` set rs \<subseteq> claim_id ` set (durable a)"
    using assms(1) by (simp add: ticket_inv_def)
  then have new: "ticket_claim ` set ns \<inter> (ticket_claim ` set ts \<union> receipt_claim ` set rs) = {}"
    using assms(5) by (rule disjoint_subset)
  have old: "distinct (map ticket_operation ts)" "distinct (map receipt_operation rs)"
    "ticket_operation ` set ts \<inter> receipt_operation ` set rs = {}"
    "distinct (map ticket_claim ts)" "distinct (map receipt_claim rs)"
    "ticket_claim ` set ts \<inter> receipt_claim ` set rs = {}"
    using assms(1) by (simp_all add: ticket_inv_def)
  have perm: "mset (map f ?ts @ xs) = mset (map f (ts @ ns) @ xs)" for f and xs :: "string list" by simp
  have "ticket_operation ` set ns \<inter> receipt_operation ` set rs = {}"
    "ticket_operation ` set ts \<inter> (ticket_operation ` set ns \<union> receipt_operation ` set rs) = {}"
    using disjoint_insert_middle [OF old(3) assms(4)] by simp_all
  then have "distinct (map ticket_operation (ts @ ns) @ map receipt_operation rs)"
    using old(1,2) assms(2) by (simp add: image_Un)
  then have "distinct (map ticket_operation ?ts @ map receipt_operation rs)"
    by (rule iffD2 [OF mset_eq_imp_distinct_iff [OF perm]])
  moreover have "ticket_claim ` set ns \<inter> receipt_claim ` set rs = {}"
    "ticket_claim ` set ts \<inter> (ticket_claim ` set ns \<union> receipt_claim ` set rs) = {}"
    using disjoint_insert_middle [OF old(6) new] by simp_all
  then have "distinct (map ticket_claim (ts @ ns) @ map receipt_claim rs)"
    using old(4,5) assms(3) by (simp add: image_Un)
  then have "distinct (map ticket_claim ?ts @ map receipt_claim rs)"
    by (rule iffD2 [OF mset_eq_imp_distinct_iff [OF perm]])
  moreover have "set (map ticket_claim ?ts @ map receipt_claim rs) \<subseteq> claim_id ` set (durable b)"
    using sub assms(6) by (simp add: image_Un) (meson order_trans)
  ultimately show ?thesis using assms(1) by (simp only: ticket_inv_def sorted_sort_key simp_thms)
qed

lemma authority_inv_prepared:
  assumes "lifecycle_ok l" and "[] \<notin> supported_branches (authority l)"
    and "p = promoted (authority l) ids" and "contract_ok c" and "base_frontiers c = base_frontiers (lcontract l)"
    and "\<And>F. callows c F \<longleftrightarrow> callows (lcontract l) F \<and> solvent p F"
  shows "authority_inv (kept (owned_in (family_union (csupport c))) p) c
     (tombstones l \<union> (owners p - family_union (csupport c)))"
proof -
  let ?live = "family_union (csupport c)"
  let ?a = "kept (owned_in ?live) p"
  note ok = lifecycle_okD [OF assms(1)]
  have p: "state_ok p" unfolding assms(3) by (rule promoted_ok [OF ok(1)])
  have live: "?live \<subseteq> family_union (csupport (lcontract l))"
    using assms(6) by (auto simp: family_union_def)
  have own: "owners p \<subseteq> owners (authority l)"
    using promoted_sets(2) [of "authority l" ids] by (auto simp: owners_def assms(3))
  have "set (frontiers ?a) = set (base_frontiers c)"
    using ok(8) assms(5) promoted_sets(4) by (simp add: kept_def assms(3))
  moreover have "solvent ?a F" if "callows c F" for F
    using that assms(6) keep_conditional(3) [OF p, of "owned_in ?live" F]
    by (auto simp: kept_def solvent_def intro: vle_trans)
  moreover have "[] \<notin> tombstones l \<union> (owners p - ?live)"
    using ok(4) own owners_subset [OF assms(1)] assms(2) by (auto simp: authority_inv_def)
  moreover have "\<not> owned_in (tombstones l \<union> (owners p - ?live)) d" if "d \<in> set (conditional ?a)" for d
  proof -
    have "owned_in ?live d" "d \<in> set (conditional p)" using that by (simp_all add: kept_def)
    then show ?thesis using live ok(4)
      by (auto simp: owned_in_def authority_inv_def split: option.splits)
  qed
  moreover have "?live \<inter> (tombstones l \<union> (owners p - ?live)) = {}"
    using live ok(4) by (auto simp: authority_inv_def)
  ultimately show ?thesis by (simp add: authority_inv_def kept_def)
qed

lemma prepared_ok:
  assumes "lifecycle_ok l" and "[] \<notin> supported_branches (authority l)" and "prepare_ready l bs gid"
    and "vle (ddemand (promoted (authority l) (set (binding_claims bs)))) (grant (authority l))"
  shows "lifecycle_post_init (prepared l bs gid) = Inr (prepared l bs gid)"
    and "lifecycle_ok (prepared l bs gid)"
proof -
  let ?ids = "set (binding_claims bs)"
  let ?p = "promoted (authority l) ?ids" and ?c = "repaired_contract l ?ids gid"
  let ?live = "owned_in (family_union (csupport ?c))"
  note ok = lifecycle_okD [OF assms(1)]
  note ready = assms(3) [unfolded prepare_ready_def]
  have p: "state_ok ?p" by (rule promoted_ok [OF ok(1)])
  have fr: "set (frontiers ?p) = set (base_frontiers (lcontract l))" using ok(8) by (simp add: promoted_sets)
  have le: "vle (ddemand ?p) (grant ?p)" using assms(4) by (simp add: promoted_sets)
  have gid: "gid \<noteq> []" "gid \<notin> guard_id ` set (guards (lcontract l))" using ready by blast+
  note c = install_exact_repair_eq(2,3) [OF p ok(2) fr gid le, folded repaired_contract_def]
  have a: "state_ok (kept ?live ?p)" unfolding kept_def by (rule keep_conditional(2) [OF p])
  have auth: "authority_inv (kept ?live ?p) ?c (tombstones l \<union> (owners ?p - family_union (csupport ?c)))"
    using c by (intro authority_inv_prepared [OF assms(1,2) refl]) (simp_all add: repaired_contract_def)
  have ep: "epoch_inv (kept ?live ?p) (epochs l) (claim_epochs l) (closed_epochs l)
      (terminal_ids l \<union> dropped_ids ?live ?p)"
  proof (rule epoch_inv_kept [OF p])
    show "epoch_inv ?p (epochs l) (claim_epochs l) (closed_epochs l) (terminal_ids l)"
      using ok(5) unfolding epoch_inv_def promoted_sets by blast
    show "closed_epochs l \<subseteq> set (epochs l)" using ok(5) by (simp add: epoch_inv_def)
    show "e \<notin> closed_epochs l" if "d \<in> set (conditional ?p)" "map_of (claim_epochs l) (claim_id d) = Some e" for d e
      using ok(5) that unfolding epoch_inv_def promoted_sets by blast
  qed
  have new: "ticket_claim ` set (new_tickets bs) = ?ids"
    "ticket_operation ` set (new_tickets bs) = set (binding_operations bs)"
    by (simp_all flip: set_map)
  have "claim_id ` set (durable (authority l)) \<inter> tentative_ids (authority l) = {}"
    using state_okD(5) [OF ok(1)] by (simp add: tentative_ids_def)
  then have fresh: "ticket_claim ` set (new_tickets bs) \<inter> claim_id ` set (durable (authority l)) = {}"
    using ready unfolding new by blast
  have sealed: "claim_id ` set (durable (authority l)) \<union> ?ids \<subseteq> claim_id ` set (durable (kept ?live ?p))"
    using ready by (auto simp: promoted_sets tentative_ids_def kept_def)
  have tick: "ticket_inv (kept ?live ?p) (sort_key ticket_key (tickets l @ new_tickets bs)) (receipts l)"
  proof (rule ticket_inv_prepared [OF ok(6) _ _ _ fresh])
    show "distinct (map ticket_operation (new_tickets bs))" "distinct (map ticket_claim (new_tickets bs))"
      using ready by simp_all
    show "ticket_operation ` set (new_tickets bs) \<inter>
        (ticket_operation ` set (tickets l) \<union> receipt_operation ` set (receipts l)) = {}"
      using ready unfolding new by (simp add: used_operations_def)
    show "claim_id ` set (durable (authority l)) \<union> ticket_claim ` set (new_tickets bs) \<subseteq>
        claim_id ` set (durable (kept ?live ?p))"
      unfolding new by (rule sealed)
  qed
  have inv: "lifecycle_inv (prepared l bs gid)"
    using auth ep tick by (simp add: lifecycle_inv_def prepared_def Let_def)
  show "lifecycle_ok (prepared l bs gid)"
    using inv a c(1) ok new_tickets_ok(1) [OF ok(1) assms(3)]
    by (auto simp: lifecycle_ok_def prepared_def Let_def)
  show "lifecycle_post_init (prepared l bs gid) = Inr (prepared l bs gid)"
    using inv a c(1) lifecycle_post_init_iff [of "prepared l bs gid"] by (simp add: prepared_def Let_def)
qed

lemma prepare_guards_pass:
  assumes "lifecycle_ok l" and "set claim_ids \<subseteq> tentative_ids (authority l)"
  shows "\<not> (\<exists>c\<in>set (conditional (authority l)). claim_id c \<in> set claim_ids \<and>
      owner_closed l c)"
    and "filter_r (\<lambda>cid. bind_r (dict_get (claim_epochs l) cid) (\<lambda>e. Inr (e \<in> closed_epochs l))) claim_ids = Inr []"
proof -
  note ok = lifecycle_okD [OF assms(1)]
  show "\<not> (\<exists>c\<in>set (conditional (authority l)). claim_id c \<in> set claim_ids \<and>
      owner_closed l c)"
    using ok(4) by (auto simp: authority_inv_def owner_closed_def branch_is_open_def split: option.splits)
  have "bind_r (dict_get (claim_epochs l) cid) (\<lambda>e. Inr (e \<in> closed_epochs l)) = Inr False"
    if cid: "cid \<in> set claim_ids" for cid
  proof -
    obtain c where c: "c \<in> set (conditional (authority l))" "cid = claim_id c"
      using cid assms(2) by (auto simp: tentative_ids_def)
    obtain e where e: "map_of (claim_epochs l) cid = Some e" using epoch_bound [OF assms(1) c(1)] c(2) by blast
    then have "e \<notin> closed_epochs l" using ok(5) c unfolding epoch_inv_def by blast
    then show ?thesis using e by simp
  qed
  then show "filter_r (\<lambda>cid. bind_r (dict_get (claim_epochs l) cid) (\<lambda>e. Inr (e \<in> closed_epochs l))) claim_ids = Inr []"
    using filter_r_total [of claim_ids _ "\<lambda>_. False"] by simp
qed

lemma prepare_cleanup:
  assumes "state_ok p" and "contract_ok c" and "set (base_frontiers c) = set (frontiers p)"
  shows "cleanup_unsupported_owners p (csupport c) = Inr
    \<lparr>cleanup_state = kept (owned_in (family_union (csupport c))) p,
     cleanup_tombstoned = owners p - family_union (csupport c),
     cleanup_terminal = dropped_ids (owned_in (family_union (csupport c))) p\<rparr>"
proof -
  have "tentative_ids p - tentative_ids (cleaned p (csupport c)) =
      dropped_ids (owned_in (family_union (csupport c))) p"
    using removed_ids [OF assms(1), of "owned_in (family_union (csupport c))"]
    by (simp add: dropped_ids_def cleaned_def tentative_ids_def)
  moreover have "cleaned p (csupport c) = kept (owned_in (family_union (csupport c))) p"
    by (simp add: cleaned_def kept_def)
  ultimately show ?thesis
    using cleanup_eq [OF assms(1), of "csupport c"] csupport_closed [OF assms(2)] assms(3)
    by (simp add: owners_def)
qed

lemma prepare_operations_eq:
  assumes "lifecycle_ok l" and "[] \<notin> supported_branches (authority l)" and "prepare_ready l bs gid"
  shows "prepare_operations l bs gid =
    (if vle (ddemand (promoted (authority l) (set (binding_claims bs)))) (grant (authority l))
     then Inr (prepared l bs gid)
     else Inl (LifecycleRejected ''durable demand exceeds the grant; even the empty frontier is unsafe''))"
proof -
  let ?ids = "binding_claims bs"
  let ?p = "promoted (authority l) (set ?ids)" and ?c = "repaired_contract l (set ?ids) gid"
  note ok = lifecycle_okD [OF assms(1)]
  note ready = assms(3) [unfolded prepare_ready_def]
  have ids: "?ids \<noteq> []" "set ?ids \<subseteq> tentative_ids (authority l)"
    using ready by (simp_all add: binding_claims_def)
  have gid: "gid \<noteq> []" "gid \<notin> guard_id ` set (guards (lcontract l))" using ready by blast+
  have plain: "promote_plain (authority l) ?ids = Inr ?p"
    using ids by (simp add: promote_plain_eq [OF ok(1)])
  note prom = promote_with_exact_guard_eq [OF ok(1,2,8) gid plain, folded repaired_contract_def, unfolded promoted_sets]
  have p: "state_ok ?p" by (rule promoted_ok [OF ok(1)])
  have fr: "set (frontiers ?p) = set (base_frontiers (lcontract l))" using ok(8) by (simp add: promoted_sets)
  have start: "prepare_operations l bs gid =
      bind_r (rethrow LifecycleRejected (promote_with_exact_guard (authority l) (lcontract l) ?ids gid))
        (\<lambda>(promoted, repaired). bind_r (support repaired) (\<lambda>supp.
         bind_r (cleanup_unsupported_owners promoted supp) (\<lambda>cleanup.
         lifecycle_post_init (l\<lparr>authority := cleanup_state cleanup, lcontract := repaired,
           tickets := sort_key ticket_key (tickets l @ new_tickets bs),
           terminal_ids := terminal_ids l \<union> cleanup_terminal cleanup,
           tombstones := tombstones l \<union> cleanup_tombstoned cleanup\<rparr>))))"
    using ready
    unfolding prepare_operations_def Let_def map_new_tickets [OF ok(1) assms(3)] bind_r_simps
      binding_claims_def [symmetric] binding_operations_def [symmetric] tentative_ids_def
      if_not_P [OF prepare_guards_pass(1) [OF assms(1) ids(2)]] prepare_guards_pass(2) [OF assms(1) ids(2)]
    by simp
  show ?thesis
  proof (cases "vle (ddemand ?p) (grant (authority l))")
    case True
    have le: "vle (ddemand ?p) (grant ?p)" using True by (simp add: promoted_sets)
    note c = install_exact_repair_eq(2) [OF p ok(2) fr gid le, folded repaired_contract_def]
    have base: "set (base_frontiers ?c) = set (frontiers ?p)" using fr by (simp add: repaired_contract_def)
    show ?thesis
      unfolding start prom using True prepare_cleanup [OF p c base] support_total [OF c]
        prepared_ok(1) [OF assms True]
      by (simp add: prepared_def Let_def)
  next
    case False
    then show ?thesis unfolding start prom by simp
  qed
qed

section \<open>Refinement always revalidates\<close>

definition keeps :: "branch \<Rightarrow> (string \<times> branch) list \<Rightarrow> claim \<Rightarrow> bool" where
  "keeps old tr c \<longleftrightarrow> claim_branch c \<noteq> Some old \<or> claim_id c \<in> fst ` set tr"

definition move :: "branch \<Rightarrow> (string \<times> branch) list \<Rightarrow> claim \<Rightarrow> claim" where
  "move old tr c =
     (if claim_branch c = Some old then c\<lparr>claim_branch := Some (the (map_of tr (claim_id c)))\<rparr> else c)"

definition refined_state :: "state \<Rightarrow> branch \<Rightarrow> (string \<times> branch) list \<Rightarrow> family \<Rightarrow> state" where
  "refined_state a old tr fam =
     rebuilt a (durable a) (map (move old tr) (filter (keeps old tr) (conditional a))) fam"

text \<open>What a proposed refinement must meet.\<close>

definition refine_ready :: "lifecycle \<Rightarrow> branch \<Rightarrow> branch list \<Rightarrow> (string \<times> branch) list \<Rightarrow> bool \<Rightarrow> bool" where
  "refine_ready l old children tr tombstone_old \<longleftrightarrow>
     leaf_ok (lcontract l) old children \<and> set children \<inter> tombstones l = {} \<and> distinct (map fst tr) \<and>
     fst ` set tr \<subseteq> claim_id ` {c \<in> set (conditional (authority l)). claim_branch c = Some old} \<and>
     snd ` set tr \<subseteq> set children \<and> (tombstone_old \<longrightarrow> old \<notin> set children)"

lemma concat_transfer:
  "concat (map (transfer_claim old tr) cs) = map (move old tr) (filter (keeps old tr) cs)"
proof (induction cs)
  case (Cons c cs)
  have "transfer_claim old tr c = (if keeps old tr c then [move old tr c] else [])"
    by (auto simp: transfer_claim_def keeps_def move_def map_of_eq_None_iff split: option.splits)
      (metis fst_conv imageI map_of_SomeD)
  then show ?case using Cons by simp
qed simp

lemma move_simps [simp]:
  "claim_id (move old tr c) = claim_id c" "claim_weight (move old tr c) = claim_weight c"
  "claim_ok (move old tr c) = claim_ok c"
  by (simp_all add: move_def claim_ok_def)

lemma move_branch:
  assumes "distinct (map fst tr)" and "keeps old tr c" and "claim_branch c = Some old"
  shows "\<exists>b\<in>snd ` set tr. claim_branch (move old tr c) = Some b"
proof -
  have "claim_id c \<in> fst ` set tr" using assms by (simp add: keeps_def)
  then obtain b where "(claim_id c, b) \<in> set tr" by auto
  then have "map_of tr (claim_id c) = Some b" using assms(1) by simp
  then show ?thesis using assms(3) \<open>(claim_id c, b) \<in> set tr\<close> by (force simp: move_def)
qed

lemma move_other: "claim_branch c \<noteq> Some old \<Longrightarrow> move old tr c = c"
  by (simp add: move_def)

lemma refined_state_ok:
  assumes "state_ok a" and "family_ok fam" and "is_downward_closed fam" and "distinct (map fst tr)"
  shows "make_state (grant a) (durable a) (concat (map (transfer_claim old tr) (conditional a))) fam =
      Inr (refined_state a old tr fam)"
    and "state_ok (refined_state a old tr fam)"
proof -
  let ?q = "map (move old tr) (filter (keeps old tr) (conditional a))"
  have "map claim_id ?q = map claim_id (filter (keeps old tr) (conditional a))" by simp
  moreover have "distinct (map claim_id (durable a @ conditional a))" using assms(1) by (rule state_okD)
  ultimately have dist: "distinct (map claim_id (durable a @ ?q))"
    by (auto simp: distinct_map_filter comp_def)
  have weights: "claim_ok c \<and> length (claim_weight c) = dimension a" if "c \<in> set (durable a) \<union> set ?q" for c
    using that assms(1) by (auto simp: state_ok_def state_inv_def)
  have branch: "claim_branch c \<noteq> None" if "c \<in> set ?q" for c
    using that state_okD(8) [OF assms(1)] by (auto simp: move_def split: if_splits)
  show "make_state (grant a) (durable a) (concat (map (transfer_claim old tr) (conditional a))) fam =
      Inr (refined_state a old tr fam)"
    unfolding concat_transfer refined_state_def
    by (rule make_state_rebuilt(1) [OF assms(1) weights dist branch assms(2,3)])
  show "state_ok (refined_state a old tr fam)"
    unfolding refined_state_def
    by (rule make_state_rebuilt(2) [OF assms(1) weights dist branch assms(2,3)])
qed

lemma refined_state_simps [simp]:
  "grant (refined_state a old tr fam) = grant a" "frontiers (refined_state a old tr fam) = fam"
  "set (durable (refined_state a old tr fam)) = set (durable a)"
  "set (conditional (refined_state a old tr fam)) = move old tr ` {c \<in> set (conditional a). keeps old tr c}"
  by (simp_all add: refined_state_def rebuilt_def)

lemma owned_move_project:
  assumes "owned_in F (move old tr c)" and "keeps old tr c" and "distinct (map fst tr)"
    and "snd ` set tr \<subseteq> ds" and "\<And>b. claim_branch c = Some b \<Longrightarrow> b \<noteq> old \<Longrightarrow> b \<notin> ds"
  shows "owned_in (project old ds F) c"
proof (cases "claim_branch c = Some old")
  case True
  obtain b where "b \<in> snd ` set tr" "claim_branch (move old tr c) = Some b"
    using move_branch [OF assms(3,2) True] by blast
  then have "F \<inter> ds \<noteq> {}" using assms(1,4) by auto
  then show ?thesis using True by (simp add: project_def)
next
  case False
  then obtain b where b: "claim_branch c = Some b" "b \<in> F" "b \<noteq> old"
    using assms(1) by (auto simp: move_other owned_in_def split: option.splits)
  then show ?thesis using assms(5) by (simp add: project_def)
qed

lemma load_refined_state:
  assumes "state_ok a" and "\<And>c. c \<in> set (conditional a) \<Longrightarrow> keeps old tr c \<Longrightarrow> owned_in F (move old tr c) \<Longrightarrow>
     owned_in F' c"
  shows "vle (load (refined_state a old tr fam) F) (load a F')"
proof -
  have "(\<Sum>c\<leftarrow>filter (\<lambda>c. keeps old tr c \<and> owned_in F (move old tr c)) (conditional a). claim_weight c ! i)
      \<le> (\<Sum>c\<leftarrow>filter (owned_in F') (conditional a). claim_weight c ! i)" if "i < dimension a" for i
    using that assms state_ok_weights [OF assms(1)]
    by (intro sum_list_filter_mono) (auto intro: nonneg_nth)
  then show ?thesis unfolding refined_state_def load_rebuilt
    by (auto simp: vle_def load_def ddemand_def qdemand_def dimension_def filter_map comp_def conj_commute)
qed

lemma projected_eq [simp]: "projected old ds F = project old ds F"
  by (simp add: projected_def project_def)

lemma callows_refined_iff:
  assumes "contract_ok c" and "leaf_ok c old ds" and "guards_scoped c"
  shows "callows (refined c old ds parallel) F \<longleftrightarrow>
    F \<in> set (refined_base c old ds parallel) \<and> callows c (project old (set ds) F)"
proof
  assume "callows (refined c old ds parallel) F"
  then show "F \<in> set (refined_base c old ds parallel) \<and> callows c (project old (set ds) F)"
    using callows_refined_project [OF assms(1,2)] by (simp add: callows_def refined_def)
next
  assume F: "F \<in> set (refined_base c old ds parallel) \<and> callows c (project old (set ds) F)"
  then have old: "old \<in> F \<longrightarrow> old \<in> set ds" using set_refined_base [OF assms(1,2)] by blast
  have "gallows (refined_guard old (set ds) g) F" if g: "g \<in> set (guards c)" for g
  proof -
    have "\<forall>t\<in>set (terms g). descendants t \<inter> (set ds - {old}) = {}"
      using assms(2,3) g unfolding guards_scoped_def leaf_ok_def by blast
    then have "gcharge (refined_guard old (set ds) g) F = gcharge g (project old (set ds) F)"
      by (rule gcharge_refined_eq [OF old])
    then show ?thesis using F g by (simp add: gallows_def callows_def)
  qed
  then show "callows (refined c old ds parallel) F" using F by (simp add: callows_def refined_def)
qed

text \<open>Branches that were supported before keep support, and each new child gets it.\<close>

lemma refined_support:
  assumes "contract_ok c" and "leaf_ok c old ds" and "guards_scoped c" and "b \<in> family_union (csupport c)"
  shows "b \<noteq> old \<Longrightarrow> b \<in> family_union (csupport (refined c old ds parallel))"
    and "b = old \<Longrightarrow> child \<in> set ds \<Longrightarrow> child \<in> family_union (csupport (refined c old ds parallel))"
proof -
  obtain F where F: "callows c F" "b \<in> F" using assms(4) by (auto simp: family_union_def)
  have base: "is_downward_closed (base_frontiers c)" "family_ok (base_frontiers c)"
    using assms(1) by (auto simp: contract_ok_def contract_inv_def)
  have sub: "callows c S" if "S \<subseteq> F" for S
    using that F(1) downward_closed_subset [OF csupport_closed(2,1) [OF assms(1)], of F S] by simp
  have fresh: "F \<inter> (set ds - {old}) = {}"
    using F(1) assms(2) unfolding leaf_ok_def callows_def family_union_def by blast
  have in_support: "x \<in> family_union (csupport (refined c old ds parallel))"
    if "callows c (project old (set ds) {x})" "{x} \<inter> set ds \<in> set (local_frontiers ds parallel)"
      "x = old \<longrightarrow> old \<in> set ds" for x
  proof -
    have "{x} \<in> set (refined_base c old ds parallel)"
      using that set_refined_base [OF assms(1,2), of "{x}" parallel] by (auto simp: callows_def)
    then have "callows (refined c old ds parallel) {x}"
      using that(1) callows_refined_iff [OF assms(1-3)] by blast
    then show ?thesis by (force simp: family_union_def)
  qed
  show "b \<in> family_union (csupport (refined c old ds parallel))" if "b \<noteq> old"
  proof (rule in_support)
    have "b \<notin> set ds" using that F(2) fresh by blast
    then show "callows c (project old (set ds) {b})" "{b} \<inter> set ds \<in> set (local_frontiers ds parallel)"
      using sub [of "{b}"] F(2) by (simp_all add: project_def Diff_triv)
    show "b = old \<longrightarrow> old \<in> set ds" using that by blast
  qed
  show "child \<in> family_union (csupport (refined c old ds parallel))" if "b = old" "child \<in> set ds"
  proof (rule in_support)
    show "callows c (project old (set ds) {child})"
      using sub [of "{old}"] F(2) that by (simp add: project_def)
    show "{child} \<inter> set ds \<in> set (local_frontiers ds parallel)"
      using that(2) by (simp add: local_frontiers_def)
    show "child = old \<longrightarrow> old \<in> set ds" using that(2) by blast
  qed
qed

lemma refined_branch_source:
  assumes "contract_ok c" and "leaf_ok c old ds" and "callows (refined c old ds parallel) F" and "b \<in> F"
  shows "b \<in> set ds \<or> b \<noteq> old \<and> b \<in> family_union (csupport c)"
proof -
  have "F \<in> set (refined_base c old ds parallel)" using assms(3) by (simp add: callows_def refined_def)
  then have "old \<in> F \<longrightarrow> old \<in> set ds" using set_refined_base [OF assms(1,2)] by blast
  moreover have "callows c (project old (set ds) F)" by (rule callows_refined_project [OF assms(1-3)])
  moreover have "b \<in> project old (set ds) F" if "b \<notin> set ds" using that assms(4) by (simp add: project_def)
  ultimately show ?thesis using assms(4) by (auto simp: family_union_def)
qed

lemma refine_owner_outside:
  assumes "lifecycle_ok l" and "leaf_ok (lcontract l) old ds" and "c \<in> set (conditional (authority l))"
    and "claim_branch c = Some b" and "b \<noteq> old"
  shows "b \<notin> set ds"
proof -
  have "b \<in> owners (authority l)" using assms(3,4) by (auto simp: owners_def)
  then have "b \<in> family_union (base_frontiers (lcontract l))"
    using owners_subset [OF assms(1)] lifecycle_okD(8) [OF assms(1)]
    unfolding supported_branches_def family_union_def by (metis subsetD)
  then show ?thesis using assms(2,5) unfolding leaf_ok_def by blast
qed

lemma load_refined_project:
  assumes "lifecycle_ok l" and "refine_ready l old ds tr tombstone_old"
  shows "vle (load (refined_state (authority l) old tr fam) F) (load (authority l) (project old (set ds) F))"
proof (rule load_refined_state)
  show "state_ok (authority l)" by (rule lifecycle_okD [OF assms(1)])
  fix c assume c: "c \<in> set (conditional (authority l))" "keeps old tr c" "owned_in F (move old tr c)"
  show "owned_in (project old (set ds) F) c"
  proof (rule owned_move_project [OF c(3,2)])
    show "distinct (map fst tr)" "snd ` set tr \<subseteq> set ds" using assms(2) unfolding refine_ready_def by blast+
    show "b \<notin> set ds" if "claim_branch c = Some b" "b \<noteq> old" for b
      using refine_owner_outside [OF assms(1) _ c(1) that] assms(2) unfolding refine_ready_def by blast
  qed
qed

lemma authority_inv_refined:
  assumes "lifecycle_ok l" and "guards_scoped (lcontract l)" and "[] \<notin> supported_branches (authority l)"
    and "refine_ready l old ds tr tombstone_old"
  shows "authority_inv (refined_state (authority l) old tr (refined_base (lcontract l) old ds parallel))
    (refined (lcontract l) old ds parallel) (tombstones l \<union> (if tombstone_old then {old} else {}))"
proof -
  let ?c = "refined (lcontract l) old ds parallel"
  let ?a = "refined_state (authority l) old tr (refined_base (lcontract l) old ds parallel)"
  let ?T = "tombstones l \<union> (if tombstone_old then {old} else {})"
  note ok = lifecycle_okD [OF assms(1)]
  note inv = ok(4) [unfolded authority_inv_def]
  note ready = assms(4) [unfolded refine_ready_def]
  have leaf: "leaf_ok (lcontract l) old ds" using ready by blast
  have "solvent ?a F" if "callows ?c F" for F
  proof -
    have "callows (lcontract l) (project old (set ds) F)" by (rule callows_refined_project [OF ok(2) leaf that])
    then have "solvent (authority l) (project old (set ds) F)" using inv by blast
    then show ?thesis using load_refined_project [OF assms(1,4)] by (auto simp: solvent_def intro: vle_trans)
  qed
  moreover have "owned_in (family_union (csupport ?c)) d \<and> \<not> owned_in ?T d" if d: "d \<in> set (conditional ?a)" for d
  proof -
    obtain c where c: "c \<in> set (conditional (authority l))" "keeps old tr c" "d = move old tr c"
      using d by auto
    obtain b where b: "claim_branch c = Some b" using state_okD(8) [OF ok(1) c(1)] by blast
    have sup: "b \<in> family_union (csupport (lcontract l))" "b \<notin> tombstones l"
      using inv c(1) b by (metis owned_in_Some)+
    show ?thesis
    proof (cases "b = old")
      case True
      then obtain child where child: "child \<in> snd ` set tr" "claim_branch d = Some child"
        using move_branch [of tr old c] c b ready by blast
      then have ds: "child \<in> set ds" using ready by blast
      then have "child \<in> family_union (csupport ?c)"
        using refined_support(2) [OF ok(2) leaf assms(2) sup(1) True] by blast
      moreover have "child \<notin> ?T" using ds ready by auto
      ultimately show ?thesis using child(2) by simp
    next
      case False
      then have "d = c" using c(3) b by (simp add: move_def)
      then show ?thesis using refined_support(1) [OF ok(2) leaf assms(2) sup(1) False] b sup(2) False by simp
    qed
  qed
  moreover have "[] \<notin> ?T"
    using inv leaf assms(3) ok(8) by (auto simp: leaf_ok_def supported_branches_def family_union_def)
  moreover have "family_union (csupport ?c) \<inter> ?T = {}"
  proof -
    have "b \<notin> ?T" if "callows ?c F" "b \<in> F" for b F
      using refined_branch_source [OF ok(2) leaf that] inv ready by auto
    then show ?thesis unfolding family_union_def set_csupport by blast
  qed
  ultimately show ?thesis by (simp add: authority_inv_def refined_def)
qed

definition refined_lifecycle ::
    "lifecycle \<Rightarrow> branch \<Rightarrow> branch list \<Rightarrow> bool \<Rightarrow> (string \<times> branch) list \<Rightarrow> bool \<Rightarrow> lifecycle" where
  "refined_lifecycle l old ds parallel tr tombstone_old =
     l\<lparr>authority := refined_state (authority l) old tr (refined_base (lcontract l) old ds parallel),
       lcontract := refined (lcontract l) old ds parallel,
       terminal_ids := terminal_ids l \<union> dropped_ids (keeps old tr) (authority l),
       tombstones := tombstones l \<union> (if tombstone_old then {old} else {})\<rparr>"

lemma epoch_inv_cong:
  assumes "claim_id ` set (durable a) = claim_id ` set (durable b)"
    and "claim_id ` set (conditional a) = claim_id ` set (conditional b)"
    and "epoch_inv a es ce closed terminal"
  shows "epoch_inv b es ce closed terminal"
proof -
  have "active_ids a = active_ids b" using assms(1,2) by (simp add: active_ids_def image_Un)
  moreover have "\<forall>d\<in>set (conditional b). \<forall>e. map_of ce (claim_id d) = Some e \<longrightarrow> e \<notin> closed"
  proof (intro ballI allI impI)
    fix d e assume d: "d \<in> set (conditional b)" "map_of ce (claim_id d) = Some e"
    then obtain c where "c \<in> set (conditional a)" "claim_id c = claim_id d"
      using assms(2) by (metis imageE imageI)
    then show "e \<notin> closed" using assms(3) d(2) unfolding epoch_inv_def by metis
  qed
  ultimately show ?thesis using assms(3) unfolding epoch_inv_def by simp
qed

lemma refined_lifecycle_ok:
  assumes "lifecycle_ok l" and "guards_scoped (lcontract l)" and "[] \<notin> supported_branches (authority l)"
    and "refine_ready l old ds tr tombstone_old"
  shows "lifecycle_ok (refined_lifecycle l old ds parallel tr tombstone_old)"
    and "lifecycle_post_init (refined_lifecycle l old ds parallel tr tombstone_old) =
      Inr (refined_lifecycle l old ds parallel tr tombstone_old)"
proof -
  let ?c = "refined (lcontract l) old ds parallel"
  let ?a = "refined_state (authority l) old tr (refined_base (lcontract l) old ds parallel)"
  let ?l = "refined_lifecycle l old ds parallel tr tombstone_old"
  note ok = lifecycle_okD [OF assms(1)]
  have leaf: "leaf_ok (lcontract l) old ds" and tr: "distinct (map fst tr)"
    using assms(4) unfolding refine_ready_def by blast+
  note st = refined_state_ok(2) [OF ok(1) refined_base_closed [OF ok(2) leaf] tr]
  note c = refined_ok [OF ok(2) leaf]
  have "epoch_inv (kept (keeps old tr) (authority l)) (epochs l) (claim_epochs l) (closed_epochs l)
      (terminal_ids l \<union> dropped_ids (keeps old tr) (authority l))"
    using ok(5) by (intro epoch_inv_kept [OF ok(1,5)]) (auto simp: epoch_inv_def)
  then have ep: "epoch_inv ?a (epochs l) (claim_epochs l) (closed_epochs l)
      (terminal_ids l \<union> dropped_ids (keeps old tr) (authority l))"
    by (rule epoch_inv_cong [rotated 2]) (simp_all add: kept_def image_image)
  have "ticket_inv ?a (tickets l) (receipts l)" using ok(6) by (simp add: ticket_inv_def)
  then have inv: "lifecycle_inv ?l"
    using authority_inv_refined [OF assms] ep by (simp add: lifecycle_inv_def refined_lifecycle_def)
  then show "lifecycle_ok ?l"
    using st c ok by (simp add: lifecycle_ok_def refined_lifecycle_def)
  show "lifecycle_post_init ?l = Inr ?l"
    using inv st c lifecycle_post_init_iff [of ?l] by (simp add: refined_lifecycle_def)
qed

lemma refined_history:
  assumes "lifecycle_ok l"
  shows "structural_history_preserved l (refined_lifecycle l old ds parallel tr tombstone_old)"
  using filter_conditional_sorted(3) [OF lifecycle_okD(1) [OF assms]]
  by (auto simp: structural_history_preserved_def refined_lifecycle_def refined_state_def rebuilt_def)

lemma canceled_ids:
  assumes "state_ok a"
  shows "claim_id ` set (filter (\<lambda>c. claim_branch c = Some old) (conditional a)) - set (map fst tr) =
     dropped_ids (keeps old tr) a"
  by (auto simp: dropped_ids_def keeps_def)

lemma refine_checks_pass:
  assumes "lifecycle_ok l" and "refine_ready l old ds tr tombstone_old"
    and "state_ok (refined_state (authority l) old tr (refined_base (lcontract l) old ds parallel))"
  shows "each_r (refine_load_check l (refined_state (authority l) old tr (refined_base (lcontract l) old ds parallel))
      old (set ds)) (refined_base (lcontract l) old ds parallel) = Inr ()" (is "?loads = Inr ()")
    and "each_r (refine_guard_check l old (set ds)) (csupport (refined (lcontract l) old ds parallel)) = Inr ()"
proof -
  let ?a = "refined_state (authority l) old tr (refined_base (lcontract l) old ds parallel)"
  note ok = lifecycle_okD [OF assms(1)]
  have leaf: "leaf_ok (lcontract l) old ds" using assms(2) unfolding refine_ready_def by blast
  show "?loads = Inr ()"
  proof (unfold each_r_ok_iff, intro ballI)
    fix F assume F: "F \<in> set (refined_base (lcontract l) old ds parallel)"
    let ?p = "project old (set ds) F"
    have p: "?p \<in> set (frontiers (authority l))" using F set_refined_base [OF ok(2) leaf] ok(8) by simp
    have le: "vle (load ?a F) (load (authority l) ?p)" by (rule load_refined_project [OF assms(1,2)])
    then have "length (load ?a F) = length (load (authority l) ?p)" by (simp only: vle_def)
    then show "refine_load_check l ?a old (set ds) F = Inr ()"
      using p le F frontier_load_total [OF assms(3)] frontier_load_total [OF ok(1) p]
      by (simp add: refine_load_check_def Let_def vector_leq_eq)
  qed
  show "each_r (refine_guard_check l old (set ds)) (csupport (refined (lcontract l) old ds parallel)) = Inr ()"
    unfolding each_r_ok_iff refine_guard_check_def support_total [OF ok(2)]
    using callows_refined_project [OF ok(2) leaf, of parallel] by simp
qed

lemma refine_lifecycle_leaf_eq:
  assumes "lifecycle_ok l" and "guards_scoped (lcontract l)" and "[] \<notin> supported_branches (authority l)"
    and "refine_ready l old children tr tombstone_old"
  shows "refine_lifecycle_leaf l old children parallel tr tombstone_old =
     Inr (refined_lifecycle l old (sort children) parallel tr tombstone_old)"
proof -
  let ?ds = "sort children"
  let ?c = "refined (lcontract l) old ?ds parallel"
  note ok = lifecycle_okD [OF assms(1)]
  have ready: "refine_ready l old ?ds tr tombstone_old" using assms(4) by (simp add: refine_ready_def)
  have leaf: "leaf_ok (lcontract l) old ?ds" and tr: "distinct (map fst tr)"
    using ready unfolding refine_ready_def by blast+
  have contract: "refine_leaf (lcontract l) old ?ds parallel = Inr ?c"
    using refine_leaf_eq [OF ok(2) leaf] by simp
  have base: "base_frontiers ?c = refined_base (lcontract l) old ?ds parallel" by (simp add: refined_def)
  note st = refined_state_ok [OF ok(1) refined_base_closed [OF ok(2) leaf] tr]
  show ?thesis
    unfolding refine_lifecycle_leaf_def Let_def canceled_ids [OF ok(1)] contract rethrow_simps(1) bind_r_simps
      base st(1) support_total [OF refined_ok [OF ok(2) leaf]] refine_checks_pass [OF assms(1) ready st(2)]
    using ready refined_lifecycle_ok(2) [OF assms(1-3) ready, of parallel]
      refined_history [OF assms(1), of old ?ds parallel tr tombstone_old]
    by (simp add: refine_ready_def refined_lifecycle_def)
qed

end
