(* ===== verification/LifecycleRuns.thy ===== *)
theory LifecycleRuns
  imports Lifecycle
begin

text \<open>
  Runs of the lifecycle machine: its operations as one labelled step relation, the invariant
  that every step keeps, and what holds of whole runs (validity, monotone history, at most one
  logical release per operation, released demand within the grant, no stuck ticket).
\<close>

section \<open>The step relation\<close>

datatype lifecycle_event =
    Prepare "binding list" string
  | Dispatch string
  | Retry string
  | Settle string string
  | Crash
  | Revoke string
  | RestoreReplace branch branch "(string \<times> branch) list"
  | RestoreLive branch branch
  | Fork branch branch branch bool "(string \<times> branch) list"

inductive lstep :: "lifecycle \<Rightarrow> lifecycle_event \<Rightarrow> lifecycle \<Rightarrow> bool" where
  lstep_prepare: "prepare_operations l bs gid = Inr m \<Longrightarrow> lstep l (Prepare bs gid) m"
| lstep_dispatch: "dispatch_operation l oid = Inr st \<Longrightarrow> lstep l (Dispatch oid) (step_state st)"
| lstep_retry: "retry_operation l oid = Inr st \<Longrightarrow> lstep l (Retry oid) (step_state st)"
| lstep_settle: "settle_operation l oid result = Inr m \<Longrightarrow> lstep l (Settle oid result) m"
| lstep_crash: "crash_recover l = Inr m \<Longrightarrow> lstep l Crash m"
| lstep_revoke: "revoke_epoch l epoch = Inr m \<Longrightarrow> lstep l (Revoke epoch) m"
| lstep_replace: "restore_replace l old restored tr = Inr m \<Longrightarrow> lstep l (RestoreReplace old restored tr) m"
| lstep_live: "restore_live l old restored = Inr m \<Longrightarrow> lstep l (RestoreLive old restored) m"
| lstep_fork: "fork_branch l old left right par tr = Inr m \<Longrightarrow> lstep l (Fork old left right par tr) m"

inductive_cases lstep_dispatchE: "lstep l (Dispatch oid) m"

text \<open>
  The invariant of runs: a valid state whose guards talk about branches of the contract and
  whose branches have names. The constructors do not check the last two; every operation keeps
  them.
\<close>

definition live_ok :: "lifecycle \<Rightarrow> bool" where
  "live_ok l \<longleftrightarrow> lifecycle_ok l \<and> guards_scoped (lcontract l) \<and> [] \<notin> supported_branches (authority l)"

section \<open>An operation that returns met its precondition\<close>

lemma exact_repair_guard_id:
  assumes "exact_repair_guard s gid = Inr g"
  shows "guard_id g = gid" "gid \<noteq> []"
  using assms by (auto simp: exact_repair_guard_def Let_def guard_post_init_iff guard_inv_def)

lemma promote_with_exact_guard_gid:
  assumes "promote_with_exact_guard s c ids gid = Inr (p, c')"
  shows "gid \<noteq> []" "gid \<notin> guard_id ` set (guards c)"
proof -
  obtain q where "install_exact_repair q c gid = Inr c'"
    using assms by (auto simp: promote_with_exact_guard_def)
  then obtain g where g: "exact_repair_guard q gid = Inr g" "add_guard c g = Inr c'"
    by (auto simp: install_exact_repair_def)
  note ids = exact_repair_guard_id [OF g(1)]
  show "gid \<noteq> []" by (rule ids)
  have "\<not> (\<exists>existing\<in>set (guards c). guard_id existing = guard_id g)"
    using g(2) unfolding add_guard_def if_Inl_eq_Inr by blast
  then show "gid \<notin> guard_id ` set (guards c)" using ids(1) by force
qed

lemma map_r_Inr_ball: "map_r f xs = Inr ys \<Longrightarrow> x \<in> set xs \<Longrightarrow> \<exists>y. f x = Inr y"
  by (induction xs arbitrary: ys) auto

lemma prepare_returns_ready:
  assumes "prepare_operations l bs gid = Inr m"
  shows "prepare_ready l bs gid"
proof -
  have guards: "bs \<noteq> []" "distinct (binding_claims bs)" "distinct (binding_operations bs)"
    "set (binding_operations bs) \<inter> set (used_operations l) = {}"
    "set (binding_claims bs) \<subseteq> tentative_ids (authority l)"
    using assms unfolding prepare_operations_def Let_def if_Inl_eq_Inr binding_claims_def
      binding_operations_def tentative_ids_def by blast+
  obtain p c where prom: "promote_with_exact_guard (authority l) (lcontract l) (binding_claims bs) gid = Inr (p, c)"
    using assms unfolding prepare_operations_def Let_def if_Inl_eq_Inr bind_r_eq_Inr rethrow_simps(3)
      binding_claims_def by (metis old.prod.exhaust)
  obtain ts where ts: "map_r (\<lambda>(cid, oid, mode). ticket_post_init
      \<lparr>ticket_operation = oid, ticket_claim = cid, phase = ''prepared'', retry_mode = mode\<rparr>) bs = Inr ts"
    using assms unfolding prepare_operations_def Let_def if_Inl_eq_Inr bind_r_eq_Inr case_prod_beta by blast
  have ticket: "oid \<noteq> [] \<and> mode \<in> {''deduplicated'', ''aggregate-bounded''}"
    if b: "(cid, oid, mode) \<in> set bs" for cid oid mode
  proof -
    have "\<exists>t. ticket_post_init \<lparr>ticket_operation = oid, ticket_claim = cid, phase = ''prepared'',
        retry_mode = mode\<rparr> = Inr t"
      using map_r_Inr_ball [OF ts b] by simp
    then show ?thesis by (auto simp: ticket_post_init_iff ticket_ok_def)
  qed
  then have "[] \<notin> set (binding_operations bs)" "\<forall>(_, _, mode)\<in>set bs. mode \<in> {''deduplicated'', ''aggregate-bounded''}"
    by (fastforce simp: binding_operations_def)+
  then show ?thesis using guards promote_with_exact_guard_gid [OF prom] unfolding prepare_ready_def by blast
qed

lemma refine_returns_ready:
  assumes "refine_lifecycle_leaf l old children par tr tombstone_old = Inr m"
    and "tombstone_old \<longrightarrow> old \<notin> set children"
  shows "refine_ready l old children tr tombstone_old"
proof -
  have guards: "set (sort children) \<inter> tombstones l = {}" "distinct (map fst tr)"
    "set (map fst tr) \<subseteq> claim_id ` set (filter (\<lambda>c. claim_branch c = Some old) (conditional (authority l)))"
    "set (map snd tr) \<subseteq> set (sort children)"
    using assms(1) unfolding refine_lifecycle_leaf_def Let_def if_Inl_eq_Inr by blast+
  obtain c where "refine_leaf (lcontract l) old (sort children) par = Inr c"
    using assms(1) unfolding refine_lifecycle_leaf_def Let_def if_Inl_eq_Inr bind_r_eq_Inr rethrow_simps(3)
    by blast
  then have "leaf_ok (lcontract l) old (sort children)" using refine_leaf_rejects by (metis Inl_Inr_False)
  then show ?thesis using guards assms(2) by (simp add: refine_ready_def)
qed

lemma prepare_returns:
  assumes "live_ok l" and "prepare_operations l bs gid = Inr m"
  shows "m = prepared l bs gid" "lifecycle_ok m"
proof -
  have l: "lifecycle_ok l" "[] \<notin> supported_branches (authority l)" using assms(1) by (simp_all add: live_ok_def)
  note ready = prepare_returns_ready [OF assms(2)]
  show m: "m = prepared l bs gid"
    using prepare_operations_eq [OF l ready] assms(2) by (auto split: if_splits)
  show "lifecycle_ok m"
    using prepare_operations_eq [OF l ready] prepared_ok(2) [OF l ready] assms(2) by (auto split: if_splits)
qed

lemma refine_returns:
  assumes "live_ok l" and "refine_lifecycle_leaf l old children par tr tombstone_old = Inr m"
    and "tombstone_old \<longrightarrow> old \<notin> set children"
  shows "m = refined_lifecycle l old (sort children) par tr tombstone_old" "lifecycle_ok m"
    "refine_ready l old (sort children) tr tombstone_old"
proof -
  have l: "lifecycle_ok l" "guards_scoped (lcontract l)" "[] \<notin> supported_branches (authority l)"
    using assms(1) by (simp_all add: live_ok_def)
  note ready = refine_returns_ready [OF assms(2,3)]
  show r: "refine_ready l old (sort children) tr tombstone_old" using ready by (simp add: refine_ready_def)
  show m: "m = refined_lifecycle l old (sort children) par tr tombstone_old"
    using refine_lifecycle_leaf_eq [OF l ready] assms(2) by simp
  show "lifecycle_ok m" unfolding m by (rule refined_lifecycle_ok(1) [OF l r])
qed

section \<open>What a step does to a valid state\<close>

text \<open>The operation a step releases: only a first dispatch does.\<close>

fun released_by :: "lifecycle_event \<Rightarrow> string option" where
  "released_by (Dispatch oid) = Some oid"
| "released_by _ = None"

lemma dispatch_returns:
  assumes "lifecycle_ok l" and "dispatch_operation l oid = Inr st"
  shows "\<exists>t\<in>set (tickets l). ticket_operation t = oid \<and> phase t = ''prepared'' \<and>
    step_state st = retagged (inflight_tag t) l \<and> lifecycle_ok (step_state st)"
proof -
  obtain t u where t: "find_ticket l oid = Inr t" "phase t = ''prepared''" "put_inflight l t = Inr u"
    and st: "step_state st = u"
    using assms(2) unfolding dispatch_operation_def bind_r_eq_Inr if_Inl_eq_Inr by auto
  have "t \<in> set (tickets l)" "ticket_operation t = oid" using t(1) by (simp_all add: find_ticket_iff [OF assms(1)])
  then show ?thesis using put_inflight_eq [OF assms(1), of t] t st by auto
qed

lemma retry_returns:
  assumes "lifecycle_ok l" and "retry_operation l oid = Inr st"
  shows "\<exists>t\<in>set (tickets l). ticket_operation t = oid \<and> phase t \<noteq> ''prepared'' \<and>
    step_state st = retagged (inflight_tag t) l \<and> lifecycle_ok (step_state st)"
proof -
  obtain t u where t: "find_ticket l oid = Inr t" "phase t \<in> {''inflight'', ''uncertain''}"
      "put_inflight l t = Inr u" and st: "step_state st = u"
    using assms(2) unfolding retry_operation_def bind_r_eq_Inr if_Inl_eq_Inr by auto
  have "t \<in> set (tickets l)" "ticket_operation t = oid" using t(1) by (simp_all add: find_ticket_iff [OF assms(1)])
  then show ?thesis using put_inflight_eq [OF assms(1), of t] t st by auto
qed

lemma settle_returns:
  assumes "lifecycle_ok l" and "settle_operation l oid result = Inr m"
  shows "\<exists>t\<in>set (tickets l). ticket_operation t = oid \<and> m = settled l t result \<and> lifecycle_ok m"
proof -
  obtain t r where t: "find_ticket l oid = Inr t" "result \<noteq> []"
      "receipt_post_init \<lparr>receipt_operation = oid, receipt_claim = ticket_claim t, outcome = result\<rparr> = Inr r"
      "lifecycle_post_init (l\<lparr>tickets := filter (\<lambda>current. current \<noteq> t) (tickets l),
         receipts := sort_key receipt_key (receipts l @ [r])\<rparr>) = Inr m"
    using assms(2) unfolding settle_operation_def Let_def bind_r_eq_Inr if_Inl_eq_Inr by blast
  have tin: "t \<in> set (tickets l)" "ticket_operation t = oid" using t(1) by (simp_all add: find_ticket_iff [OF assms(1)])
  then have "lifecycle_post_init (settled l t result) = Inr m"
    using t(3,4) by (simp add: settled_def receipt_post_init_iff)
  then show ?thesis using settled_ok [OF assms(1) tin(1) t(2)] tin by auto
qed

lemma lstep_effect:
  assumes "live_ok l" and "lstep l e m"
  obtains (prepare) bs gid where "e = Prepare bs gid" "m = prepared l bs gid" "prepare_ready l bs gid"
      "lifecycle_ok m"
  | (inflight) t where "t \<in> set (tickets l)" "m = retagged (inflight_tag t) l" "lifecycle_ok m"
      "e = Dispatch (ticket_operation t) \<and> phase t = ''prepared'' \<or>
       e = Retry (ticket_operation t) \<and> phase t \<noteq> ''prepared''"
  | (settle) t result where "t \<in> set (tickets l)" "m = settled l t result" "lifecycle_ok m"
      "released_by e = None"
  | (crash) "m = retagged crash_tag l" "lifecycle_ok m" "released_by e = None"
  | (revoke) epoch where "m = revoked l epoch" "lifecycle_ok m" "released_by e = None"
  | (refine) old ds par tr tomb where "m = refined_lifecycle l old ds par tr tomb" "lifecycle_ok m"
      "refine_ready l old ds tr tomb" "released_by e = None"
proof -
  have l: "lifecycle_ok l" using assms(1) by (simp add: live_ok_def)
  from assms(2) show thesis
  proof cases
    case (lstep_prepare bs gid)
    then show ?thesis
      using prepare prepare_returns [OF assms(1) lstep_prepare(2)] prepare_returns_ready [OF lstep_prepare(2)]
      by simp
  next
    case (lstep_dispatch oid st)
    then show ?thesis using dispatch_returns [OF l lstep_dispatch(3)] inflight by blast
  next
    case (lstep_retry oid st)
    then show ?thesis using retry_returns [OF l lstep_retry(3)] inflight by blast
  next
    case (lstep_settle oid result)
    then show ?thesis using settle_returns [OF l lstep_settle(2)] settle by (metis released_by.simps(4))
  next
    case lstep_crash
    then show ?thesis using crash crash_recover_eq [OF l] by simp
  next
    case (lstep_revoke epoch)
    then have "epoch \<in> set (epochs l)" "epoch \<notin> closed_epochs l"
      by (auto simp: revoke_epoch_def split: if_splits)
    then show ?thesis using revoke [of epoch] revoke_epoch_eq [OF l] lstep_revoke by simp
  next
    case (lstep_replace old restored tr)
    then have "refine_lifecycle_leaf l old [restored] False tr True = Inr m" "True \<longrightarrow> old \<notin> set [restored]"
      by (auto simp: restore_replace_def split: if_splits)
    from refine_returns [OF assms(1) this] show ?thesis using refine lstep_replace(1) by simp
  next
    case (lstep_live old restored)
    then have "refine_lifecycle_leaf l old [old, restored] True (map (\<lambda>c. (claim_id c, old))
        (filter (\<lambda>c. claim_branch c = Some old) (conditional (authority l)))) False = Inr m"
      "False \<longrightarrow> old \<notin> set [old, restored]"
      by (simp_all add: restore_live_def)
    from refine_returns [OF assms(1) this] show ?thesis using refine lstep_live(1) by simp
  next
    case (lstep_fork old left right par tr)
    then have "refine_lifecycle_leaf l old [left, right] par tr True = Inr m" "True \<longrightarrow> old \<notin> set [left, right]"
      by (auto simp: fork_branch_def split: if_splits)
    from refine_returns [OF assms(1) this] show ?thesis using refine lstep_fork(1) by simp
  qed
qed

lemma prepared_scoped:
  assumes "live_ok l"
  shows "guards_scoped (lcontract (prepared l bs gid))"
proof -
  let ?p = "promoted (authority l) (set (binding_claims bs))"
  have l: "lifecycle_ok l" using assms by (simp add: live_ok_def)
  have "b \<in> family_union (base_frontiers (lcontract l))" if "b \<in> owners ?p" for b
  proof -
    have "b \<in> owners (authority l)" using that by (auto simp: owners_def promoted_sets)
    then show ?thesis
      using owners_subset [OF l] lifecycle_okD(8) [OF l] unfolding supported_branches_def family_union_def
      by (metis subsetD)
  qed
  then show ?thesis
    using assms by (auto simp: live_ok_def guards_scoped_def prepared_def Let_def repaired_contract_def
        exact_guard_def frozen_term_def)
qed

lemma refined_named:
  assumes "live_ok l" and "refine_ready l old ds tr tomb"
  shows "[] \<notin> supported_branches (authority (refined_lifecycle l old ds par tr tomb))"
proof
  have l: "lifecycle_ok l" "[] \<notin> supported_branches (authority l)" using assms(1) by (simp_all add: live_ok_def)
  have leaf: "leaf_ok (lcontract l) old ds" using assms(2) unfolding refine_ready_def by blast
  assume "[] \<in> supported_branches (authority (refined_lifecycle l old ds par tr tomb))"
  then obtain F where F: "F \<in> set (refined_base (lcontract l) old ds par)" "[] \<in> F"
    by (auto simp: refined_lifecycle_def supported_branches_def family_union_def)
  have "[] \<notin> set ds" using leaf unfolding leaf_ok_def by blast
  then have "[] \<in> project old (set ds) F" using F(2) by (simp add: project_def)
  moreover have "project old (set ds) F \<in> set (frontiers (authority l))"
    using F(1) set_refined_base [OF lifecycle_okD(2) [OF l(1)] leaf] lifecycle_okD(8) [OF l(1)] by simp
  ultimately show False using l(2) by (auto simp: supported_branches_def family_union_def)
qed

lemma lstep_live_ok:
  assumes "lstep l e m" and "live_ok l"
  shows "live_ok m"
  using assms(2,1)
proof (cases rule: lstep_effect)
  case (prepare bs gid)
  then show ?thesis using assms(2) prepared_scoped [OF assms(2)]
    by (simp add: live_ok_def prepared_def Let_def supported_branches_def kept_def promoted_sets)
next
  case (refine old ds par tr tomb)
  have "lifecycle_ok l" "guards_scoped (lcontract l)" using assms(2) by (simp_all add: live_ok_def)
  moreover have "leaf_ok (lcontract l) old ds" using refine(3) unfolding refine_ready_def by blast
  ultimately have "guards_scoped (lcontract m)"
    using refined_scoped [OF lifecycle_okD(2)] refine(1) by (simp add: refined_lifecycle_def)
  then show ?thesis using refine refined_named [OF assms(2) refine(3)] by (simp add: live_ok_def)
qed (use assms(2) in \<open>simp_all add: live_ok_def retagged_def settled_def revoked_def kept_def
    supported_branches_def\<close>)

section \<open>History only grows, and an operation is released once\<close>

text \<open>Everything the lifecycle keeps for good, as one tagged set.\<close>

datatype kept_item =
    KeptReceipt receipt
  | KeptTerminal string
  | KeptTombstone branch
  | KeptClosed string
  | KeptDurable claim
  | KeptOperation string

definition kept_items :: "lifecycle \<Rightarrow> kept_item set" where
  "kept_items l = KeptReceipt ` set (receipts l) \<union> KeptTerminal ` terminal_ids l \<union>
     KeptTombstone ` tombstones l \<union> KeptClosed ` closed_epochs l \<union>
     KeptDurable ` set (durable (authority l)) \<union> KeptOperation ` set (used_operations l)"

text \<open>Operations that were released or can never be: settled, or with a ticket past \<open>prepared\<close>.\<close>

definition spent_operations :: "lifecycle \<Rightarrow> string set" where
  "spent_operations l = receipt_operation ` set (receipts l) \<union>
     ticket_operation ` {t \<in> set (tickets l). phase t \<noteq> ''prepared''}"

lemma kept_items_mono:
  assumes "set (receipts l) \<subseteq> set (receipts m)" and "terminal_ids l \<subseteq> terminal_ids m"
    and "tombstones l \<subseteq> tombstones m" and "closed_epochs l \<subseteq> closed_epochs m"
    and "set (durable (authority l)) \<subseteq> set (durable (authority m))"
    and "set (used_operations l) \<subseteq> set (used_operations m)"
  shows "kept_items l \<subseteq> kept_items m"
  unfolding kept_items_def using assms by (intro Un_mono image_mono)

lemma inflight_tag_simps [simp]:
  "ticket_operation (inflight_tag t u) = ticket_operation u" "ticket_claim (inflight_tag t u) = ticket_claim u"
  "ticket_operation (crash_tag u) = ticket_operation u" "ticket_claim (crash_tag u) = ticket_claim u"
  by (simp_all add: inflight_tag_def crash_tag_def)

lemma tags_not_prepared:
  "phase u \<noteq> ''prepared'' \<Longrightarrow> phase (inflight_tag t u) \<noteq> ''prepared''"
  "phase u \<noteq> ''prepared'' \<Longrightarrow> phase (crash_tag u) \<noteq> ''prepared''"
  by (simp_all add: inflight_tag_def crash_tag_def)

lemma used_operations_settled:
  "t \<in> set (tickets l) \<Longrightarrow> set (used_operations (settled l t result)) = set (used_operations l)"
  by (auto simp: used_operations_def settled_def)

lemma lstep_grows:
  assumes "lstep l e m" and "live_ok l"
  shows "kept_items l \<subseteq> kept_items m"
  using assms(2,1)
proof (cases rule: lstep_effect)
  case (prepare bs gid)
  then show ?thesis
    by (intro kept_items_mono) (auto simp: prepared_def Let_def kept_def promoted_sets used_operations_def)
next
  case (settle t result)
  then show ?thesis using used_operations_settled [OF settle(1)]
    by (intro kept_items_mono) (auto simp: settled_def)
next
  case (revoke epoch)
  then show ?thesis
    by (intro kept_items_mono) (auto simp: revoked_def used_operations_def kept_def)
next
  case (refine old ds par tr tomb)
  then show ?thesis
    by (intro kept_items_mono) (auto simp: refined_lifecycle_def used_operations_def)
qed (simp_all add: kept_items_mono retagged_def used_operations_def revoked_def kept_def image_image)

lemma lstep_spent:
  assumes "lstep l e m" and "live_ok l"
  shows "spent_operations l \<subseteq> spent_operations m"
  using assms(2,1)
proof (cases rule: lstep_effect)
  case (prepare bs gid)
  then show ?thesis by (auto simp: spent_operations_def prepared_def Let_def)
next
  case (inflight t)
  then show ?thesis using tags_not_prepared(1) [of _ t]
    by (force simp: spent_operations_def retagged_def image_iff)
next
  case (settle t result)
  then show ?thesis by (auto simp: spent_operations_def settled_def)
next
  case crash
  then show ?thesis using tags_not_prepared(2) by (force simp: spent_operations_def retagged_def image_iff)
qed (auto simp: spent_operations_def revoked_def refined_lifecycle_def)

lemma lstep_release:
  assumes "lstep l e m" and "live_ok l" and "released_by e = Some oid"
  shows "oid \<notin> spent_operations l \<and> oid \<in> spent_operations m"
  using assms(2,1)
proof (cases rule: lstep_effect)
  case (inflight t)
  then have t: "ticket_operation t = oid" "phase t = ''prepared''" using assms(3) by auto
  have "ticket_inv (authority l) (tickets l) (receipts l)"
    using assms(2) by (simp add: live_ok_def lifecycle_okD(6))
  then have dist: "distinct (map ticket_operation (tickets l))"
    "oid \<notin> receipt_operation ` set (receipts l)"
    using inflight(1) t(1) by (auto simp: ticket_inv_def)
  have "u = t" if "u \<in> set (tickets l)" "ticket_operation u = oid" for u
    using that dist(1) inflight(1) t(1) by (auto simp: distinct_map inj_on_def)
  then have "oid \<notin> spent_operations l" using dist(2) t by (auto simp: spent_operations_def)
  moreover have "inflight_tag t t \<in> set (tickets m)" using inflight(1,2) by (simp add: retagged_def)
  then have "oid \<in> spent_operations m"
    using t(1) by (auto simp: spent_operations_def inflight_tag_def image_iff)
  ultimately show ?thesis by blast
qed (use assms(3) in auto)

interpretation life: growing_machine lstep live_ok kept_items
  by unfold_locales (fact lstep_live_ok lstep_grows)+

interpretation release: once_machine lstep live_ok spent_operations released_by
  by unfold_locales (fact lstep_live_ok lstep_spent lstep_release)+

section \<open>Released demand\<close>

definition seals :: "lifecycle \<Rightarrow> string set \<Rightarrow> claim \<Rightarrow> bool" where
  "seals l ops c \<longleftrightarrow>
     (\<exists>t\<in>set (tickets l). ticket_operation t \<in> ops \<and> ticket_claim t = claim_id c) \<or>
     (\<exists>r\<in>set (receipts l). receipt_operation r \<in> ops \<and> receipt_claim r = claim_id c)"

text \<open>The weight of the durable claims sealed by some operations.\<close>

definition released_demand :: "lifecycle \<Rightarrow> string set \<Rightarrow> vector" where
  "released_demand l ops =
     vsum (dimension (authority l)) (map claim_weight (filter (seals l ops) (durable (authority l))))"

lemma durable_within_grant:
  assumes "lifecycle_ok l"
  shows "vle (ddemand (authority l)) (grant (authority l))"
proof -
  have "callows (lcontract l) {}"
    using downward_closed_empty [OF csupport_closed(2,1) [OF lifecycle_okD(2) [OF assms]]] by simp
  then have "solvent (authority l) {}" using lifecycle_okD(4) [OF assms] unfolding authority_inv_def by blast
  then show ?thesis by (simp add: solvent_empty)
qed

lemma released_within_grant:
  assumes "lifecycle_ok l"
  shows "vle (released_demand l ops) (grant (authority l))"
proof -
  have "(\<Sum>c\<leftarrow>filter (seals l ops) (durable (authority l)). claim_weight c ! i) \<le>
      (\<Sum>c\<leftarrow>filter (\<lambda>_. True) (durable (authority l)). claim_weight c ! i)" if "i < dimension (authority l)" for i
    using that state_ok_weights [OF lifecycle_okD(1) [OF assms]]
    by (intro sum_list_filter_mono) (auto intro: nonneg_nth)
  then have "vle (released_demand l ops) (ddemand (authority l))"
    by (simp add: vle_def released_demand_def ddemand_def comp_def)
  then show ?thesis using durable_within_grant [OF assms] by (rule vle_trans)
qed

lemma lstep_grant:
  assumes "lstep l e m" and "live_ok l"
  shows "grant (authority m) = grant (authority l)"
  using assms(2,1)
  by (cases rule: lstep_effect)
    (auto simp: prepared_def Let_def kept_def promoted_sets retagged_def settled_def revoked_def refined_lifecycle_def)

interpretation same_grant: invariant_machine lstep "\<lambda>m. live_ok m \<and> grant (authority m) = g"
  by unfold_locales (auto simp: lstep_grant intro: lstep_live_ok)

section \<open>Theorems of the lifecycle\<close>

text \<open>
  C28. Preparing operations on a valid lifecycle state whose branches are named: a proposal
  that binds distinct tentative claims to distinct fresh operations under a fresh guard is
  decided by the grant alone. Within the grant it yields a valid state with one
  prepared ticket per binding and the support cut to the frontiers that stay solvent, and no
  later validation fails; beyond it the proposal is rejected.
\<close>

theorem prepare_decided_by_grant:
  assumes "lifecycle_ok l" and "[] \<notin> supported_branches (authority l)" and "prepare_ready l bs gid"
    and "promote_plain (authority l) (binding_claims bs) = Inr p"
  shows "if vle (ddemand p) (grant (authority l))
    then \<exists>m. prepare_operations l bs gid = Inr m \<and> lifecycle_ok m \<and>
      set (tickets m) = set (tickets l) \<union> set (new_tickets bs) \<and> receipts m = receipts l \<and>
      durable (authority m) = durable p \<and>
      set (csupport (lcontract m)) = {F \<in> set (csupport (lcontract l)). vle (load p F) (grant (authority l))}
    else prepare_operations l bs gid = Inl (LifecycleRejected
      ''durable demand exceeds the grant; even the empty frontier is unsafe'')"
proof -
  have st: "state_ok (authority l)" "contract_ok (lcontract l)"
    "set (frontiers (authority l)) = set (base_frontiers (lcontract l))"
    using lifecycle_okD [OF assms(1)] by blast+
  have p: "p = promoted (authority l) (set (binding_claims bs))" "state_ok p" "grant p = grant (authority l)"
    "frontiers p = frontiers (authority l)"
    using promote_plain_InrD [OF st(1) assms(4)] by simp_all
  note eq = prepare_operations_eq [OF assms(1-3), folded p(1)]
  show ?thesis
  proof (cases "vle (ddemand p) (grant (authority l))")
    case True
    have gid: "gid \<noteq> []" "gid \<notin> guard_id ` set (guards (lcontract l))"
      using assms(3) by (simp_all add: prepare_ready_def)
    have "callows (repaired_contract l (set (binding_claims bs)) gid) F \<longleftrightarrow> callows (lcontract l) F \<and> solvent p F" for F
      using install_exact_repair_eq(3) [OF p(2) st(2) _ gid, of F] st(3) p True
      by (simp add: repaired_contract_def)
    then have "set (csupport (lcontract (prepared l bs gid))) =
        {F \<in> set (csupport (lcontract l)). vle (load p F) (grant (authority l))}"
      using p(3) by (simp add: prepared_def Let_def solvent_def)
    moreover have "lifecycle_ok (prepared l bs gid)" using prepared_ok(2) [OF assms(1-3)] True p(1) by simp
    ultimately show ?thesis
      using eq True p(1) by (simp add: prepared_def Let_def kept_def)
  next
    case False
    then show ?thesis using eq by simp
  qed
qed

text \<open>
  C16. A well-formed refinement of a leaf always goes through: the certificate loops, the
  new state's validation and the history assertion cannot fail, and the result is the refined
  contract with the claims of the leaf moved to the named children and the others terminal.
\<close>

theorem refinement_always_goes_through:
  assumes "lifecycle_ok l" and "guards_scoped (lcontract l)" and "[] \<notin> supported_branches (authority l)"
    and "refine_ready l old children tr tombstone_old"
  shows "\<exists>m. refine_lifecycle_leaf l old children parallel tr tombstone_old = Inr m \<and> lifecycle_ok m \<and>
    refine_leaf (lcontract l) old children parallel = Inr (lcontract m) \<and>
    tickets m = tickets l \<and> receipts m = receipts l \<and> durable (authority m) = durable (authority l) \<and>
    terminal_ids m = terminal_ids l \<union>
      {claim_id c |c. c \<in> set (conditional (authority l)) \<and> claim_branch c = Some old \<and> claim_id c \<notin> fst ` set tr} \<and>
    (\<forall>F\<in>set (frontiers (authority m)). \<exists>x y. frontier_load (authority m) F = Inr x \<and>
       frontier_load (authority l) (project old (set children) F) = Inr y \<and> vle x y)"
proof -
  let ?m = "refined_lifecycle l old (sort children) parallel tr tombstone_old"
  note ok = lifecycle_okD [OF assms(1)]
  have ready: "refine_ready l old (sort children) tr tombstone_old" using assms(4) by (simp add: refine_ready_def)
  have leaf: "leaf_ok (lcontract l) old children" using assms(4) unfolding refine_ready_def by blast
  have m: "lifecycle_ok ?m" by (rule refined_lifecycle_ok(1) [OF assms(1-3) ready])
  have "frontier_load (authority ?m) F = Inr (load (authority ?m) F) \<and>
      frontier_load (authority l) (project old (set children) F) =
        Inr (load (authority l) (project old (set children) F)) \<and>
      vle (load (authority ?m) F) (load (authority l) (project old (set children) F))"
    if F: "F \<in> set (frontiers (authority ?m))" for F
  proof -
    have "project old (set children) F \<in> set (frontiers (authority l))"
      using F set_refined_base [OF ok(2), of old "sort children" F parallel] leaf ok(8)
      by (simp add: refined_lifecycle_def)
    then show ?thesis
      using frontier_load_total [OF lifecycle_okD(1) [OF m] F] frontier_load_total [OF ok(1)]
        load_refined_project [OF assms(1) ready, of _ F]
      by (simp add: refined_lifecycle_def)
  qed
  moreover have "dropped_ids (keeps old tr) (authority l) =
      {claim_id c |c. c \<in> set (conditional (authority l)) \<and> claim_branch c = Some old \<and> claim_id c \<notin> fst ` set tr}"
    by (auto simp: dropped_ids_def keeps_def)
  moreover have "durable (authority ?m) = durable (authority l)"
    using refined_history [OF assms(1)] by (simp add: structural_history_preserved_def)
  ultimately show ?thesis
    using refine_lifecycle_leaf_eq [OF assms] m refine_leaf_eq [OF ok(2) leaf]
    by (intro exI [of _ ?m]) (auto simp: refined_lifecycle_def)
qed

text \<open>
  C1. Over any run from a valid state, in any order of operations, crashes and restores: each
  operation is logically released at most once and never after it was settled or already
  released, and the weight of the claims sealed by all released operations stays within the
  grant the run started with.
\<close>

theorem released_once_within_grant:
  assumes "run lstep l es m" and "live_ok l"
  shows "distinct (keys_of released_by es) \<and>
    set (keys_of released_by es) \<inter> spent_operations l = {} \<and>
    set (keys_of released_by es) \<subseteq> spent_operations m \<and>
    vle (released_demand m (set (keys_of released_by es))) (grant (authority l))"
proof -
  have "live_ok m \<and> grant (authority m) = grant (authority l)"
    using same_grant.run_inv [OF assms(1)] assms(2) by simp
  then show ?thesis
    using release.run_keys [OF assms] released_within_grant [of m] by (simp add: live_ok_def)
qed

text \<open>
  C29. Over any run from a valid state, every state is valid and guarded authority continuous,
  and history is never erased: receipts, terminal claims, tombstones, closed epochs, durable claims and used
  operation identifiers only grow, no terminal claim becomes active again, and no tombstoned
  branch regains support.
\<close>

theorem history_never_erased:
  assumes "run lstep l es m" and "live_ok l"
  shows "lifecycle_ok m \<and> guarded_authority_continuous (authority m) (lcontract m) = Inr True \<and>
    set (receipts l) \<subseteq> set (receipts m) \<and> terminal_ids l \<subseteq> terminal_ids m \<and>
    tombstones l \<subseteq> tombstones m \<and> closed_epochs l \<subseteq> closed_epochs m \<and>
    set (durable (authority l)) \<subseteq> set (durable (authority m)) \<and>
    set (used_operations l) \<subseteq> set (used_operations m) \<and>
    active_ids (authority m) \<inter> terminal_ids l = {} \<and>
    family_union (csupport (lcontract m)) \<inter> tombstones l = {}"
proof -
  have m: "lifecycle_ok m" using life.run_inv [OF assms] by (simp add: live_ok_def)
  note ok = lifecycle_okD [OF m]
  have grow: "kept_items l \<subseteq> kept_items m" by (rule life.run_grows [OF assms])
  have "KeptReceipt x \<in> kept_items l \<Longrightarrow> KeptReceipt x \<in> kept_items m"
    "KeptTerminal y \<in> kept_items l \<Longrightarrow> KeptTerminal y \<in> kept_items m"
    "KeptTombstone y \<in> kept_items l \<Longrightarrow> KeptTombstone y \<in> kept_items m"
    "KeptClosed y \<in> kept_items l \<Longrightarrow> KeptClosed y \<in> kept_items m"
    "KeptDurable z \<in> kept_items l \<Longrightarrow> KeptDurable z \<in> kept_items m"
    "KeptOperation y \<in> kept_items l \<Longrightarrow> KeptOperation y \<in> kept_items m" for x y z
    using grow by blast+
  then have sub: "set (receipts l) \<subseteq> set (receipts m)" "terminal_ids l \<subseteq> terminal_ids m"
    "tombstones l \<subseteq> tombstones m" "closed_epochs l \<subseteq> closed_epochs m"
    "set (durable (authority l)) \<subseteq> set (durable (authority m))"
    "set (used_operations l) \<subseteq> set (used_operations m)"
    by (simp_all add: kept_items_def image_iff subset_iff)
  moreover have "active_ids (authority m) \<inter> terminal_ids m = {}" using ok(5) by (simp add: epoch_inv_def)
  moreover have "family_union (csupport (lcontract m)) \<inter> tombstones m = {}"
    "guarded_authority_continuous (authority m) (lcontract m) = Inr True"
    using ok(4) guarded_authority_continuous_total [OF ok(1,2,8)] by (simp_all add: authority_inv_def)
  ultimately show ?thesis using m by blast
qed

text \<open>
  C18. No ticket is ever stuck: after a crash on a valid state each ticket is still live, a
  prepared one can be dispatched and an attempted one retried under the same operation
  identifier, and the result can be settled with any nonempty outcome, which leaves a receipt
  and no ticket for the operation.
\<close>

theorem tickets_never_stuck:
  assumes "lifecycle_ok l" and "t \<in> set (tickets l)" and "result \<noteq> []"
  shows "\<exists>l1 st l2. crash_recover l = Inr l1 \<and>
    (if phase t = ''prepared'' then dispatch_operation l1 (ticket_operation t) = Inr st
     else retry_operation l1 (ticket_operation t) = Inr st) \<and>
    attempt st = Some (ticket_operation t, ticket_claim t) \<and>
    (abstract_effect st \<noteq> None \<longleftrightarrow> phase t = ''prepared'') \<and>
    settle_operation (step_state st) (ticket_operation t) result = Inr l2 \<and> lifecycle_ok l2 \<and>
    ticket_operation t \<notin> ticket_operation ` set (tickets l2) \<and>
    \<lparr>receipt_operation = ticket_operation t, receipt_claim = ticket_claim t, outcome = result\<rparr> \<in> set (receipts l2)"
proof -
  let ?l1 = "retagged crash_tag l" and ?t1 = "crash_tag t"
  let ?l2 = "retagged (inflight_tag ?t1) ?l1" and ?t2 = "inflight_tag ?t1 ?t1"
  note l1 = crash_recover_eq [OF assms(1)]
  have t1: "?t1 \<in> set (tickets ?l1)" using assms(2) by (simp add: retagged_def)
  then have find1: "find_ticket ?l1 (ticket_operation t) = Inr ?t1" by (simp add: find_ticket_iff [OF l1(2)])
  note l2 = put_inflight_eq [OF l1(2) t1]
  have t2: "?t2 \<in> set (tickets ?l2)" using t1 by (simp add: retagged_def [of "inflight_tag ?t1"])
  then have find2: "find_ticket ?l2 (ticket_operation t) = Inr ?t2" by (simp add: find_ticket_iff [OF l2(2)])
  have ph: "phase ?t2 = ''inflight''" by (simp add: inflight_tag_def)
  have ph1: "phase ?t1 = ''prepared'' \<longleftrightarrow> phase t = ''prepared''"
    "phase t \<noteq> ''prepared'' \<Longrightarrow> phase ?t1 \<in> {''inflight'', ''uncertain''}"
    using lifecycle_okD(3) [OF assms(1,2)] by (auto simp: crash_tag_def ticket_ok_def)
  let ?st = "\<lparr>step_state = ?l2, attempt = Some (ticket_operation t, ticket_claim t),
      releases_logical_operation = (phase t = ''prepared'')\<rparr>"
  have go: "if phase t = ''prepared'' then dispatch_operation ?l1 (ticket_operation t) = Inr ?st
      else retry_operation ?l1 (ticket_operation t) = Inr ?st"
    using find1 ph1 l2(1) by (simp add: dispatch_operation_def retry_operation_def)
  note fin = settled_ok [OF l2(2) t2 assms(3)]
  have "receipt_ok \<lparr>receipt_operation = ticket_operation t, receipt_claim = ticket_claim t, outcome = result\<rparr>"
    using lifecycle_okD(3) [OF assms(1,2)] assms(3) by (simp add: receipt_ok_def ticket_ok_def)
  then have settle: "settle_operation ?l2 (ticket_operation t) result = Inr (settled ?l2 ?t2 result)"
    using find2 ph fin(1) assms(3)
    by (simp add: settle_operation_def Let_def receipt_post_init_iff settled_def)
  have "ticket_operation t \<notin> ticket_operation ` set (tickets (settled ?l2 ?t2 result))"
    using lifecycle_okD(6) [OF fin(2)] by (auto simp: ticket_inv_def settled_def)
  then show ?thesis
    using l1(1) go settle fin(2)
    by (intro exI [of _ ?l1] exI [of _ ?st] exI [of _ "settled ?l2 ?t2 result"])
      (simp add: abstract_effect_def settled_def)
qed

section \<open>Revocation and fresh states\<close>

lemma run_prepare_avoids:
  assumes "run lstep l es m" and "live_ok l" and "Prepare bs gid \<in> set es"
  shows "set (binding_claims bs) \<inter> terminal_ids l = {}"
  using assms
proof (induction rule: run.induct)
  case (run_Cons l e m es n)
  have m: "live_ok m" by (rule lstep_live_ok [OF run_Cons.hyps(1) run_Cons.prems(1)])
  show ?case
  proof (cases "e = Prepare bs gid")
    case True
    then have "prepare_ready l bs gid" using run_Cons.hyps(1) by (auto elim: lstep.cases dest: prepare_returns_ready)
    then have "set (binding_claims bs) \<subseteq> active_ids (authority l)"
      by (auto simp: prepare_ready_def tentative_ids_def active_ids_def)
    moreover have "active_ids (authority l) \<inter> terminal_ids l = {}"
      using run_Cons.prems(1) lifecycle_okD(5) [of l] by (simp add: live_ok_def epoch_inv_def)
    ultimately show ?thesis by blast
  next
    case False
    then have "set (binding_claims bs) \<inter> terminal_ids m = {}" using run_Cons.IH [OF m] run_Cons.prems(2) by auto
    moreover have "terminal_ids l \<subseteq> terminal_ids m"
      using lstep_grows [OF run_Cons.hyps(1) run_Cons.prems(1)] by (auto simp: kept_items_def)
    ultimately show ?thesis by blast
  qed
qed simp

text \<open>
  C30. Revoking an open epoch succeeds, keeps tickets, receipts and durable claims, and makes
  exactly the epoch's tentative claims terminal; in no later run can a preparation bind one of
  them.
\<close>

theorem revocation_is_final:
  assumes "live_ok l" and "epoch \<in> set (epochs l)" and "epoch \<notin> closed_epochs l"
  shows "\<exists>m. revoke_epoch l epoch = Inr m \<and> live_ok m \<and> tickets m = tickets l \<and> receipts m = receipts l \<and>
    durable (authority m) = durable (authority l) \<and>
    terminal_ids m = terminal_ids l \<union> {claim_id c |c. c \<in> set (conditional (authority l)) \<and>
      map_of (claim_epochs l) (claim_id c) = Some epoch} \<and>
    (\<forall>es n bs gid. run lstep m es n \<and> Prepare bs gid \<in> set es \<longrightarrow>
       set (binding_claims bs) \<inter> terminal_ids m = {})"
proof -
  have l: "lifecycle_ok l" using assms(1) by (simp add: live_ok_def)
  note rev = revoke_epoch_eq [OF l assms(2,3)]
  have live: "live_ok (revoked l epoch)" using lstep_live_ok [OF lstep_revoke [OF rev(1)] assms(1)] .
  moreover have "terminal_ids (revoked l epoch) = terminal_ids l \<union>
      {claim_id c |c. c \<in> set (conditional (authority l)) \<and> map_of (claim_epochs l) (claim_id c) = Some epoch}"
    by (auto simp: revoked_def dropped_ids_def)
  moreover have "tickets (revoked l epoch) = tickets l" "receipts (revoked l epoch) = receipts l"
    "durable (authority (revoked l epoch)) = durable (authority l)"
    by (simp_all add: revoked_def kept_def)
  moreover have "\<forall>es n bs gid. run lstep (revoked l epoch) es n \<and> Prepare bs gid \<in> set es \<longrightarrow>
      set (binding_claims bs) \<inter> terminal_ids (revoked l epoch) = {}"
    using run_prepare_avoids live by blast
  ultimately show ?thesis using rev(1) by (intro exI [of _ "revoked l epoch"] conjI) assumption+
qed

text \<open>
  The default constructor starts a run: over a valid, authority-continuous state whose
  tentative owners are supported and whose branches are named, with one epoch and no
  contract given, it succeeds and the result meets the invariant of runs.
\<close>

theorem fresh_lifecycle_starts_run:
  assumes "state_ok a" and "authority_continuous a = Inr True"
    and "owner_support_well_formed a None" and "[] \<notin> supported_branches a"
  shows "\<exists>l. make_lifecycle_state a None [epoch] None {} [] [] {} {} = Inr l \<and> live_ok l \<and>
    authority l = a \<and> set (csupport (lcontract l)) = set (frontiers a)"
proof -
  let ?c = "\<lparr>base_frontiers = frontiers a, guards = []\<rparr>"
  let ?ids = "sorted_list_of_set (active_ids a)"
  let ?l = "\<lparr>authority = a, lcontract = ?c, epochs = [epoch], claim_epochs = sort (map (\<lambda>cid. (cid, epoch)) ?ids),
    closed_epochs = {}, tickets = [], receipts = [], terminal_ids = {}, tombstones = {}\<rparr>"
  have c: "contract_ok ?c" using state_okD(1,2) [OF assms(1)] by (simp add: contract_ok_def contract_inv_def)
  have sup: "callows ?c F \<longleftrightarrow> F \<in> set (frontiers a)" for F by (simp add: callows_def)
  have fin: "finite (active_ids a)" by (simp add: active_ids_def)
  have "authority_inv a ?c {}"
    using assms(2,3) authority_continuous_total [OF assms(1)]
    by (auto simp: authority_inv_def sup owner_support_well_formed_def family_union_def Let_def
        split: if_splits)
  moreover have "epoch_inv a [epoch] (sort (map (\<lambda>cid. (cid, epoch)) ?ids)) {} {}"
    using fin by (auto simp: epoch_inv_def comp_def image_image)
  ultimately have inv: "lifecycle_inv ?l" by (simp add: lifecycle_inv_def ticket_inv_def)
  then have ok: "lifecycle_ok ?l" using assms(1) c by (simp add: lifecycle_ok_def)
  have "lifecycle_post_init ?l = Inr ?l" using inv lifecycle_post_init_iff [of ?l] assms(1) c by simp
  then have "make_lifecycle_state a None [epoch] None {} [] [] {} {} = Inr ?l"
    using c by (simp add: make_lifecycle_state_def Let_def contract_post_init_iff contract_ok_def)
  moreover have "live_ok ?l" using ok assms(4) by (simp add: live_ok_def guards_scoped_def)
  ultimately show ?thesis using sup by (intro exI [of _ ?l]) simp
qed

end
