(* ===== verification/Examples.thy ===== *)
theory Examples
  imports LifecycleRuns
begin

text \<open>
  Concrete inputs at which the hypotheses of the authority and lifecycle theorems hold, and the
  theorems applied to them: two exclusive branches with one tentative claim each, a guarded
  contract over them, and a lifecycle that prepares and dispatches one operation.
\<close>

section \<open>Inputs\<close>

definition ex_a :: claim where
  "ex_a = \<lparr>claim_id = ''a'', claim_weight = [1], claim_branch = Some ''left''\<rparr>"

definition ex_b :: claim where
  "ex_b = \<lparr>claim_id = ''b'', claim_weight = [1], claim_branch = Some ''right''\<rparr>"

definition ex_family :: family where
  "ex_family = downward_closure [[''left''], [''right'']]"

definition ex_state :: state where
  "ex_state = \<lparr>grant = [2], durable = [], conditional = [ex_a, ex_b], frontiers = ex_family\<rparr>"

definition ex_promoted :: state where
  "ex_promoted = \<lparr>grant = [2], durable = [ex_a], conditional = [ex_b], frontiers = ex_family\<rparr>"

definition ex_guard :: guard where
  "ex_guard = \<lparr>guard_id = ''g'', residual = [1],
     terms = [\<lparr>lineage_id = ''g:left'', term_weight = [1], descendants = {''left''}\<rparr>]\<rparr>"

definition ex_contract :: contract where
  "ex_contract = \<lparr>base_frontiers = ex_family, guards = [ex_guard]\<rparr>"

definition ex_batch :: batch where
  "ex_batch = [(''left'', [1])]"

lemma ex_family_ok: "family_ok ex_family"
  unfolding ex_family_def by (rule family_ok_downward_closure)

lemma ex_state_ok: "state_ok ex_state"
proof -
  have "state_inv ex_state" "\<forall>c\<in>set (durable ex_state @ conditional ex_state). claim_ok c" by code_simp+
  then show ?thesis using ex_family_ok by (simp add: state_ok_def ex_state_def)
qed

lemma ex_continuous: "authority_continuous ex_state = Inr True"
  by code_simp

lemma ex_promote: "promote_plain ex_state [''a''] = Inr ex_promoted"
  by code_simp

lemma ex_contract_ok: "contract_ok ex_contract"
proof -
  have "contract_inv ex_contract" "\<forall>g\<in>set (guards ex_contract). guard_ok g" by code_simp+
  then show ?thesis using ex_family_ok by (simp add: contract_ok_def ex_contract_def)
qed

lemma ex_scoped: "guards_scoped ex_contract"
  by code_simp

lemma ex_leaf: "leaf_ok ex_contract ''left'' [''l1'', ''l2'']" "leaf_ok ex_contract ''left'' [''left'', ''l2'']"
  by code_simp+

lemma ex_batch_valid: "valid_batch ex_state ex_batch"
  by code_simp

lemma ex_batch_validated: "validate_batch_for_state ex_state ex_batch = Inr ()"
  by code_simp

lemma ex_batch_fresh:
  "reservation_fresh ex_state ex_batch ''target-check''" "reservation_fresh ex_state ex_batch ''r''"
  "reservation_fresh ex_state ex_batch ''derivative''"
  by code_simp+

lemma ex_batch_residual: "ex_batch \<in> residual_set ex_state"
proof -
  have "batch_in_residual ex_state ex_batch = Inr True" by code_simp
  then show ?thesis by (simp add: batch_in_residual_total [OF ex_state_ok ex_batch_valid])
qed

section \<open>Authority, guards, reservations\<close>

theorem need_is_least_bound_witness:
  "\<exists>n. need ex_state = Inr n \<and> authority_continuous ex_state = Inr (vle n (grant ex_state))"
  using need_is_least_bound [OF ex_state_ok] by blast

theorem promote_maximally_greatest_witness:
  "\<exists>support. maximal_safe_support ex_state [''a''] = Inr support \<and>
     promote_maximally ex_state [''a''] = Inr (ex_promoted\<lparr>frontiers := support\<rparr>)"
proof -
  have "vle (ddemand ex_promoted) (grant ex_state)" by code_simp
  then show ?thesis using promote_maximally_greatest [OF ex_state_ok ex_promote] by auto
qed

theorem cleanup_keeps_supported_loads_witness:
  "\<exists>r. cleanup_unsupported_owners ex_state [{}, {''left''}] = Inr r \<and>
     owner_support_well_formed (cleanup_state r) (Some [{}, {''left''}])"
proof -
  have "[{}, {''left''}] \<noteq> []" "set [{}, {''left''}] \<subseteq> set (frontiers ex_state)"
    "is_downward_closed [{}, {''left''}]"
    by simp code_simp+
  from cleanup_keeps_supported_loads [OF ex_state_ok this] show ?thesis by blast
qed

theorem refine_leaf_transports_support_witness:
  "\<exists>c'. refine_leaf ex_contract ''left'' [''l1'', ''l2''] True = Inr c' \<and> contract_ok c'"
  using refine_leaf_transports_support [OF ex_contract_ok ex_leaf(1) ex_scoped, of True] by blast

theorem live_restore_routes_agree_witness:
  "\<exists>c'. contract_transport_live_restore ex_contract ''left'' ''l2'' = Inr c' \<and> contract_ok c'"
  using live_restore_routes_agree [OF ex_contract_ok ex_leaf(2)] by blast


theorem reserve_batch_sound_witness:
  "\<exists>t. reserve_batch ex_state ex_batch ''r'' = Inr t \<and> state_ok t \<and> authority_continuous t = Inr True"
  using reserve_batch_sound [OF ex_state_ok ex_batch_valid ex_batch_fresh(2)] ex_batch_residual by auto

theorem headroom_decides_single_reservation_witness:
  "reserve_admitted_by_headroom ex_state ''left'' [1] = batch_in_residual ex_state [(''left'', [1])]"
  using headroom_decides_single_reservation [OF ex_state_ok ex_continuous
      ex_batch_valid [unfolded ex_batch_def]] by blast

theorem residual_derivative_law_witness:
  "\<exists>succ der bound. bounded_residual_derivative ex_state ex_batch [''left'', ''right''] 1 =
     Inr (succ, der, bound) \<and> set succ = set der"
proof (rule residual_derivative_law [OF ex_state_ok ex_batch_valid ex_batch_residual ex_batch_fresh(3)])
  show "set [''left'', ''right''] \<subseteq> supported_branches ex_state" by code_simp
qed (simp_all add: ex_batch_def)

section \<open>Repair\<close>

theorem promote_with_exact_guard_exact_witness:
  "\<exists>c'. promote_with_exact_guard ex_state ex_contract [''a''] ''h'' = Inr (ex_promoted, c') \<and> contract_ok c'"
proof -
  have "set (frontiers ex_state) = set (base_frontiers ex_contract)" "''h'' \<noteq> []"
    "''h'' \<notin> guard_id ` set (guards ex_contract)" "vle (ddemand ex_promoted) (grant ex_state)"
    by code_simp+
  then show ?thesis
    using promote_with_exact_guard_exact [OF ex_state_ok ex_contract_ok _ _ _ ex_promote, of "''h''"] by auto
qed

theorem witnessed_promotion_safe_witness:
  "\<exists>r. witnessed_promote_with_tombstones ex_state ''a'' = Inr r \<and> authority_continuous (promotion_state r) = Inr True"
proof -
  have "ex_a \<in> set (conditional ex_state)" "claim_branch ex_a = Some ''left''" "claim_id ex_a = ''a''"
    "''left'' \<in> supported_branches ex_state"
    by code_simp+
  then show ?thesis using witnessed_promotion_safe [OF ex_state_ok ex_continuous, of ex_a "''left''"] by auto
qed

theorem withdraw_preserves_continuity_witness:
  "\<exists>t. withdraw_tentative ex_state ''a'' = Inr t \<and> authority_continuous t = Inr True"
proof -
  have "ex_a \<in> set (conditional ex_state)" "claim_id ex_a = ''a''" by code_simp+
  then show ?thesis using withdraw_preserves_continuity [OF ex_state_ok, of ex_a] ex_continuous by auto
qed

theorem conflict_graph_iff_pairwise_witness:
  "is_conflict_graph_representable ex_family [''left'', ''right''] \<longleftrightarrow>
    set ex_family = {F. F \<subseteq> set [''left'', ''right''] \<and>
      (\<forall>x\<in>F. \<forall>y\<in>F. x \<noteq> y \<longrightarrow> {x, y} \<in> set ex_family)}"
  by (rule conflict_graph_iff_pairwise) simp

section \<open>Lifecycle\<close>

definition ex_life :: lifecycle where
  "ex_life = \<lparr>authority = ex_state, lcontract = ex_contract, epochs = [''e''],
     claim_epochs = [(''a'', ''e''), (''b'', ''e'')], closed_epochs = {}, tickets = [], receipts = [],
     terminal_ids = {}, tombstones = {}\<rparr>"

definition ex_bindings :: "binding list" where
  "ex_bindings = [(''a'', ''op'', ''deduplicated'')]"

definition ex_prepared :: lifecycle where
  "ex_prepared = (case prepare_operations ex_life ex_bindings ''h'' of Inr m \<Rightarrow> m | Inl _ \<Rightarrow> ex_life)"

lemma ex_life_live: "live_ok ex_life"
proof -
  have "lifecycle_post_init ex_life = Inr ex_life" by code_simp
  then have "lifecycle_ok ex_life"
    using lifecycle_okI [of ex_life ex_life] ex_state_ok ex_contract_ok by (simp add: ex_life_def)
  moreover have "[] \<notin> supported_branches (authority ex_life)" by code_simp
  ultimately show ?thesis using ex_scoped by (simp add: live_ok_def ex_life_def)
qed

lemma ex_life_ok: "lifecycle_ok ex_life" "guards_scoped (lcontract ex_life)"
  "[] \<notin> supported_branches (authority ex_life)"
  using ex_life_live by (simp_all add: live_ok_def)

lemma ex_ready: "prepare_ready ex_life ex_bindings ''h''"
  by code_simp

lemma ex_prepare_runs: "prepare_operations ex_life ex_bindings ''h'' = Inr ex_prepared"
proof -
  have "is_ok (prepare_operations ex_life ex_bindings ''h'')" by code_simp
  then show ?thesis by (auto simp: is_ok_iff ex_prepared_def)
qed

lemma ex_prepared_ok: "lifecycle_ok ex_prepared"
  using lstep_live_ok [OF lstep_prepare [OF ex_prepare_runs] ex_life_live] by (simp add: live_ok_def)

definition ex_dispatched :: lifecycle where
  "ex_dispatched = (case dispatch_operation ex_prepared ''op'' of Inr st \<Rightarrow> step_state st | Inl _ \<Rightarrow> ex_life)"

lemma ex_run: "run lstep ex_life [Prepare ex_bindings ''h'', Dispatch ''op''] ex_dispatched"
proof -
  have "is_ok (dispatch_operation ex_prepared ''op'')" by code_simp
  then obtain st where "dispatch_operation ex_prepared ''op'' = Inr st" by (auto simp: is_ok_iff)
  then have "lstep ex_prepared (Dispatch ''op'') ex_dispatched"
    using lstep_dispatch by (simp add: ex_dispatched_def)
  then show ?thesis
    using lstep_prepare [OF ex_prepare_runs] by (auto intro: run_Cons run_Nil)
qed

theorem prepare_decided_by_grant_witness:
  "\<exists>m. prepare_operations ex_life ex_bindings ''h'' = Inr m \<and> lifecycle_ok m"
proof -
  have "promote_plain (authority ex_life) (binding_claims ex_bindings) = Inr ex_promoted"
    "vle (ddemand ex_promoted) (grant (authority ex_life))"
    by code_simp+
  then show ?thesis using prepare_decided_by_grant [OF ex_life_ok(1,3) ex_ready, of ex_promoted] by auto
qed

theorem refinement_always_goes_through_witness:
  "\<exists>m. refine_lifecycle_leaf ex_life ''left'' [''l1'', ''l2''] False [(''a'', ''l1'')] True = Inr m \<and> lifecycle_ok m"
proof -
  have "refine_ready ex_life ''left'' [''l1'', ''l2''] [(''a'', ''l1'')] True"
    using ex_leaf(1) by (auto simp: refine_ready_def ex_life_def ex_state_def ex_a_def intro!: image_eqI [of _ _ ex_a])
  from refinement_always_goes_through [OF ex_life_ok this, of False] show ?thesis by blast
qed

theorem released_once_within_grant_witness:
  "vle (released_demand ex_dispatched {''op''}) (grant (authority ex_life)) \<and>
   ''op'' \<in> spent_operations ex_dispatched"
  using released_once_within_grant [OF ex_run ex_life_live] by simp

theorem history_never_erased_witness:
  "lifecycle_ok ex_dispatched \<and> set (used_operations ex_life) \<subseteq> set (used_operations ex_dispatched)"
  using history_never_erased [OF ex_run ex_life_live] by blast

definition ex_ticket :: ticket where
  "ex_ticket = \<lparr>ticket_operation = ''op'', ticket_claim = ''a'', phase = ''prepared'', retry_mode = ''deduplicated''\<rparr>"

theorem tickets_never_stuck_witness:
  "\<exists>l1 st l2. crash_recover ex_prepared = Inr l1 \<and> dispatch_operation l1 ''op'' = Inr st \<and>
     settle_operation (step_state st) ''op'' ''done'' = Inr l2"
proof -
  have "ex_ticket \<in> set (tickets ex_prepared)" "''done'' \<noteq> []" "phase ex_ticket = ''prepared''"
    "ticket_operation ex_ticket = ''op''"
    by code_simp+
  then show ?thesis using tickets_never_stuck [OF ex_prepared_ok, of ex_ticket "''done''"] by auto
qed

theorem revocation_is_final_witness:
  "\<exists>m. revoke_epoch ex_life ''e'' = Inr m \<and> live_ok m"
proof -
  have "''e'' \<in> set (epochs ex_life)" "''e'' \<notin> closed_epochs ex_life" by code_simp+
  from revocation_is_final [OF ex_life_live this] show ?thesis by blast
qed

theorem fresh_lifecycle_starts_run_witness:
  "\<exists>l. make_lifecycle_state ex_state None [''e''] None {} [] [] {} {} = Inr l \<and> live_ok l"
proof -
  have "owner_support_well_formed ex_state None" "[] \<notin> supported_branches ex_state" by code_simp+
  from fresh_lifecycle_starts_run [OF ex_state_ok ex_continuous this, of "''e''"] show ?thesis by blast
qed

end
