(* ===== verification/Redemption.thy ===== *)
theory Redemption
  imports Machines
begin

text \<open>
  The redemption runtime of \<open>adapter/redemption_semantics.py\<close>: copyable handles, durable
  cells that escrow named rights, and the atomic operations on them. Every method runs under one
  lock, copies the state, works on the copy and stores it at the end; here it is a function from
  the state to the next state and its result, and a method that raises before it stores
  returns the old state. Dictionaries are association lists in insertion order.
\<close>

section \<open>Data\<close>

record rhandle =
  alias_id :: string
  handle_cell :: string
  handle_epoch :: nat

record rcell =
  cell_id :: string
  cell_label :: string
  cell_epoch :: nat
  cell_open :: bool
  unspent :: "string set"
  receipt_refs :: "string set"

record linearization =
  lin_sequence :: nat
  lin_effect :: string
  lin_digest :: string
  lin_label :: string
  lin_cell :: string
  lin_epoch :: nat
  lin_right :: string

record rticket =
  rt_effect :: string
  rt_digest :: string
  rt_label :: string
  rt_cell :: string
  rt_epoch :: nat
  rt_right :: string
  rt_sequence :: nat
  rt_phase :: string

record rreceipt =
  rr_effect :: string
  rr_digest :: string
  rr_label :: string
  rr_cell :: string
  rr_right :: string
  rr_sequence :: nat
  rr_outcome :: string

record sink_effect =
  se_sequence :: nat
  se_effect :: string
  se_digest :: string
  se_label :: string
  se_right :: string

record prepare_decision =
  accepted :: bool
  linearized :: bool
  reason :: string
  decided_effect :: string
  decided_right :: "string option"
  decided_cell :: "string option"

record conservation_report =
  report_label :: string
  minted_capacity :: nat
  unique_unspent :: nat
  unique_redeemed :: nat
  controller_prepare_successes :: nat
  external_sink_effects :: nat
  duplicate_unspent :: "string list"
  unspent_and_redeemed :: "string list"
  duplicate_redemptions :: "string list"
  missing_rights :: "string list"
  unknown_rights :: "string list"

definition report_safe :: "conservation_report \<Rightarrow> bool" where
  "report_safe r \<longleftrightarrow> \<not> (duplicate_unspent r \<noteq> [] \<or> unspent_and_redeemed r \<noteq> [] \<or>
     duplicate_redemptions r \<noteq> [] \<or> missing_rights r \<noteq> [] \<or> unknown_rights r \<noteq> [] \<or>
     unique_unspent r + unique_redeemed r \<noteq> minted_capacity r)"

record rstate =
  cells :: "(string \<times> rcell) list"
  rtickets :: "(string \<times> rticket) list"
  rreceipts :: "(string \<times> rreceipt) list"
  prepare_log :: "linearization list"
  sink_log :: "sink_effect list"
  minted_rights :: "(string \<times> string set) list"
  next_cell :: nat
  next_event :: nat

definition empty_runtime :: rstate where
  "empty_runtime = \<lparr>cells = [], rtickets = [], rreceipts = [], prepare_log = [], sink_log = [],
     minted_rights = [], next_cell = 0, next_event = 1\<rparr>"

section \<open>Helpers\<close>

text \<open>Storing the candidate at the end of a method; a method that raised leaves the state.\<close>

definition store :: "rstate \<Rightarrow> (rstate \<times> 'a) result \<Rightarrow> rstate \<times> 'a result" where
  "store s m = (case m of Inl e \<Rightarrow> (s, Inl e) | Inr (s', x) \<Rightarrow> (s', Inr x))"

definition require_name :: "string \<Rightarrow> string \<Rightarrow> unit result" where
  "require_name value what =
     (if value = [] then Inl (ValueError (what @ '' must be a nonempty string'')) else Inr ())"

definition cell_name :: "nat \<Rightarrow> string" where
  "cell_name n = ''cell:'' @ show_nat n"

definition new_cell_id :: "rstate \<Rightarrow> string \<times> rstate" where
  "new_cell_id s = (cell_name (next_cell s), s\<lparr>next_cell := next_cell s + 1\<rparr>)"

definition new_event_sequence :: "rstate \<Rightarrow> nat \<times> rstate" where
  "new_event_sequence s = (next_event s, s\<lparr>next_event := next_event s + 1\<rparr>)"

definition put_cell :: "rcell \<Rightarrow> rstate \<Rightarrow> rstate" where
  "put_cell c s = s\<lparr>cells := AList.update (cell_id c) c (cells s)\<rparr>"

definition cell_for_handle :: "rstate \<Rightarrow> rhandle \<Rightarrow> rcell result" where
  "cell_for_handle s h =
     (case map_of (cells s) (handle_cell h) of
        None \<Rightarrow> Inl (LifecycleRejected ''unknown redemption cell'')
      | Some c \<Rightarrow>
          if handle_epoch h \<noteq> cell_epoch c then Inl (LifecycleRejected ''stale cell epoch'')
          else if \<not> cell_open c then Inl (LifecycleRejected ''redemption cell is fenced'')
          else Inr c)"

text \<open>The cells and the redemptions of a label, as \<open>_report\<close> collects them.\<close>

definition label_cells :: "rstate \<Rightarrow> string \<Rightarrow> rcell list" where
  "label_cells s l = filter (\<lambda>c. cell_label c = l) (map snd (cells s))"

definition right_owners :: "rstate \<Rightarrow> string \<Rightarrow> string \<Rightarrow> string set" where
  "right_owners s l r = cell_id ` set (filter (\<lambda>c. r \<in> unspent c) (label_cells s l))"

definition unspent_rights :: "rstate \<Rightarrow> string \<Rightarrow> string set" where
  "unspent_rights s l = \<Union> (set (map unspent (label_cells s l)))"

definition redemptions :: "rstate \<Rightarrow> string \<Rightarrow> linearization list" where
  "redemptions s l = filter (\<lambda>e. lin_label e = l) (prepare_log s)"

definition minted :: "rstate \<Rightarrow> string \<Rightarrow> string set" where
  "minted s l = (case map_of (minted_rights s) l of None \<Rightarrow> {} | Some rs \<Rightarrow> rs)"

definition report :: "rstate \<Rightarrow> string \<Rightarrow> conservation_report" where
  "report s l =
     (let rights = minted s l;
          unspent = unspent_rights s l;
          events = redemptions s l;
          redeemed = lin_right ` set events;
          observed = unspent \<union> redeemed in
      \<lparr>report_label = l, minted_capacity = card rights, unique_unspent = card unspent,
       unique_redeemed = card redeemed, controller_prepare_successes = length events,
       external_sink_effects = length (filter (\<lambda>e. se_label e = l) (sink_log s)),
       duplicate_unspent =
         filter (\<lambda>r. 1 < card (right_owners s l r)) (sorted_list_of_set unspent),
       unspent_and_redeemed = sorted_list_of_set (unspent \<inter> redeemed),
       duplicate_redemptions =
         filter (\<lambda>r. 1 < length (filter (\<lambda>e. lin_right e = r) events)) (sorted_list_of_set redeemed),
       missing_rights = sorted_list_of_set (rights - observed),
       unknown_rights = sorted_list_of_set (observed - rights)\<rparr>)"

definition require_conserved :: "rstate \<Rightarrow> string \<Rightarrow> unit result" where
  "require_conserved s l =
     (if \<not> report_safe (report s l) then Inl (LifecycleRejected ''logical authority is already amplified'')
      else Inr ())"

section \<open>Operations\<close>

definition right_name :: "string \<Rightarrow> nat \<Rightarrow> string" where
  "right_name l index = l @ '':right:'' @ show_nat index"

definition mint :: "string \<Rightarrow> int \<Rightarrow> string \<Rightarrow> rstate \<Rightarrow> rstate \<times> rhandle result" where
  "mint l capacity alias s = store s
     (bind_r (require_name l ''logical label'') (\<lambda>_.
      bind_r (require_name alias ''alias id'') (\<lambda>_.
      if capacity \<le> 0 then Inl (ValueError ''capacity must be a positive integer'')
      else if l \<in> fst ` set (minted_rights s)
      then Inl (ValueError ''logical label has already been minted'')
      else
        let (cid, s1) = new_cell_id s;
            rights = set (map (right_name l) [0..<nat capacity]);
            s2 = put_cell \<lparr>cell_id = cid, cell_label = l, cell_epoch = 0, cell_open = True,
                   unspent = rights, receipt_refs = {}\<rparr>
                   (s1\<lparr>minted_rights := AList.update l rights (minted_rights s1)\<rparr>) in
        bind_r (require_conserved s2 l) (\<lambda>_.
        Inr (s2, \<lparr>alias_id = alias, handle_cell = cid, handle_epoch = 0\<rparr>)))))"

definition make_alias :: "rhandle \<Rightarrow> string \<Rightarrow> rstate \<Rightarrow> rstate \<times> rhandle result" where
  "make_alias h alias s = store s
     (bind_r (require_name alias ''alias id'') (\<lambda>_.
      if handle_cell h \<notin> fst ` set (cells s)
      then Inl (LifecycleRejected ''unknown redemption cell'')
      else Inr (s, \<lparr>alias_id = alias, handle_cell = handle_cell h, handle_epoch = handle_epoch h\<rparr>)))"

definition unsafe_clone_private_cell :: "rhandle \<Rightarrow> string \<Rightarrow> rstate \<Rightarrow> rstate \<times> rhandle result" where
  "unsafe_clone_private_cell h alias s = store s
     (bind_r (require_name alias ''alias id'') (\<lambda>_.
      bind_r (cell_for_handle s h) (\<lambda>source.
      if \<exists>(_, t)\<in>set (rtickets s). rt_cell t = cell_id source
      then Inl (LifecycleRejected ''negative-control clone requires no open ticket'')
      else
        let (cid, s1) = new_cell_id s;
            s2 = put_cell \<lparr>cell_id = cid, cell_label = cell_label source, cell_epoch = cell_epoch source,
                   cell_open = True, unspent = unspent source, receipt_refs = receipt_refs source\<rparr> s1 in
        Inr (s2, \<lparr>alias_id = alias, handle_cell = cid, handle_epoch = cell_epoch source\<rparr>))))"

definition mk_decision :: "bool \<Rightarrow> bool \<Rightarrow> string \<Rightarrow> string \<Rightarrow> string option \<Rightarrow> string option \<Rightarrow> prepare_decision" where
  "mk_decision acc lin why e r c =
     \<lparr>accepted = acc, linearized = lin, reason = why, decided_effect = e, decided_right = r, decided_cell = c\<rparr>"

text \<open>
  The stable binding of an effect: the digest, cell and right of its ticket, or of its receipt
  when there is no ticket.
\<close>

definition prior_binding :: "rstate \<Rightarrow> string \<Rightarrow> (string \<times> string \<times> string) option" where
  "prior_binding s e =
     (case map_of (rtickets s) e of
        Some t \<Rightarrow> Some (rt_digest t, rt_cell t, rt_right t)
      | None \<Rightarrow> (case map_of (rreceipts s) e of
          Some r \<Rightarrow> Some (rr_digest r, rr_cell r, rr_right r)
        | None \<Rightarrow> None))"

text \<open>The exchange of one right for one ticket in the candidate.\<close>

definition linearize :: "rstate \<Rightarrow> rcell \<Rightarrow> string \<Rightarrow> string \<Rightarrow> rstate \<times> string" where
  "linearize s c e digest =
     (let r = Min (unspent c);
          (q, s1) = new_event_sequence (put_cell (c\<lparr>unspent := unspent c - {r}\<rparr>) s);
          event = \<lparr>lin_sequence = q, lin_effect = e, lin_digest = digest, lin_label = cell_label c,
                   lin_cell = cell_id c, lin_epoch = cell_epoch c, lin_right = r\<rparr>;
          t = \<lparr>rt_effect = e, rt_digest = digest, rt_label = cell_label c, rt_cell = cell_id c,
               rt_epoch = cell_epoch c, rt_right = r, rt_sequence = q, rt_phase = ''prepared''\<rparr> in
      (s1\<lparr>prepare_log := prepare_log s1 @ [event], rtickets := AList.update e t (rtickets s1)\<rparr>, r))"

definition prepare :: "rhandle \<Rightarrow> string \<Rightarrow> string \<Rightarrow> string option \<Rightarrow> rstate \<Rightarrow> rstate \<times> prepare_decision result" where
  "prepare h e digest crash_at s =
     (case bind_r (require_name e ''effect id'') (\<lambda>_. require_name digest ''request digest'') of
        Inl err \<Rightarrow> (s, Inl err)
      | Inr _ \<Rightarrow>
        if crash_at \<notin> {None, Some ''before_commit'', Some ''after_commit''}
        then (s, Inl (ValueError ''unknown Prepare crash cut''))
        else case cell_for_handle s h of
          Inl err \<Rightarrow> (s, Inr (mk_decision False False (error_message err) e None None))
        | Inr c \<Rightarrow> (case prior_binding s e of
            Some (d, cid, r) \<Rightarrow>
              if d \<noteq> digest \<or> cid \<noteq> cell_id c
              then (s, Inr (mk_decision False False ''stable effect id is already bound differently'' e None None))
              else (s, Inr (mk_decision True False ''idempotent Prepare replay'' e (Some r) (Some (cell_id c))))
          | None \<Rightarrow>
              if unspent c = {}
              then (s, Inr (mk_decision False False ''no unspent right in redemption cell'' e None None))
              else let (candidate, r) = linearize s c e digest in
                if crash_at = Some ''before_commit'' then (s, Inl (InjectedPrepareCrash ''before''))
                else if crash_at = Some ''after_commit'' then (candidate, Inl (InjectedPrepareCrash ''after''))
                else (candidate, Inr (mk_decision True True ''Prepare linearized'' e (Some r) (Some (cell_id c))))))"

definition dispatch :: "string \<Rightarrow> rstate \<Rightarrow> rstate \<times> sink_effect result" where
  "dispatch e s = store s
     (bind_r (require_name e ''effect id'') (\<lambda>_.
      case map_of (rtickets s) e of
        None \<Rightarrow> Inl (LifecycleRejected ''dispatch requires a prepared ticket'')
      | Some t \<Rightarrow>
          if rt_phase t \<noteq> ''prepared'' then Inl (LifecycleRejected ''dispatch requires a prepared ticket'')
          else
            let (q, s1) = new_event_sequence s;
                eff = \<lparr>se_sequence = q, se_effect = e, se_digest = rt_digest t, se_label = rt_label t,
                       se_right = rt_right t\<rparr> in
            Inr (s1\<lparr>rtickets := AList.update e (t\<lparr>rt_phase := ''inflight''\<rparr>) (rtickets s1),
                    sink_log := sink_log s1 @ [eff]\<rparr>, eff)))"

definition settle :: "string \<Rightarrow> string \<Rightarrow> rstate \<Rightarrow> rstate \<times> rreceipt result" where
  "settle e res s = store s
     (bind_r (require_name e ''effect id'') (\<lambda>_.
      bind_r (require_name res ''outcome'') (\<lambda>_.
      case map_of (rtickets s) e of
        None \<Rightarrow> Inl (LifecycleRejected ''settlement requires an inflight ticket'')
      | Some t \<Rightarrow>
          if rt_phase t \<noteq> ''inflight'' then Inl (LifecycleRejected ''settlement requires an inflight ticket'')
          else
            let r = \<lparr>rr_effect = rt_effect t, rr_digest = rt_digest t, rr_label = rt_label t,
                     rr_cell = rt_cell t, rr_right = rt_right t, rr_sequence = rt_sequence t,
                     rr_outcome = res\<rparr> in
            bind_r (dict_get (cells s) (rt_cell t)) (\<lambda>c.
            Inr (put_cell (c\<lparr>receipt_refs := insert e (receipt_refs c)\<rparr>)
                   (s\<lparr>rtickets := AList.delete e (rtickets s),
                      rreceipts := AList.update e r (rreceipts s)\<rparr>), r)))))"

definition replace_restore :: "rhandle \<Rightarrow> string \<Rightarrow> rstate \<Rightarrow> rstate \<times> rhandle result" where
  "replace_restore h alias s = store s
     (bind_r (require_name alias ''alias id'') (\<lambda>_.
      bind_r (cell_for_handle s h) (\<lambda>c.
      bind_r (require_conserved s (cell_label c)) (\<lambda>_.
      let c' = c\<lparr>cell_epoch := cell_epoch c + 1\<rparr>;
          s1 = put_cell c' s in
      bind_r (require_conserved s1 (cell_label c)) (\<lambda>_.
      Inr (s1, \<lparr>alias_id = alias, handle_cell = cell_id c, handle_epoch = cell_epoch c'\<rparr>))))))"

text \<open>The validation loop of the allocations of a fork.\<close>

fun normalize_allocations :: "(string \<times> int) list \<Rightarrow> (string \<times> int) list \<Rightarrow> (string \<times> int) list result" where
  "normalize_allocations seen [] = Inr seen"
| "normalize_allocations seen ((alias, amount) # rest) =
     bind_r (require_name alias ''child alias id'') (\<lambda>_.
     if amount \<le> 0 then Inl (ValueError ''child allocation must be a positive integer'')
     else if alias \<in> fst ` set seen then Inl (ValueError ''duplicate child alias'')
     else normalize_allocations (seen @ [(alias, amount)]) rest)"

text \<open>Fencing a cell: its escrow is moved out, it closes and its epoch advances.\<close>

definition fence :: "rcell \<Rightarrow> rcell" where
  "fence c = c\<lparr>unspent := {}, cell_open := False, cell_epoch := cell_epoch c + 1\<rparr>"

fun fork_children :: "rcell \<Rightarrow> string list \<Rightarrow> (string \<times> int) list \<Rightarrow> rstate \<Rightarrow> rstate \<times> (string \<times> rhandle) list" where
  "fork_children c rights [] s = (s, [])"
| "fork_children c rights ((alias, amount) # rest) s =
     (let (cid, s1) = new_cell_id s;
          s2 = put_cell \<lparr>cell_id = cid, cell_label = cell_label c, cell_epoch = 0, cell_open = True,
                 unspent = set (take (nat amount) rights), receipt_refs = receipt_refs c\<rparr> s1;
          (s3, hs) = fork_children c (drop (nat amount) rights) rest s2 in
      (s3, (alias, \<lparr>alias_id = alias, handle_cell = cid, handle_epoch = 0\<rparr>) # hs))"

definition detached_fork ::
    "rhandle \<Rightarrow> (string \<times> int) list \<Rightarrow> rstate \<Rightarrow> rstate \<times> (string \<times> rhandle) list result" where
  "detached_fork h allocations s = store s
     (if allocations = [] then Inl (ValueError ''detached fork requires at least one child'')
      else bind_r (normalize_allocations [] allocations) (\<lambda>normalized.
      bind_r (cell_for_handle s h) (\<lambda>c.
      bind_r (require_conserved s (cell_label c)) (\<lambda>_.
      if \<exists>(_, t)\<in>set (rtickets s). rt_cell t = cell_id c
      then Inl (LifecycleRejected ''detached fork requires settled source tickets'')
      else if (\<Sum>(_, amount)\<leftarrow>normalized. amount) \<noteq> int (card (unspent c))
      then Inl (LifecycleRejected ''fork allocations must partition all unspent escrow'')
      else
        let (s1, hs) = fork_children c (sorted_list_of_set (unspent c)) (sort_key fst normalized)
                         (put_cell (fence c) s) in
        bind_r (require_conserved s1 (cell_label c)) (\<lambda>_. Inr (s1, hs))))))"

text \<open>The transfer loop of a merge: the union of the escrows, which must not overlap.\<close>

fun merge_transfer :: "string set \<Rightarrow> string set \<Rightarrow> rcell list \<Rightarrow> (string set \<times> string set) result" where
  "merge_transfer rights refs [] = Inr (rights, refs)"
| "merge_transfer rights refs (c # cs) =
     (if rights \<inter> unspent c \<noteq> {}
      then Inl (LifecycleRejected ''merge sources overlap in unspent escrow'')
      else merge_transfer (rights \<union> unspent c) (refs \<union> receipt_refs c) cs)"

definition merge :: "rhandle list \<Rightarrow> string \<Rightarrow> rstate \<Rightarrow> rstate \<times> rhandle result" where
  "merge sources alias s = store s
     (bind_r (require_name alias ''alias id'') (\<lambda>_.
      if length sources < 2 \<or> \<not> distinct (map handle_cell sources)
      then Inl (ValueError ''merge requires at least two distinct source cells'')
      else bind_r (map_r (cell_for_handle s) sources) (\<lambda>cs.
      if card (cell_label ` set cs) \<noteq> 1
      then Inl (LifecycleRejected ''merge sources have different logical labels'')
      else let l = cell_label (hd cs) in
      bind_r (require_conserved s l) (\<lambda>_.
      if \<exists>(_, t)\<in>set (rtickets s). rt_cell t \<in> cell_id ` set cs
      then Inl (LifecycleRejected ''merge requires settled source tickets'')
      else bind_r (merge_transfer {} {} cs) (\<lambda>(rights, refs).
        let (cid, s1) = new_cell_id (fold (\<lambda>c. put_cell (fence c)) cs s);
            s2 = put_cell \<lparr>cell_id = cid, cell_label = l, cell_epoch = 0, cell_open = True,
                   unspent = rights, receipt_refs = refs\<rparr> s1 in
        bind_r (require_conserved s2 l) (\<lambda>_.
        Inr (s2, \<lparr>alias_id = alias, handle_cell = cid, handle_epoch = 0\<rparr>)))))))"

section \<open>Views\<close>

record cell_view =
  view_cell :: string
  view_label :: string
  view_epoch :: nat
  view_open :: bool
  view_unspent :: "string list"
  view_receipts :: "string list"

definition cell_snapshot :: "rhandle \<Rightarrow> bool \<Rightarrow> rstate \<Rightarrow> cell_view result" where
  "cell_snapshot h require_current s =
     (case map_of (cells s) (handle_cell h) of
        None \<Rightarrow> Inl (LifecycleRejected ''unknown redemption cell'')
      | Some c0 \<Rightarrow>
          bind_r (if require_current then cell_for_handle s h else Inr c0) (\<lambda>c.
          Inr \<lparr>view_cell = cell_id c, view_label = cell_label c, view_epoch = cell_epoch c,
               view_open = cell_open c, view_unspent = sorted_list_of_set (unspent c),
               view_receipts = sorted_list_of_set (receipt_refs c)\<rparr>))"

record ticket_view =
  view_ticket_cell :: string
  view_right :: string
  view_phase :: string
  view_digest :: string

definition ticket_snapshot :: "rstate \<Rightarrow> (string \<times> ticket_view) list" where
  "ticket_snapshot s =
     map (\<lambda>(e, t). (e, \<lparr>view_ticket_cell = rt_cell t, view_right = rt_right t, view_phase = rt_phase t,
                        view_digest = rt_digest t\<rparr>)) (sort_key fst (rtickets s))"

section \<open>The conserved quantity\<close>

text \<open>
  The tokens of a label: the rights escrowed in its cells, and the rights its redemptions
  consumed, as multisets. A label is conserved when together they are the minted rights,
  each exactly once.
\<close>

definition escrow_of :: "string \<Rightarrow> rcell \<Rightarrow> string multiset" where
  "escrow_of l c = (if cell_label c = l then mset_set (unspent c) else {#})"

definition escrow :: "(string \<times> rcell) list \<Rightarrow> string \<Rightarrow> string multiset" where
  "escrow cs l = (\<Sum>(_, c)\<leftarrow>cs. escrow_of l c)"

definition redeemed :: "rstate \<Rightarrow> string \<Rightarrow> string multiset" where
  "redeemed s l = mset (map lin_right (redemptions s l))"

definition conserved :: "rstate \<Rightarrow> string \<Rightarrow> bool" where
  "conserved s l \<longleftrightarrow> escrow (cells s) l + redeemed s l = mset_set (minted s l)"

definition cell_ok :: "nat \<Rightarrow> string \<Rightarrow> rcell \<Rightarrow> bool" where
  "cell_ok n k c \<longleftrightarrow> cell_id c = k \<and> finite (unspent c) \<and> (\<exists>i<n. k = cell_name i) \<and>
     (\<not> cell_open c \<longrightarrow> unspent c = {})"

definition cells_inv :: "rstate \<Rightarrow> bool" where
  "cells_inv s \<longleftrightarrow> distinct (map fst (cells s)) \<and> distinct (map fst (minted_rights s)) \<and>
     (\<forall>(k, c)\<in>set (cells s). cell_ok (next_cell s) k c \<and> cell_label c \<in> fst ` set (minted_rights s)) \<and>
     (\<forall>(l, rs)\<in>set (minted_rights s). finite rs) \<and>
     (\<forall>e\<in>set (prepare_log s). lin_label e \<in> fst ` set (minted_rights s))"

lemma cell_name_inject [simp]: "cell_name m = cell_name n \<longleftrightarrow> m = n"
  by (simp add: cell_name_def)

lemma cells_invD:
  assumes "cells_inv s"
  shows "distinct (map fst (cells s))" "distinct (map fst (minted_rights s))"
    "\<And>k c. map_of (cells s) k = Some c \<Longrightarrow> cell_ok (next_cell s) k c"
    "\<And>k c. (k, c) \<in> set (cells s) \<Longrightarrow> cell_ok (next_cell s) k c"
    "\<And>k c. map_of (cells s) k = Some c \<Longrightarrow> cell_label c \<in> fst ` set (minted_rights s)"
    "cell_name (next_cell s) \<notin> fst ` set (cells s)"
  using assms by (auto simp: cells_inv_def cell_ok_def dest!: map_of_SomeD)

section \<open>Updating one cell\<close>

lemma escrow_Cons [simp]: "escrow ((k, c) # cs) l = escrow_of l c + escrow cs l"
  by (simp add: escrow_def)

lemma escrow_Nil [simp]: "escrow [] l = {#}"
  by (simp add: escrow_def)

lemma escrow_append [simp]: "escrow (cs @ ds) l = escrow cs l + escrow ds l"
  by (simp add: escrow_def)

lemma escrow_update_fresh:
  "k \<notin> fst ` set cs \<Longrightarrow> escrow (AList.update k c cs) l = escrow cs l + escrow_of l c"
  by (simp add: update_fresh)

lemma escrow_update_old:
  "map_of cs k = Some c0 \<Longrightarrow> escrow (AList.update k c cs) l + escrow_of l c0 = escrow cs l + escrow_of l c"
  by (induction cs) (auto split: if_splits)

lemma put_cell_simps [simp]:
  "map_of (cells (put_cell c s)) = (map_of (cells s))(cell_id c \<mapsto> c)"
  "rtickets (put_cell c s) = rtickets s" "rreceipts (put_cell c s) = rreceipts s"
  "prepare_log (put_cell c s) = prepare_log s" "sink_log (put_cell c s) = sink_log s"
  "minted_rights (put_cell c s) = minted_rights s" "next_cell (put_cell c s) = next_cell s"
  "next_event (put_cell c s) = next_event s"
  by (simp_all add: put_cell_def AList.update_conv')

lemma cells_inv_put:
  assumes "cells_inv s" and "cell_ok (next_cell s) (cell_id c) c" and "cell_label c \<in> fst ` set (minted_rights s)"
  shows "cells_inv (put_cell c s)"
proof -
  have "distinct (map fst (AList.update (cell_id c) c (cells s)))"
    by (rule AList.distinct_update [OF cells_invD(1) [OF assms(1)]])
  moreover have "cell_ok (next_cell s) k d \<and> cell_label d \<in> fst ` set (minted_rights s)"
    if kd: "(k, d) \<in> set (AList.update (cell_id c) c (cells s))" for k d
  proof -
    have "(k, d) = (cell_id c, c) \<or> (k, d) \<in> set (cells s)" by (rule set_alist_update [OF kd])
    then show ?thesis using assms by (auto simp: cells_inv_def)
  qed
  ultimately show ?thesis using assms(1) by (auto simp: cells_inv_def put_cell_def)
qed

section \<open>The report decides conservation\<close>

lemma count_escrow:
  assumes "\<forall>(k, c)\<in>set cs. finite (unspent c)"
  shows "count (escrow cs l) r = length (filter (\<lambda>(k, c). cell_label c = l \<and> r \<in> unspent c) cs)"
  using assms by (induction cs) (auto simp: escrow_of_def split: if_splits)

lemma card_right_owners:
  assumes "cells_inv s"
  shows "card (right_owners s l r) = count (escrow (cells s) l) r"
proof -
  let ?P = "\<lambda>(k, c). cell_label c = l \<and> r \<in> unspent c"
  have fin: "\<forall>(k, c)\<in>set (cells s). finite (unspent c)" using assms by (auto simp: cells_inv_def cell_ok_def)
  have "right_owners s l r = fst ` set (filter ?P (cells s))"
    using cells_invD(4) [OF assms] by (force simp: right_owners_def label_cells_def cell_ok_def image_iff)
  moreover have "distinct (map fst (filter ?P (cells s)))"
    using cells_invD(1) [OF assms] by (rule distinct_map_filter)
  ultimately show ?thesis
    using distinct_card [of "map fst (filter ?P (cells s))"] by (simp add: count_escrow [OF fin])
qed

lemma finite_minted: "cells_inv s \<Longrightarrow> finite (minted s l)"
  by (auto simp: minted_def cells_inv_def split: option.splits dest!: map_of_SomeD)

lemma unspent_rights_iff:
  assumes "cells_inv s"
  shows "r \<in> unspent_rights s l \<longleftrightarrow> r \<in># escrow (cells s) l" "finite (unspent_rights s l)"
proof -
  have fin: "\<forall>(k, c)\<in>set (cells s). finite (unspent c)" using assms by (auto simp: cells_inv_def cell_ok_def)
  have "r \<in># escrow (cells s) l \<longleftrightarrow> filter (\<lambda>(k, c). cell_label c = l \<and> r \<in> unspent c) (cells s) \<noteq> []"
    by (simp add: count_escrow [OF fin] flip: count_greater_zero_iff)
  then show "r \<in> unspent_rights s l \<longleftrightarrow> r \<in># escrow (cells s) l"
    by (force simp: unspent_rights_def label_cells_def filter_empty_conv)
  show "finite (unspent_rights s l)" using fin by (auto simp: unspent_rights_def label_cells_def)
qed

lemma conserved_count:
  assumes "cells_inv s"
  shows "conserved s l \<longleftrightarrow> (\<forall>r. count (escrow (cells s) l) r + count (redeemed s l) r = of_bool (r \<in> minted s l))"
  unfolding conserved_def multiset_eq_iff using finite_minted [OF assms, of l]
  by (simp add: count_mset_set' of_bool_def)

lemma count_mset_map: "count (mset (map f xs)) r = length (filter (\<lambda>x. f x = r) xs)"
  by (induction xs) auto

lemma report_safe_sets:
  assumes "cells_inv s"
  shows "report_safe (report s l) \<longleftrightarrow>
    (\<forall>r. count (escrow (cells s) l) r \<le> 1) \<and> (\<forall>r. count (redeemed s l) r \<le> 1) \<and>
    set_mset (escrow (cells s) l) \<inter> set_mset (redeemed s l) = {} \<and>
    set_mset (escrow (cells s) l) \<union> set_mset (redeemed s l) = minted s l \<and>
    card (set_mset (escrow (cells s) l)) + card (set_mset (redeemed s l)) = card (minted s l)"
proof -
  let ?E = "escrow (cells s) l" and ?R = "redeemed s l"
  have u: "unspent_rights s l = set_mset ?E" using unspent_rights_iff [OF assms] by blast
  have r: "lin_right ` set (redemptions s l) = set_mset ?R" by (simp add: redeemed_def)
  have dup: "(\<forall>x\<in>set_mset ?E. \<not> 1 < count ?E x) \<longleftrightarrow> (\<forall>x. count ?E x \<le> 1)"
    "(\<forall>x\<in>set_mset ?R. \<not> 1 < count ?R x) \<longleftrightarrow> (\<forall>x. count ?R x \<le> 1)"
    by (auto simp: not_less) (metis count_inI le0 order_refl zero_le)+
  have un: "(minted s l - (set_mset ?E \<union> set_mset ?R) = {} \<and> set_mset ?E \<union> set_mset ?R - minted s l = {}) \<longleftrightarrow>
      set_mset ?E \<union> set_mset ?R = minted s l" by blast
  have fin: "finite (minted s l)" by (rule finite_minted [OF assms])
  have "report_safe (report s l) \<longleftrightarrow>
      (\<forall>x\<in>set_mset ?E. \<not> 1 < count ?E x) \<and> set_mset ?E \<inter> set_mset ?R = {} \<and>
      (\<forall>x\<in>set_mset ?R. \<not> 1 < count ?R x) \<and>
      (minted s l - (set_mset ?E \<union> set_mset ?R) = {} \<and> set_mset ?E \<union> set_mset ?R - minted s l = {}) \<and>
      card (set_mset ?E) + card (set_mset ?R) = card (minted s l)"
    using fin by (simp add: report_safe_def report_def Let_def u r filter_empty_conv card_right_owners [OF assms]
        flip: count_mset_map redeemed_def) (auto simp: redeemed_def)
  then show ?thesis unfolding dup un by blast
qed

lemma report_safe_iff:
  assumes "cells_inv s"
  shows "report_safe (report s l) \<longleftrightarrow> conserved s l"
proof
  let ?E = "escrow (cells s) l" and ?R = "redeemed s l"
  assume "report_safe (report s l)"
  then have a: "\<And>r. count ?E r \<le> 1" "\<And>r. count ?R r \<le> 1" "set_mset ?E \<inter> set_mset ?R = {}"
    "set_mset ?E \<union> set_mset ?R = minted s l"
    unfolding report_safe_sets [OF assms] by blast+
  have "count ?E r + count ?R r = of_bool (r \<in> minted s l)" for r
  proof -
    have "r \<in> minted s l \<longleftrightarrow> count ?E r > 0 \<or> count ?R r > 0" unfolding a(4) [symmetric] by auto
    moreover have "\<not> (count ?E r > 0 \<and> count ?R r > 0)" using a(3) by auto
    ultimately show ?thesis using a(1,2) [of r]
      by (cases "r \<in> minted s l") (auto simp del: count_greater_zero_iff)
  qed
  then show "conserved s l" unfolding conserved_count [OF assms] by blast
next
  let ?E = "escrow (cells s) l" and ?R = "redeemed s l"
  assume c: "conserved s l"
  then have cnt: "count ?E r + count ?R r = of_bool (r \<in> minted s l)" for r
    unfolding conserved_count [OF assms] by blast
  have one: "count ?E r + count ?R r \<le> 1" for r unfolding cnt by simp
  then have le: "\<forall>r. count ?E r \<le> 1" "\<forall>r. count ?R r \<le> 1" using add_leD1 add_leD2 by blast+
  have disj: "set_mset ?E \<inter> set_mset ?R = {}"
  proof (rule ccontr)
    assume "set_mset ?E \<inter> set_mset ?R \<noteq> {}"
    then obtain r where "1 \<le> count ?E r" "1 \<le> count ?R r" by (auto simp: count_greater_eq_one_iff)
    then show False using one [of r] by linarith
  qed
  have "set_mset (?E + ?R) = minted s l"
    using c finite_minted [OF assms, of l] by (simp only: conserved_def finite_set_mset_mset_set)
  then have un: "set_mset ?E \<union> set_mset ?R = minted s l" by simp
  have "card (set_mset ?E) + card (set_mset ?R) = card (minted s l)"
    unfolding un [symmetric] by (rule card_Un_disjoint [symmetric]) (simp_all add: disj)
  then show "report_safe (report s l)" unfolding report_safe_sets [OF assms] using le disj un by blast
qed

lemma require_conserved_eq:
  assumes "cells_inv s"
  shows "require_conserved s l =
    (if conserved s l then Inr () else Inl (LifecycleRejected ''logical authority is already amplified''))"
  by (simp add: require_conserved_def report_safe_iff [OF assms])

section \<open>Effects, tickets, receipts\<close>

text \<open>
  A ticket or a receipt belongs to exactly one linearized preparation; an effect reached the
  sink once, when its ticket is in flight or it is settled.
\<close>

definition ticket_matches :: "rstate \<Rightarrow> string \<Rightarrow> rticket \<Rightarrow> bool" where
  "ticket_matches s e t \<longleftrightarrow> rt_effect t = e \<and> rt_phase t \<in> {''prepared'', ''inflight''} \<and>
     rt_cell t \<in> fst ` set (cells s) \<and>
     (\<exists>x\<in>set (prepare_log s). lin_effect x = e \<and> lin_digest x = rt_digest t \<and> lin_label x = rt_label t \<and>
        lin_cell x = rt_cell t \<and> lin_right x = rt_right t \<and> lin_sequence x = rt_sequence t)"

definition receipt_matches :: "rstate \<Rightarrow> string \<Rightarrow> rreceipt \<Rightarrow> bool" where
  "receipt_matches s e r \<longleftrightarrow> rr_effect r = e \<and>
     (\<exists>x\<in>set (prepare_log s). lin_effect x = e \<and> lin_digest x = rr_digest r \<and> lin_label x = rr_label r \<and>
        lin_cell x = rr_cell r \<and> lin_right x = rr_right r \<and> lin_sequence x = rr_sequence r)"

definition inflight_effects :: "rstate \<Rightarrow> string set" where
  "inflight_effects s = {e. \<exists>t. map_of (rtickets s) e = Some t \<and> rt_phase t = ''inflight''}"

definition effects_inv :: "rstate \<Rightarrow> bool" where
  "effects_inv s \<longleftrightarrow>
     distinct (map fst (rtickets s)) \<and> distinct (map lin_effect (prepare_log s)) \<and>
     distinct (map se_effect (sink_log s)) \<and>
     dom (map_of (rtickets s)) \<inter> dom (map_of (rreceipts s)) = {} \<and>
     dom (map_of (rtickets s)) \<union> dom (map_of (rreceipts s)) = lin_effect ` set (prepare_log s) \<and>
     (\<forall>e t. map_of (rtickets s) e = Some t \<longrightarrow> ticket_matches s e t) \<and>
     (\<forall>e r. map_of (rreceipts s) e = Some r \<longrightarrow> receipt_matches s e r) \<and>
     se_effect ` set (sink_log s) = inflight_effects s \<union> dom (map_of (rreceipts s)) \<and>
     (\<forall>x\<in>set (sink_log s). \<exists>y\<in>set (prepare_log s). lin_effect y = se_effect x \<and>
        lin_label y = se_label x \<and> lin_right y = se_right x)"

definition redemption_inv :: "rstate \<Rightarrow> bool" where
  "redemption_inv s \<longleftrightarrow> cells_inv s \<and> (\<forall>l. conserved s l) \<and> effects_inv s"

lemma redemption_invD:
  assumes "redemption_inv s"
  shows "cells_inv s" "\<And>l. conserved s l" "effects_inv s"
  using assms by (simp_all add: redemption_inv_def)

lemma empty_runtime_inv: "redemption_inv empty_runtime"
  by (simp add: redemption_inv_def cells_inv_def conserved_def effects_inv_def empty_runtime_def
      redeemed_def redemptions_def minted_def inflight_effects_def)

lemma cell_for_handle_iff:
  "cell_for_handle s h = Inr c \<longleftrightarrow> map_of (cells s) (handle_cell h) = Some c \<and>
     handle_epoch h = cell_epoch c \<and> cell_open c"
  by (auto simp: cell_for_handle_def split: option.splits)

lemma cell_for_handle_ok:
  assumes "cells_inv s" and "cell_for_handle s h = Inr c"
  shows "map_of (cells s) (cell_id c) = Some c" "cell_id c = handle_cell h" "finite (unspent c)"
    "cell_ok (next_cell s) (cell_id c) c" "cell_label c \<in> fst ` set (minted_rights s)" "cell_open c"
proof -
  have m: "map_of (cells s) (handle_cell h) = Some c" "cell_open c" using assms(2) by (simp_all add: cell_for_handle_iff)
  then have ok: "cell_ok (next_cell s) (handle_cell h) c" using cells_invD(3) [OF assms(1)] by blast
  then show "cell_id c = handle_cell h" "finite (unspent c)" by (simp_all add: cell_ok_def)
  then show "map_of (cells s) (cell_id c) = Some c" "cell_ok (next_cell s) (cell_id c) c" "cell_open c"
    using m ok by simp_all
  show "cell_label c \<in> fst ` set (minted_rights s)" using cells_invD(5) [OF assms(1) m(1)] .
qed

text \<open>Effects do not depend on the cells but for the names of the cells.\<close>

lemma effects_inv_cong:
  assumes "effects_inv s" and "rtickets t = rtickets s" and "rreceipts t = rreceipts s"
    and "prepare_log t = prepare_log s" and "sink_log t = sink_log s"
    and "fst ` set (cells s) \<subseteq> fst ` set (cells t)"
  shows "effects_inv t"
proof -
  have "ticket_matches t e u" if "ticket_matches s e u" for e u
    using that assms(4,6) by (auto simp: ticket_matches_def)
  moreover have "receipt_matches t e r \<longleftrightarrow> receipt_matches s e r" for e r
    using assms(4) by (simp add: receipt_matches_def)
  moreover have "inflight_effects t = inflight_effects s" using assms(2) by (simp add: inflight_effects_def)
  ultimately show ?thesis using assms(1-5) unfolding effects_inv_def by simp
qed

lemma put_cell_keys: "fst ` set (cells (put_cell c s)) = insert (cell_id c) (fst ` set (cells s))"
  by (simp add: put_cell_def AList.update_conv' flip: dom_map_of_conv_image_fst)

section \<open>Preparing, dispatching, settling\<close>

lemma conserved_move:
  assumes "escrow (cells t) l + redeemed t l = escrow (cells s) l + redeemed s l" and "minted t l = minted s l"
  shows "conserved t l \<longleftrightarrow> conserved s l"
  using assms by (simp add: conserved_def)

lemma put_cell_escrow:
  assumes "map_of (cells s) (cell_id c) = Some c0"
  shows "escrow (cells (put_cell c s)) l + escrow_of l c0 = escrow (cells s) l + escrow_of l c"
  using escrow_update_old [OF assms] by (simp add: put_cell_def)

lemma put_cell_same_escrow:
  assumes "map_of (cells s) (cell_id c) = Some c0" and "unspent c = unspent c0" and "cell_label c = cell_label c0"
  shows "escrow (cells (put_cell c s)) l = escrow (cells s) l"
proof -
  have "escrow_of l c = escrow_of l c0" using assms(2,3) by (simp add: escrow_of_def)
  then show ?thesis using put_cell_escrow [OF assms(1), of l] by simp
qed

lemma linearize_simps:
  assumes "linearize s c e d = (t, r)"
  shows "r = Min (unspent c)" "cells t = cells (put_cell (c\<lparr>unspent := unspent c - {r}\<rparr>) s)"
    "prepare_log t = prepare_log s @ [\<lparr>lin_sequence = next_event s, lin_effect = e, lin_digest = d,
       lin_label = cell_label c, lin_cell = cell_id c, lin_epoch = cell_epoch c, lin_right = r\<rparr>]"
    "rtickets t = AList.update e \<lparr>rt_effect = e, rt_digest = d, rt_label = cell_label c, rt_cell = cell_id c,
       rt_epoch = cell_epoch c, rt_right = r, rt_sequence = next_event s, rt_phase = ''prepared''\<rparr> (rtickets s)"
    "rreceipts t = rreceipts s" "sink_log t = sink_log s" "minted_rights t = minted_rights s"
    "next_cell t = next_cell s" "next_event t = next_event s + 1"
  using assms by (auto simp: linearize_def Let_def new_event_sequence_def put_cell_def)

lemma prior_binding_None:
  "prior_binding s e = None \<longleftrightarrow> map_of (rtickets s) e = None \<and> map_of (rreceipts s) e = None"
  by (auto simp: prior_binding_def split: option.splits)

lemma effects_invD:
  assumes "effects_inv s"
  shows "distinct (map fst (rtickets s))" "distinct (map lin_effect (prepare_log s))"
    "distinct (map se_effect (sink_log s))"
    "dom (map_of (rtickets s)) \<inter> dom (map_of (rreceipts s)) = {}"
    "dom (map_of (rtickets s)) \<union> dom (map_of (rreceipts s)) = lin_effect ` set (prepare_log s)"
    "\<forall>e t. map_of (rtickets s) e = Some t \<longrightarrow> ticket_matches s e t"
    "\<forall>e r. map_of (rreceipts s) e = Some r \<longrightarrow> receipt_matches s e r"
    "se_effect ` set (sink_log s) = inflight_effects s \<union> dom (map_of (rreceipts s))"
    "\<forall>x\<in>set (sink_log s). \<exists>y\<in>set (prepare_log s). lin_effect y = se_effect x \<and>
        lin_label y = se_label x \<and> lin_right y = se_right x"
  using assms unfolding effects_inv_def by - (elim conjE, assumption)+

lemma linearize_effects:
  assumes "effects_inv s" and "prior_binding s e = None" and "linearize s c e d = (t, r)"
  shows "effects_inv t"
proof -
  note eff = effects_invD [OF assms(1)] and t = linearize_simps [OF assms(3)]
  have fresh: "map_of (rtickets s) e = None" "map_of (rreceipts s) e = None"
    using assms(2) by (simp_all add: prior_binding_None)
  then have log: "e \<notin> lin_effect ` set (prepare_log s)" using eff(5) by (metis UnE domIff)
  have look: "map_of (rtickets t) = (map_of (rtickets s))(e \<mapsto> \<lparr>rt_effect = e, rt_digest = d,
      rt_label = cell_label c, rt_cell = cell_id c, rt_epoch = cell_epoch c, rt_right = r,
      rt_sequence = next_event s, rt_phase = ''prepared''\<rparr>)"
    using t(4) by (simp add: AList.update_conv')
  have keys: "fst ` set (cells s) \<subseteq> fst ` set (cells t)" "cell_id c \<in> fst ` set (cells t)"
    unfolding t(2) put_cell_keys by auto
  have tick: "ticket_matches t x u" if "map_of (rtickets t) x = Some u" for x u
  proof (cases "x = e")
    case False
    then have "ticket_matches s x u" using that look eff(6) by simp
    then show ?thesis using keys(1) t(3) unfolding ticket_matches_def by auto
  next
    case True
    have "u = \<lparr>rt_effect = e, rt_digest = d, rt_label = cell_label c, rt_cell = cell_id c,
        rt_epoch = cell_epoch c, rt_right = r, rt_sequence = next_event s, rt_phase = ''prepared''\<rparr>"
      using that look True by simp
    then show ?thesis using True t(3) keys(2) by (simp add: ticket_matches_def)
  qed
  have rec: "receipt_matches t x u" if "map_of (rreceipts t) x = Some u" for x u
    using that eff(7) t(3,5) unfolding receipt_matches_def by auto
  have infl: "inflight_effects t = inflight_effects s"
    using look fresh by (auto simp: inflight_effects_def)
  have "distinct (map fst (rtickets t))" unfolding t(4) by (rule AList.distinct_update [OF eff(1)])
  moreover have "distinct (map lin_effect (prepare_log t))" using eff(2) log t(3) by simp
  moreover have "distinct (map se_effect (sink_log t))" unfolding t(6) by (rule eff(3))
  moreover have "dom (map_of (rtickets t)) = insert e (dom (map_of (rtickets s)))" using look by simp
  then have "dom (map_of (rtickets t)) \<inter> dom (map_of (rreceipts t)) = {}"
    "dom (map_of (rtickets t)) \<union> dom (map_of (rreceipts t)) = lin_effect ` set (prepare_log t)"
    using eff(4,5) fresh(2) t(3,5) by (simp_all add: domIff)
  moreover have "se_effect ` set (sink_log t) = inflight_effects t \<union> dom (map_of (rreceipts t))"
    unfolding infl t(5,6) by (rule eff(8))
  moreover have "\<exists>y\<in>set (prepare_log t). lin_effect y = se_effect x \<and> lin_label y = se_label x \<and>
      lin_right y = se_right x" if "x \<in> set (sink_log t)" for x
    using that eff(9) t(3,6) by auto
  ultimately show ?thesis unfolding effects_inv_def using tick rec by (intro conjI allI impI ballI)
qed

lemma linearize_inv:
  assumes "redemption_inv s" and "cell_for_handle s h = Inr c" and "prior_binding s e = None"
    and "unspent c \<noteq> {}" and "linearize s c e d = (t, r)"
  shows "redemption_inv t"
proof -
  note inv = redemption_invD [OF assms(1)]
  note c = cell_for_handle_ok [OF inv(1) assms(2)]
  note t = linearize_simps [OF assms(5)]
  let ?c = "c\<lparr>unspent := unspent c - {r}\<rparr>"
  have r: "r \<in> unspent c" using t(1) c(3) assms(4) by simp
  have put: "cells_inv (put_cell ?c s)"
    using c by (intro cells_inv_put [OF inv(1)]) (auto simp: cell_ok_def)
  then have cells: "cells_inv t"
    using t c(5) by (auto simp: cells_inv_def)
  have "conserved t l" for l
  proof -
    have split: "escrow_of l c = escrow_of l ?c + (if cell_label c = l then {#r#} else {#})"
      using r c(3) by (simp add: escrow_of_def mset_set.remove [of "unspent c" r])
    have "escrow (cells t) l + escrow_of l c = escrow (cells s) l + escrow_of l ?c"
      unfolding t(2) using put_cell_escrow [of s ?c c l] c(1) by simp
    then have "escrow (cells t) l + (if cell_label c = l then {#r#} else {#}) = escrow (cells s) l"
      unfolding split by (simp add: add.assoc [symmetric] add.commute [of "escrow_of l ?c"])
    moreover have "redeemed t l = redeemed s l + (if cell_label c = l then {#r#} else {#})"
      using t(3) by (simp add: redeemed_def redemptions_def)
    moreover have "minted t l = minted s l" using t(7) by (simp add: minted_def)
    ultimately show ?thesis
      using inv(2) [of l] conserved_move [of t l s] by (simp add: add_ac)
  qed
  moreover have "effects_inv t" by (rule linearize_effects [OF inv(3) assms(3,5)])
  ultimately show ?thesis using cells by (simp add: redemption_inv_def)
qed

lemma store_cases:
  assumes "store s m = (t, x)"
  obtains e where "m = Inl e" "t = s" "x = Inl e" | y where "m = Inr (t, y)" "x = Inr y"
  using assms by (cases m) (auto simp: store_def)

text \<open>Steps that leave cells and preparations alone keep cells and conservation.\<close>

lemma cells_conserved_cong:
  assumes "redemption_inv s" and "cells t = cells s" and "prepare_log t = prepare_log s"
    and "minted_rights t = minted_rights s" and "next_cell t = next_cell s" and "effects_inv t"
  shows "redemption_inv t"
proof -
  have "cells_inv t" using redemption_invD(1) [OF assms(1)] assms(2-5) by (simp add: cells_inv_def)
  moreover have "conserved t l" for l
    using redemption_invD(2) [OF assms(1), of l] assms(2-4)
    by (simp add: conserved_def redeemed_def redemptions_def minted_def)
  ultimately show ?thesis using assms(6) by (simp add: redemption_inv_def)
qed

lemma dispatch_inv:
  assumes "redemption_inv s" and "dispatch e s = (t, x)"
  shows "redemption_inv t"
  using assms(2) unfolding dispatch_def
proof (cases rule: store_cases)
  case (2 y)
  then obtain u where u: "map_of (rtickets s) e = Some u" "rt_phase u = ''prepared''"
    and t: "t = s\<lparr>next_event := next_event s + 1,
       rtickets := AList.update e (u\<lparr>rt_phase := ''inflight''\<rparr>) (rtickets s),
       sink_log := sink_log s @ [\<lparr>se_sequence = next_event s, se_effect = e, se_digest = rt_digest u,
         se_label = rt_label u, se_right = rt_right u\<rparr>]\<rparr>"
    by (auto simp: new_event_sequence_def Let_def split: option.splits if_splits)
  note eff = effects_invD [OF redemption_invD(3) [OF assms(1)]]
  have look: "map_of (rtickets t) = (map_of (rtickets s))(e \<mapsto> u\<lparr>rt_phase := ''inflight''\<rparr>)"
    using t by (simp add: AList.update_conv')
  have m: "ticket_matches s e u" using u(1) eff(6) by blast
  have tick: "ticket_matches t x v" if "map_of (rtickets t) x = Some v" for x v
  proof (cases "x = e")
    case True
    then have "v = u\<lparr>rt_phase := ''inflight''\<rparr>" using that look by simp
    then show ?thesis using m t True by (simp add: ticket_matches_def)
  next
    case False
    then have "ticket_matches s x v" using that look eff(6) by simp
    then show ?thesis using t by (simp add: ticket_matches_def)
  qed
  have rec: "receipt_matches t x v" if "map_of (rreceipts t) x = Some v" for x v
    using that eff(7) t by (simp add: receipt_matches_def)
  have infl: "inflight_effects t = insert e (inflight_effects s)"
    using look by (auto simp: inflight_effects_def)
  have "e \<notin> dom (map_of (rreceipts s))" using eff(4) u(1) by (metis IntI domI empty_iff)
  moreover have "e \<notin> inflight_effects s" using u by (simp add: inflight_effects_def)
  ultimately have new: "e \<notin> se_effect ` set (sink_log s)" unfolding eff(8) by blast
  have doms: "dom (map_of (rtickets t)) = dom (map_of (rtickets s))" using look u(1) by auto
  have "distinct (map fst (rtickets t))" unfolding t by (simp add: AList.distinct_update [OF eff(1)])
  moreover have "distinct (map lin_effect (prepare_log t))" "distinct (map se_effect (sink_log t))"
    using eff(2,3) new t by simp_all
  moreover have "dom (map_of (rtickets t)) \<inter> dom (map_of (rreceipts t)) = {}"
    "dom (map_of (rtickets t)) \<union> dom (map_of (rreceipts t)) = lin_effect ` set (prepare_log t)"
    unfolding doms using eff(4,5) t by simp_all
  moreover have "se_effect ` set (sink_log t) = inflight_effects t \<union> dom (map_of (rreceipts t))"
    unfolding infl using eff(8) t by simp
  moreover have "\<exists>y\<in>set (prepare_log t). lin_effect y = se_effect x \<and> lin_label y = se_label x \<and>
      lin_right y = se_right x" if "x \<in> set (sink_log t)" for x
    using that eff(9) m t by (auto simp: ticket_matches_def)
  ultimately have "effects_inv t" unfolding effects_inv_def using tick rec by (intro conjI allI impI ballI)
  then show ?thesis using t by (intro cells_conserved_cong [OF assms(1)]) simp_all
qed (use assms(1) in simp)

lemma settle_inv:
  assumes "redemption_inv s" and "settle e res s = (t, x)"
  shows "redemption_inv t"
  using assms(2) unfolding settle_def
proof (cases rule: store_cases)
  case (2 y)
  then obtain u c where u: "map_of (rtickets s) e = Some u" "rt_phase u = ''inflight''"
    and c: "map_of (cells s) (rt_cell u) = Some c"
    and t: "t = put_cell (c\<lparr>receipt_refs := insert e (receipt_refs c)\<rparr>)
       (s\<lparr>rtickets := AList.delete e (rtickets s),
          rreceipts := AList.update e \<lparr>rr_effect = rt_effect u, rr_digest = rt_digest u, rr_label = rt_label u,
            rr_cell = rt_cell u, rr_right = rt_right u, rr_sequence = rt_sequence u, rr_outcome = res\<rparr> (rreceipts s)\<rparr>)"
    by (auto simp: dict_get_def Let_def split: option.splits if_splits)
  let ?r = "\<lparr>rr_effect = rt_effect u, rr_digest = rt_digest u, rr_label = rt_label u,
            rr_cell = rt_cell u, rr_right = rt_right u, rr_sequence = rt_sequence u, rr_outcome = res\<rparr>"
  let ?c = "c\<lparr>receipt_refs := insert e (receipt_refs c)\<rparr>"
  note inv = redemption_invD [OF assms(1)] and eff = effects_invD [OF redemption_invD(3) [OF assms(1)]]
  have ck: "cell_ok (next_cell s) (rt_cell u) c" "cell_label c \<in> fst ` set (minted_rights s)"
    using cells_invD(3,5) [OF inv(1) c] .
  then have id: "cell_id c = rt_cell u" by (simp add: cell_ok_def)
  have put: "cells_inv (put_cell ?c s)"
    using ck id by (intro cells_inv_put [OF inv(1)]) (auto simp: cell_ok_def)
  have same: "cells t = cells (put_cell ?c s)" by (simp add: t put_cell_def)
  have cells: "cells_inv t" using put same t by (simp add: cells_inv_def)
  have cons: "conserved t l" for l
  proof -
    have "escrow (cells t) l = escrow (cells s) l"
      unfolding same using c id by (intro put_cell_same_escrow [of s ?c c]) simp_all
    then show ?thesis using inv(2) [of l] t by (simp add: conserved_def redeemed_def redemptions_def minted_def)
  qed
  have lookt: "map_of (rtickets t) = (map_of (rtickets s))(e := None)"
    using t by (simp add: AList.delete_conv')
  have lookr: "map_of (rreceipts t) = (map_of (rreceipts s))(e \<mapsto> ?r)"
    using t by (simp add: AList.update_conv')
  have m: "ticket_matches s e u" using u(1) eff(6) by blast
  have tick: "ticket_matches t x v" if "map_of (rtickets t) x = Some v" for x v
  proof -
    have "ticket_matches s x v" using that lookt eff(6) by (simp split: if_splits)
    moreover have "fst ` set (cells s) \<subseteq> fst ` set (cells t)" unfolding same put_cell_keys by blast
    ultimately show ?thesis using t unfolding ticket_matches_def by (simp add: subset_iff)
  qed
  have rec: "receipt_matches t x v" if "map_of (rreceipts t) x = Some v" for x v
  proof (cases "x = e")
    case True
    then have "v = ?r" using that lookr by simp
    then show ?thesis using m t True by (simp add: ticket_matches_def receipt_matches_def)
  next
    case False
    then show ?thesis using that lookr eff(7) t by (simp add: receipt_matches_def)
  qed
  have e: "e \<in> inflight_effects s" "e \<in> dom (map_of (rtickets s))" using u by (auto simp: inflight_effects_def)
  have infl: "inflight_effects t = inflight_effects s - {e}" using lookt by (auto simp: inflight_effects_def)
  have doms: "dom (map_of (rtickets t)) = dom (map_of (rtickets s)) - {e}"
    "dom (map_of (rreceipts t)) = insert e (dom (map_of (rreceipts s)))" using lookt lookr by simp_all
  have "distinct (map fst (rtickets t))" using eff(1) t by (simp add: AList.distinct_delete)
  moreover have "distinct (map lin_effect (prepare_log t))" "distinct (map se_effect (sink_log t))"
    using eff(2,3) t by simp_all
  moreover have "dom (map_of (rtickets t)) \<inter> dom (map_of (rreceipts t)) = {}"
    unfolding doms using eff(4) by blast
  moreover have "dom (map_of (rtickets t)) \<union> dom (map_of (rreceipts t)) = lin_effect ` set (prepare_log t)"
  proof -
    have "(A - {e}) \<union> insert e B = A \<union> B" if "e \<in> A" for A B using that by blast
    then show ?thesis using eff(5) doms e(2) t by simp
  qed
  moreover have "se_effect ` set (sink_log t) = inflight_effects t \<union> dom (map_of (rreceipts t))"
  proof -
    have "(A - {e}) \<union> insert e B = A \<union> B" if "e \<in> A" for A B using that by blast
    then show ?thesis using eff(8) doms(2) infl e(1) t by simp
  qed
  moreover have "\<exists>y\<in>set (prepare_log t). lin_effect y = se_effect x \<and> lin_label y = se_label x \<and>
      lin_right y = se_right x" if "x \<in> set (sink_log t)" for x
    using that eff(9) t by simp
  ultimately have "effects_inv t" unfolding effects_inv_def using tick rec by (intro conjI allI impI ballI)
  then show ?thesis using cells cons by (simp add: redemption_inv_def)
qed (use assms(1) in simp)

section \<open>Minting, restoring, forking, merging\<close>

text \<open>Adding a cell under the next name.\<close>

definition add_cell :: "rcell \<Rightarrow> rstate \<Rightarrow> rstate" where
  "add_cell c s = put_cell (c\<lparr>cell_id := cell_name (next_cell s)\<rparr>) (s\<lparr>next_cell := next_cell s + 1\<rparr>)"

lemma add_cell_simps [simp]:
  "rtickets (add_cell c s) = rtickets s" "rreceipts (add_cell c s) = rreceipts s"
  "prepare_log (add_cell c s) = prepare_log s" "sink_log (add_cell c s) = sink_log s"
  "minted_rights (add_cell c s) = minted_rights s" "next_cell (add_cell c s) = next_cell s + 1"
  by (simp_all add: add_cell_def)

lemma cells_inv_add:
  assumes "cells_inv s" and "finite (unspent c)" and "cell_open c" and "cell_label c \<in> fst ` set (minted_rights s)"
  shows "cells_inv (add_cell c s)"
    and "escrow (cells (add_cell c s)) l = escrow (cells s) l + escrow_of l c"
    and "fst ` set (cells s) \<subseteq> fst ` set (cells (add_cell c s))"
proof -
  let ?s = "s\<lparr>next_cell := next_cell s + 1\<rparr>" and ?c = "c\<lparr>cell_id := cell_name (next_cell s)\<rparr>"
  have "cells_inv ?s" using assms(1) by (fastforce simp: cells_inv_def cell_ok_def)
  then show "cells_inv (add_cell c s)"
    unfolding add_cell_def using assms by (intro cells_inv_put) (auto simp: cell_ok_def)
  have "escrow_of l ?c = escrow_of l c" by (simp add: escrow_of_def)
  moreover have "cells (add_cell c s) = AList.update (cell_name (next_cell s)) ?c (cells s)"
    by (simp add: add_cell_def put_cell_def)
  ultimately show "escrow (cells (add_cell c s)) l = escrow (cells s) l + escrow_of l c"
    using escrow_update_fresh [OF cells_invD(6) [OF assms(1)], of ?c l] by simp
  show "fst ` set (cells s) \<subseteq> fst ` set (cells (add_cell c s))"
    unfolding add_cell_def put_cell_keys by auto
qed

text \<open>A step that only rearranges escrow: effects, preparations and minted rights stay.\<close>

lemma rearranged_inv:
  assumes "redemption_inv s" and "cells_inv t" and "\<And>l. escrow (cells t) l = escrow (cells s) l"
    and "rtickets t = rtickets s" and "rreceipts t = rreceipts s" and "prepare_log t = prepare_log s"
    and "sink_log t = sink_log s" and "minted_rights t = minted_rights s"
    and "fst ` set (cells s) \<subseteq> fst ` set (cells t)"
  shows "redemption_inv t"
proof -
  have "conserved t l" for l
    using redemption_invD(2) [OF assms(1), of l] assms(3,6,8)
    by (simp add: conserved_def redeemed_def redemptions_def minted_def)
  moreover have "effects_inv t"
    by (rule effects_inv_cong [OF redemption_invD(3) [OF assms(1)] assms(4-7,9)])
  ultimately show ?thesis using assms(2) by (simp add: redemption_inv_def)
qed

lemma restored_inv:
  assumes "redemption_inv s" and "cell_for_handle s h = Inr c"
  shows "redemption_inv (put_cell (c\<lparr>cell_epoch := n\<rparr>) s)"
proof -
  note inv = redemption_invD [OF assms(1)]
  note c = cell_for_handle_ok [OF inv(1) assms(2)]
  have "cells_inv (put_cell (c\<lparr>cell_epoch := n\<rparr>) s)"
    using c by (intro cells_inv_put [OF inv(1)]) (auto simp: cell_ok_def)
  moreover have "escrow (cells (put_cell (c\<lparr>cell_epoch := n\<rparr>) s)) l = escrow (cells s) l" for l
    using c(1) by (intro put_cell_same_escrow [of s _ c]) simp_all
  ultimately show ?thesis
    by (intro rearranged_inv [OF assms(1)]) (simp_all add: put_cell_keys subset_insertI)
qed

lemma require_conserved_ok: "redemption_inv s \<Longrightarrow> require_conserved s l = Inr ()"
  by (simp add: require_conserved_eq redemption_invD)

lemma replace_restore_eq:
  assumes "redemption_inv s" and "cell_for_handle s h = Inr c" and "alias \<noteq> []"
  shows "replace_restore h alias s =
    (put_cell (c\<lparr>cell_epoch := cell_epoch c + 1\<rparr>) s,
     Inr \<lparr>alias_id = alias, handle_cell = cell_id c, handle_epoch = cell_epoch c + 1\<rparr>)"
proof -
  show ?thesis
    using assms require_conserved_ok [OF restored_inv [OF assms(1,2), of "Suc (cell_epoch c)"]]
    by (simp add: replace_restore_def require_name_def Let_def store_def require_conserved_ok)
qed

text \<open>Fencing a cell removes its escrow.\<close>

lemma fence_simps [simp]:
  "cell_id (fence c) = cell_id c" "cell_label (fence c) = cell_label c" "unspent (fence c) = {}"
  "cell_open (fence c) = False" "cell_epoch (fence c) = cell_epoch c + 1" "escrow_of l (fence c) = {#}"
  by (simp_all add: fence_def escrow_of_def)

lemma fence_inv:
  assumes "cells_inv s" and "map_of (cells s) (cell_id c) = Some c"
  shows "cells_inv (put_cell (fence c) s)"
    and "escrow (cells (put_cell (fence c) s)) l + escrow_of l c = escrow (cells s) l"
proof -
  show "cells_inv (put_cell (fence c) s)"
    using cells_invD(3,5) [OF assms] by (intro cells_inv_put [OF assms(1)]) (auto simp: cell_ok_def)
  show "escrow (cells (put_cell (fence c) s)) l + escrow_of l c = escrow (cells s) l"
    using put_cell_escrow [of s "fence c" c l] assms(2) by simp
qed

lemma new_cell_add:
  "put_cell \<lparr>cell_id = cell_name (next_cell s), cell_label = l, cell_epoch = n, cell_open = b,
     unspent = u, receipt_refs = f\<rparr> (s\<lparr>next_cell := Suc (next_cell s)\<rparr>) =
   add_cell \<lparr>cell_id = [], cell_label = l, cell_epoch = n, cell_open = b, unspent = u, receipt_refs = f\<rparr> s"
  by (simp add: add_cell_def)

lemma new_label_commute:
  "s\<lparr>next_cell := n, minted_rights := m\<rparr> = s\<lparr>minted_rights := m, next_cell := n\<rparr>"
  by (cases s) simp

definition minted_state :: "rstate \<Rightarrow> string \<Rightarrow> nat \<Rightarrow> rstate" where
  "minted_state s l n =
     (let rights = set (map (right_name l) [0..<n]) in
      add_cell \<lparr>cell_id = [], cell_label = l, cell_epoch = 0, cell_open = True, unspent = rights, receipt_refs = {}\<rparr>
        (s\<lparr>minted_rights := AList.update l rights (minted_rights s)\<rparr>))"

lemma minted_state_inv:
  assumes "redemption_inv s" and "l \<notin> fst ` set (minted_rights s)"
  shows "redemption_inv (minted_state s l n)"
proof -
  let ?rs = "set (map (right_name l) [0..<n])"
  let ?s = "s\<lparr>minted_rights := AList.update l ?rs (minted_rights s)\<rparr>"
  let ?c = "\<lparr>cell_id = [], cell_label = l, cell_epoch = 0, cell_open = True, unspent = ?rs, receipt_refs = {}\<rparr>"
  note inv = redemption_invD [OF assms(1)]
  have keys: "fst ` set (AList.update l ?rs (minted_rights s)) = insert l (fst ` set (minted_rights s))"
    by (simp add: AList.update_conv' flip: dom_map_of_conv_image_fst)
  have "distinct (map fst (AList.update l ?rs (minted_rights s)))"
    by (rule AList.distinct_update [OF cells_invD(2) [OF inv(1)]])
  moreover have "finite rs" if rs: "(k, rs) \<in> set (AList.update l ?rs (minted_rights s))" for k rs
    using set_alist_update [OF rs] inv(1) by (auto simp: cells_inv_def)
  ultimately have st: "cells_inv ?s" using inv(1) keys by (auto simp: cells_inv_def)
  have lab: "cell_label ?c \<in> fst ` set (minted_rights ?s)" using keys by simp
  note add = cells_inv_add [OF st _ _ lab]
  have look: "minted (minted_state s l n) k = (if k = l then ?rs else minted s k)" for k
    by (simp add: minted_state_def minted_def AList.update_conv')
  have esc: "escrow (cells (minted_state s l n)) k = escrow (cells s) k + escrow_of k ?c" for k
    using add(2) [of k] by (simp add: minted_state_def Let_def)
  have red: "redeemed (minted_state s l n) k = redeemed s k" for k
    by (simp add: minted_state_def Let_def redeemed_def redemptions_def)
  have "minted s l = {}" using assms(2) by (simp add: minted_def map_of_eq_None_iff split: option.splits)
     (metis map_of_SomeD fst_conv imageI option.exhaust)
  then have none: "escrow (cells s) l = {#}" "redeemed s l = {#}" using inv(2) [of l] by (simp_all add: conserved_def)
  have "conserved (minted_state s l n) k" for k
    using inv(2) [of k] none by (cases "k = l") (simp_all add: conserved_def look esc red escrow_of_def)
  moreover have "cells_inv (minted_state s l n)" using add(1) by (simp add: minted_state_def Let_def)
  moreover have "effects_inv (minted_state s l n)"
    using add(3) by (intro effects_inv_cong [OF inv(3)]) (simp_all add: minted_state_def Let_def)
  ultimately show ?thesis by (simp add: redemption_inv_def)
qed

lemma mint_eq:
  assumes "redemption_inv s"
  shows "mint l capacity alias s =
    (if l \<noteq> [] \<and> alias \<noteq> [] \<and> 0 < capacity \<and> l \<notin> fst ` set (minted_rights s)
     then (minted_state s l (nat capacity),
           Inr \<lparr>alias_id = alias, handle_cell = cell_name (next_cell s), handle_epoch = 0\<rparr>)
     else (s, snd (mint l capacity alias s))) \<and>
    (is_ok (snd (mint l capacity alias s)) \<longleftrightarrow>
       l \<noteq> [] \<and> alias \<noteq> [] \<and> 0 < capacity \<and> l \<notin> fst ` set (minted_rights s))"
proof (cases "l \<noteq> [] \<and> alias \<noteq> [] \<and> 0 < capacity \<and> l \<notin> fst ` set (minted_rights s)")
  case True
  let ?rs = "set (map (right_name l) [0..<nat capacity])"
  have "mint l capacity alias s = store s (bind_r (require_conserved (minted_state s l (nat capacity)) l)
      (\<lambda>_. Inr (minted_state s l (nat capacity),
        \<lparr>alias_id = alias, handle_cell = cell_name (next_cell s), handle_epoch = 0\<rparr>)))"
    using True new_cell_add [of "s\<lparr>minted_rights := AList.update l ?rs (minted_rights s)\<rparr>"]
    by (simp add: mint_def require_name_def new_cell_id_def Let_def minted_state_def new_label_commute)
  then show ?thesis
    using True require_conserved_ok [OF minted_state_inv [OF assms]] by (simp add: store_def)
next
  case False
  then show ?thesis by (auto simp: mint_def require_name_def store_def)
qed

end
