(* ===== verification/RedemptionRuns.thy ===== *)
theory RedemptionRuns
  imports Redemption
begin

text \<open>
  Forking and merging cells of the redemption runtime, the machine of its safe operations, and
  what holds of every run of it: conservation of the minted rights, crash atomicity and
  idempotence of Prepare, one external effect per prepared effect.
\<close>

section \<open>Forking\<close>

text \<open>Children of a fork take consecutive slices of the sorted escrow.\<close>

lemma fork_children_inv:
  assumes "fork_children c rights al s = (t, hs)" and "cells_inv s" and "distinct rights"
    and "cell_label c \<in> fst ` set (minted_rights s)" and "(\<Sum>(_, n)\<leftarrow>al. nat n) = length rights"
  shows "cells_inv t \<and> map fst hs = map fst al \<and>
    escrow (cells t) l = escrow (cells s) l + (if cell_label c = l then mset rights else {#}) \<and>
    rtickets t = rtickets s \<and> rreceipts t = rreceipts s \<and> prepare_log t = prepare_log s \<and>
    sink_log t = sink_log s \<and> minted_rights t = minted_rights s \<and>
    fst ` set (cells s) \<subseteq> fst ` set (cells t)"
  using assms
proof (induction al arbitrary: rights s t hs)
  case (Cons a al)
  obtain nm n where a: "a = (nm, n)" by (cases a)
  let ?c = "\<lparr>cell_id = [], cell_label = cell_label c, cell_epoch = 0, cell_open = True,
      unspent = set (take (nat n) rights), receipt_refs = receipt_refs c\<rparr>"
  obtain hs' where f: "fork_children c (drop (nat n) rights) al (add_cell ?c s) = (t, hs')"
    and hs: "map fst hs = nm # map fst hs'"
    using Cons.prems(1) by (auto simp: a Let_def new_cell_id_def new_cell_add split: prod.splits)
  have len: "nat n \<le> length rights" "(\<Sum>(_, n)\<leftarrow>al. nat n) = length (drop (nat n) rights)"
    using Cons.prems(5) by (simp_all add: a)
  have lab: "cell_label ?c \<in> fst ` set (minted_rights s)" using Cons.prems(4) by simp
  have add: "cells_inv (add_cell ?c s)" "escrow (cells (add_cell ?c s)) l = escrow (cells s) l + escrow_of l ?c"
    "fst ` set (cells s) \<subseteq> fst ` set (cells (add_cell ?c s))"
    using cells_inv_add [OF Cons.prems(2) _ _ lab] by simp_all
  have "distinct (drop (nat n) rights)" "cell_label c \<in> fst ` set (minted_rights (add_cell ?c s))"
    using Cons.prems(3,4) by simp_all
  note IH = Cons.IH [OF f add(1) this len(2), unfolded add_cell_simps]
  have "distinct (take (nat n) rights)" using Cons.prems(3) by simp
  then have "mset_set (set (take (nat n) rights)) = mset (take (nat n) rights)" by (rule mset_set_set)
  then have "escrow_of l ?c + (if cell_label c = l then mset (drop (nat n) rights) else {#}) =
      (if cell_label c = l then mset rights else {#})"
    by (simp add: escrow_of_def flip: mset_append)
  then have "escrow (cells t) l = escrow (cells s) l + (if cell_label c = l then mset rights else {#})"
    using IH add(2) by (simp only: add.assoc)
  moreover have "fst ` set (cells s) \<subseteq> fst ` set (cells t)" using IH add(3) by (meson order_trans)
  ultimately show ?case using IH hs a by (simp only: list.map fst_conv simp_thms)
qed simp

lemma sum_list_nat:
  "\<forall>(a, n)\<in>set al. 0 < n \<Longrightarrow> int (\<Sum>(_, n)\<leftarrow>al. nat n) = (\<Sum>(_, n)\<leftarrow>al. (n :: int))"
  by (induction al) auto

lemma normalize_allocations_iff:
  "normalize_allocations seen al = Inr r \<longleftrightarrow> r = seen @ al \<and> (\<forall>(a, n)\<in>set al. a \<noteq> [] \<and> 0 < n) \<and>
     distinct (map fst al) \<and> fst ` set al \<inter> fst ` set seen = {}"
proof (induction seen al rule: normalize_allocations.induct)
  case (2 seen nm n rest)
  then show ?case by (auto simp: require_name_def)
qed auto

text \<open>The target state of a fork, and that it rearranges escrow only.\<close>

definition forked :: "rcell \<Rightarrow> (string \<times> int) list \<Rightarrow> rstate \<Rightarrow> rstate \<times> (string \<times> rhandle) list" where
  "forked c al s = fork_children c (sorted_list_of_set (unspent c)) (sort_key fst al) (put_cell (fence c) s)"

lemma forked_total:
  assumes "\<forall>(a, n)\<in>set al. 0 < n" and "(\<Sum>(_, n)\<leftarrow>al. n) = int (card A)"
  shows "(\<Sum>(_, n)\<leftarrow>sort_key fst al. nat n) = length (sorted_list_of_set A)"
proof -
  have "mset (map (\<lambda>(_, n). nat n) (sort_key fst al)) = mset (map (\<lambda>(_, n). nat n) al)"
    by (simp only: mset_map mset_sort)
  from arg_cong [OF this, of sum_mset]
  have "(\<Sum>(_, n)\<leftarrow>sort_key fst al. nat n) = (\<Sum>(_, n)\<leftarrow>al. nat n)" by (simp only: sum_mset_sum_list)
  moreover have "int (\<Sum>(_, n)\<leftarrow>al. nat n) = int (card A)" by (simp only: sum_list_nat [OF assms(1)] assms(2))
  ultimately show ?thesis unfolding of_nat_eq_iff length_sorted_list_of_set by (rule trans)
qed

lemma forked_inv:
  assumes "redemption_inv s" and "cell_for_handle s h = Inr c" and "\<forall>(a, n)\<in>set al. 0 < n"
    and "(\<Sum>(_, n)\<leftarrow>al. n) = int (card (unspent c))" and "forked c al s = (t, hs)"
  shows "redemption_inv t" "map fst hs = sort (map fst al)"
proof -
  note inv = redemption_invD [OF assms(1)]
  note c = cell_for_handle_ok [OF inv(1) assms(2)]
  let ?s = "put_cell (fence c) s" and ?rights = "sorted_list_of_set (unspent c)"
  note fen = fence_inv [OF inv(1) c(1)]
  note sum = forked_total [OF assms(3,4)]
  have lab: "cell_label c \<in> fst ` set (minted_rights ?s)" using c(5) by simp
  have dist: "distinct ?rights" by simp
  note kids = fork_children_inv [OF assms(5) [unfolded forked_def] fen(1) dist lab sum, unfolded put_cell_keys, unfolded put_cell_simps]
  have "insert (cell_id c) (fst ` set (cells s)) \<subseteq> fst ` set (cells t)" using kids [of l] by (simp only: fence_simps simp_thms)
  then have keys: "fst ` set (cells s) \<subseteq> fst ` set (cells t)" by (rule order_trans [OF subset_insertI])
  have rights: "(if cell_label c = l then mset ?rights else {#}) = escrow_of l c" for l
    using c(3) mset_set_set [OF dist] by (simp add: escrow_of_def)
  have esc: "escrow (cells t) l = escrow (cells s) l" for l
  proof -
    have "escrow (cells t) l = escrow (cells ?s) l + escrow_of l c"
      using kids [of l] unfolding rights put_cell_simps by (elim conjE)
    then show ?thesis using fen(2) [of l] by (simp only:)
  qed
  have same: "cells_inv t" "rtickets t = rtickets s" "rreceipts t = rreceipts s" "prepare_log t = prepare_log s"
    "sink_log t = sink_log s" "minted_rights t = minted_rights s"
    using kids [of l] by - (elim conjE, assumption)+
  show "redemption_inv t" using keys esc same by (intro rearranged_inv [OF assms(1)])
  have "map fst (sort_key fst al) = sort (map fst al)"
    by (rule properties_for_sort [symmetric]) simp_all
  moreover have "map fst hs = map fst (sort_key fst al)" using kids [of l] by (elim conjE)
  ultimately show "map fst hs = sort (map fst al)" by (simp only:)
qed

lemma fence_all:
  assumes "cells_inv s" and "\<forall>c\<in>set cs. map_of (cells s) (cell_id c) = Some c" and "distinct (map cell_id cs)"
    and "t = fold (\<lambda>c. put_cell (fence c)) cs s"
  shows "cells_inv t \<and> escrow (cells t) l + (\<Sum>c\<leftarrow>cs. escrow_of l c) = escrow (cells s) l \<and>
    rtickets t = rtickets s \<and> rreceipts t = rreceipts s \<and> prepare_log t = prepare_log s \<and>
    sink_log t = sink_log s \<and> minted_rights t = minted_rights s \<and> next_cell t = next_cell s \<and>
    fst ` set (cells s) \<subseteq> fst ` set (cells t)"
  using assms
proof (induction cs arbitrary: s)
  case (Cons c cs)
  let ?s = "put_cell (fence c) s"
  have c: "map_of (cells s) (cell_id c) = Some c" using Cons.prems(2) by simp
  note fen = fence_inv [OF Cons.prems(1) c]
  have d: "distinct (map cell_id cs)" "cell_id c \<notin> cell_id ` set cs" using Cons.prems(3) by simp_all
  have "map_of (cells ?s) (cell_id d) = Some d" if "d \<in> set cs" for d
  proof -
    have "cell_id d \<noteq> cell_id c" using that d(2) by (metis imageI)
    then show ?thesis using that Cons.prems(2) by simp
  qed
  then have rest: "\<forall>d\<in>set cs. map_of (cells ?s) (cell_id d) = Some d" by blast
  have t: "t = fold (\<lambda>c. put_cell (fence c)) cs ?s" using Cons.prems(4) by simp
  note IH = Cons.IH [OF fen(1) rest d(1) t, unfolded put_cell_simps]
  have "fst ` set (cells s) \<subseteq> fst ` set (cells ?s)" unfolding put_cell_keys by blast
  then have "fst ` set (cells s) \<subseteq> fst ` set (cells t)" using IH by (meson order_trans)
  moreover have "escrow (cells t) l + (\<Sum>c\<leftarrow>c # cs. escrow_of l c) = escrow (cells s) l"
  proof -
    have "escrow (cells t) l + (\<Sum>c\<leftarrow>c # cs. escrow_of l c) =
        escrow (cells t) l + (\<Sum>c\<leftarrow>cs. escrow_of l c) + escrow_of l c"
      by (simp only: list.map sum_list.Cons add.assoc add.commute [of "escrow_of l c"])
    also have "\<dots> = escrow (cells ?s) l + escrow_of l c" using IH by (simp only: simp_thms)
    finally show ?thesis using fen(2) [of l] by (simp only:)
  qed
  ultimately show ?case using IH by (simp only: simp_thms)
qed simp

lemma merge_transfer_Inr:
  assumes "merge_transfer R F cs = Inr (rights, refs)" and "finite R" and "\<forall>c\<in>set cs. finite (unspent c)"
  shows "finite rights \<and> mset_set rights = mset_set R + (\<Sum>c\<leftarrow>cs. mset_set (unspent c)) \<and>
    rights = R \<union> \<Union> (unspent ` set cs) \<and> refs = F \<union> \<Union> (receipt_refs ` set cs)"
  using assms
proof (induction R F cs rule: merge_transfer.induct)
  case (2 R F c cs)
  then have disj: "R \<inter> unspent c = {}" and rest: "merge_transfer (R \<union> unspent c) (F \<union> receipt_refs c) cs = Inr (rights, refs)"
    by (simp_all split: if_splits)
  have "mset_set (R \<union> unspent c) = mset_set R + mset_set (unspent c)"
    using 2(3,4) disj by (intro mset_set_Union) simp_all
  then show ?case using 2(1) [OF _ rest] disj 2(3,4) by (auto simp: add_ac)
qed simp

lemma map_r_Inr: "map_r f xs = Inr ys \<longleftrightarrow> length xs = length ys \<and> (\<forall>i<length xs. f (xs ! i) = Inr (ys ! i))"
proof (induction xs arbitrary: ys)
  case (Cons x xs)
  show ?case
  proof (cases ys)
    case (Cons y zs)
    then show ?thesis using Cons.IH [of zs] by (auto simp: nth_Cons split: nat.splits)
  qed auto
qed auto

lemma merge_cells:
  assumes "cells_inv s" and "map_r (cell_for_handle s) hs = Inr cs" and "distinct (map handle_cell hs)"
  shows "map cell_id cs = map handle_cell hs" "\<forall>c\<in>set cs. map_of (cells s) (cell_id c) = Some c"
    "\<forall>c\<in>set cs. finite (unspent c)" "\<forall>c\<in>set cs. cell_label c \<in> fst ` set (minted_rights s)"
proof -
  have len: "length hs = length cs" and each: "\<And>i. i < length hs \<Longrightarrow> cell_for_handle s (hs ! i) = Inr (cs ! i)"
    using assms(2) by (auto simp: map_r_Inr)
  note ok = cell_for_handle_ok [OF assms(1) each]
  show "map cell_id cs = map handle_cell hs" using len ok(2) by (intro nth_equalityI) auto
  show "\<forall>c\<in>set cs. map_of (cells s) (cell_id c) = Some c" "\<forall>c\<in>set cs. finite (unspent c)"
    "\<forall>c\<in>set cs. cell_label c \<in> fst ` set (minted_rights s)"
    using len ok(1,3,5) unfolding all_set_conv_all_nth by auto
qed

definition merged :: "rcell list \<Rightarrow> string \<Rightarrow> rstate \<Rightarrow> rstate" where
  "merged cs l s = add_cell \<lparr>cell_id = [], cell_label = l, cell_epoch = 0, cell_open = True,
     unspent = \<Union> (unspent ` set cs), receipt_refs = \<Union> (receipt_refs ` set cs)\<rparr>
     (fold (\<lambda>c. put_cell (fence c)) cs s)"

lemma merged_inv:
  assumes "redemption_inv s" and "map_r (cell_for_handle s) hs = Inr cs" and "distinct (map handle_cell hs)"
    and "\<forall>c\<in>set cs. cell_label c = l" and "cs \<noteq> []" and "merge_transfer {} {} cs = Inr (rights, refs)"
  shows "redemption_inv (merged cs l s)"
proof -
  note inv = redemption_invD [OF assms(1)]
  note cs = merge_cells [OF inv(1) assms(2,3)]
  let ?s = "fold (\<lambda>c. put_cell (fence c)) cs s"
  let ?c = "\<lparr>cell_id = [], cell_label = l, cell_epoch = 0, cell_open = True,
     unspent = \<Union> (unspent ` set cs), receipt_refs = \<Union> (receipt_refs ` set cs)\<rparr>"
  have ids: "distinct (map cell_id cs)" unfolding cs(1) by (rule assms(3))
  note fen = fence_all [OF inv(1) cs(2) ids refl]
  have mt: "finite (\<Union> (unspent ` set cs))" "mset_set (\<Union> (unspent ` set cs)) = (\<Sum>c\<leftarrow>cs. mset_set (unspent c))"
  proof -
    note mt = merge_transfer_Inr [OF assms(6) finite.emptyI cs(3)]
    show "finite (\<Union> (unspent ` set cs))" using cs(3) by simp
    have r: "rights = {} \<union> \<Union> (unspent ` set cs)"
      and m: "mset_set rights = mset_set {} + (\<Sum>c\<leftarrow>cs. mset_set (unspent c))" using mt by blast+
    show "mset_set (\<Union> (unspent ` set cs)) = (\<Sum>c\<leftarrow>cs. mset_set (unspent c))" using m unfolding r by simp
  qed
  have "l \<in> fst ` set (minted_rights s)" using cs(4) assms(4,5) by (cases cs) auto
  then have lab: "cell_label ?c \<in> fst ` set (minted_rights ?s)" using fen by simp
  note add = cells_inv_add [of ?s ?c, OF _ _ _ lab, folded merged_def]
  have "escrow (cells (merged cs l s)) k = escrow (cells s) k" for k
  proof -
    have "(\<Sum>c\<leftarrow>cs. escrow_of k c) = escrow_of k ?c"
    proof (cases "k = l")
      case True
      then have eq: "map (escrow_of k) cs = map (\<lambda>c. mset_set (unspent c)) cs"
        using assms(4) by (simp add: escrow_of_def)
      show ?thesis unfolding eq using mt(2) True by (simp add: escrow_of_def)
    next
      case False
      then have eq: "map (escrow_of k) cs = map (\<lambda>_. {#}) cs" using assms(4) by (simp add: escrow_of_def)
      show ?thesis unfolding eq using False by (simp add: escrow_of_def)
    qed
    then show ?thesis using fen [of k] add(2) [of k] mt(1) by (simp add: merged_def)
  qed
  moreover have "cells_inv (merged cs l s)" using add(1) fen mt(1) by (simp add: merged_def)
  moreover have "fst ` set (cells s) \<subseteq> fst ` set (cells (merged cs l s))"
    using add(3) fen mt(1) unfolding merged_def by (simp, meson order_trans)
  ultimately show ?thesis using fen by (intro rearranged_inv [OF assms(1)]) (simp_all add: merged_def)
qed

section \<open>When forks and merges are accepted\<close>

definition ticketed :: "rstate \<Rightarrow> string \<Rightarrow> bool" where
  "ticketed s k \<longleftrightarrow> (\<exists>(_, t)\<in>set (rtickets s). rt_cell t = k)"

definition fork_allowed :: "rstate \<Rightarrow> rhandle \<Rightarrow> (string \<times> int) list \<Rightarrow> rcell \<Rightarrow> bool" where
  "fork_allowed s h al c \<longleftrightarrow> al \<noteq> [] \<and> (\<forall>(a, n)\<in>set al. a \<noteq> [] \<and> 0 < n) \<and> distinct (map fst al) \<and>
     cell_for_handle s h = Inr c \<and> \<not> ticketed s (cell_id c) \<and> (\<Sum>(_, n)\<leftarrow>al. n) = int (card (unspent c))"

lemma normalize_allocations_Nil:
  "normalize_allocations [] al = Inr r \<longleftrightarrow>
     r = al \<and> (\<forall>(a, n)\<in>set al. a \<noteq> [] \<and> 0 < n) \<and> distinct (map fst al)"
  by (auto simp: normalize_allocations_iff)

lemma detached_fork_ok:
  assumes "redemption_inv s" and "fork_allowed s h al c"
  shows "detached_fork h al s = (fst (forked c al s), Inr (snd (forked c al s)))"
proof -
  obtain t hs where f: "forked c al s = (t, hs)" by (cases "forked c al s")
  have al: "normalize_allocations [] al = Inr al" "al \<noteq> []" and c: "cell_for_handle s h = Inr c"
    "\<not> (\<exists>(_, t)\<in>set (rtickets s). rt_cell t = cell_id c)" and sum: "(\<Sum>(_, n)\<leftarrow>al. n) = int (card (unspent c))"
    and pos: "\<forall>(a, n)\<in>set al. 0 < n"
    using assms(2) by (auto simp: fork_allowed_def ticketed_def normalize_allocations_Nil)
  have "redemption_inv t" by (rule forked_inv(1) [OF assms(1) c(1) pos sum f])
  then show ?thesis
    using al c sum f by (simp add: detached_fork_def forked_def store_def require_conserved_ok assms(1))
qed

lemma detached_fork_Inr:
  assumes "redemption_inv s" and "detached_fork h al s = (t, Inr hs)"
  obtains c where "fork_allowed s h al c" "forked c al s = (t, hs)"
  using assms(2) unfolding detached_fork_def
proof (cases rule: store_cases)
  case (2 y)
  then obtain c where "fork_allowed s h al c" "forked c al s = (t, hs)"
    by (auto simp: normalize_allocations_Nil fork_allowed_def ticketed_def forked_def
        split: if_splits prod.splits)
  then show thesis by (rule that)
qed simp

lemma detached_fork_Inl: "detached_fork h al s = (t, Inl e) \<Longrightarrow> t = s"
  by (auto simp: detached_fork_def elim!: store_cases)

text \<open>Conserved rights have one owner, so the transfer loop of a merge never finds an overlap.\<close>

lemma merge_transfer_total:
  assumes "finite R" and "\<forall>c\<in>set cs. finite (unspent c)"
    and "\<And>r. count (mset_set R + (\<Sum>c\<leftarrow>cs. mset_set (unspent c))) r \<le> 1"
  shows "merge_transfer R F cs = Inr (R \<union> \<Union> (unspent ` set cs), F \<union> \<Union> (receipt_refs ` set cs))"
  using assms
proof (induction R F cs rule: merge_transfer.induct)
  case (2 R F c cs)
  have disj: "R \<inter> unspent c = {}"
  proof (rule ccontr)
    assume "R \<inter> unspent c \<noteq> {}"
    then obtain r where "r \<in> R" "r \<in> unspent c" by blast
    then show False using 2(4) [of r] 2(2,3) by simp
  qed
  have fin: "finite (unspent c)" "finite (R \<union> unspent c)" "\<forall>c\<in>set cs. finite (unspent c)" using 2(2,3) by simp_all
  have "mset_set (R \<union> unspent c) = mset_set R + mset_set (unspent c)"
    using 2(2) fin(1) disj by (intro mset_set_Union)
  then have "\<And>r. count (mset_set (R \<union> unspent c) + (\<Sum>c\<leftarrow>cs. mset_set (unspent c))) r \<le> 1"
    using 2(4) by (simp add: add.assoc)
  then show ?case using 2(1) [OF _ fin(2,3)] disj by (simp add: Un_assoc)
qed simp

definition merge_allowed :: "rstate \<Rightarrow> rhandle list \<Rightarrow> string \<Rightarrow> rcell list \<Rightarrow> string \<Rightarrow> bool" where
  "merge_allowed s hs nm cs l \<longleftrightarrow> nm \<noteq> [] \<and> 2 \<le> length hs \<and> distinct (map handle_cell hs) \<and>
     map_r (cell_for_handle s) hs = Inr cs \<and> (\<forall>c\<in>set cs. cell_label c = l \<and> \<not> ticketed s (cell_id c))"

lemma map_r_length: "map_r f xs = Inr ys \<Longrightarrow> length ys = length xs"
  by (simp add: map_r_Inr)

lemma merge_allowed_transfer:
  assumes "redemption_inv s" and "merge_allowed s hs nm cs l"
  shows "merge_transfer {} {} cs = Inr (\<Union> (unspent ` set cs), \<Union> (receipt_refs ` set cs))"
proof -
  note inv = redemption_invD [OF assms(1)]
  have hs: "map_r (cell_for_handle s) hs = Inr cs" "distinct (map handle_cell hs)" and lab: "\<forall>c\<in>set cs. cell_label c = l"
    using assms(2) by (simp_all add: merge_allowed_def)
  note cs = merge_cells [OF inv(1) hs]
  have ids: "distinct (map cell_id cs)" unfolding cs(1) by (rule hs(2))
  let ?sum = "\<Sum>c\<leftarrow>cs. mset_set (unspent c)"
  have eq: "map (escrow_of l) cs = map (\<lambda>c. mset_set (unspent c)) cs" using lab by (simp add: escrow_of_def)
  have "escrow (cells (fold (\<lambda>c. put_cell (fence c)) cs s)) l + ?sum = escrow (cells s) l"
    using fence_all [OF inv(1) cs(2) ids refl, of l] unfolding eq by (elim conjE)
  then have "?sum \<subseteq># mset_set (minted s l)"
    using inv(2) [of l] unfolding conserved_def by (metis mset_subset_eq_add_left mset_subset_eq_add_right subset_mset.order_trans)
  then have "count ?sum r \<le> count (mset_set (minted s l)) r" for r by (rule mset_subset_eq_count)
  moreover have "count (mset_set (minted s l)) r \<le> 1" for r using finite_minted [OF inv(1), of l] by (simp add: count_mset_set')
  ultimately have "count ?sum r \<le> 1" for r by (rule order_trans)
  then show ?thesis using merge_transfer_total [of "{}" cs "{}"] cs(3) by simp
qed

lemma fence_all_next: "next_cell (fold (\<lambda>c. put_cell (fence c)) cs s) = next_cell s"
  by (induction cs arbitrary: s) simp_all

lemma merge_ok:
  assumes "redemption_inv s" and "merge_allowed s hs nm cs l"
  shows "merge hs nm s = (merged cs l s, Inr \<lparr>alias_id = nm, handle_cell = cell_name (next_cell s), handle_epoch = 0\<rparr>)"
    and "redemption_inv (merged cs l s)"
proof -
  have hs: "map_r (cell_for_handle s) hs = Inr cs" "distinct (map handle_cell hs)" "nm \<noteq> []" "2 \<le> length hs"
    and lab: "\<forall>c\<in>set cs. cell_label c = l" and tk: "\<forall>c\<in>set cs. \<not> ticketed s (cell_id c)"
    using assms(2) by (simp_all add: merge_allowed_def)
  have ne: "cs \<noteq> []" using map_r_length [OF hs(1)] hs(4) by auto
  note tr = merge_allowed_transfer [OF assms]
  show inv: "redemption_inv (merged cs l s)" by (rule merged_inv [OF assms(1) hs(1,2) lab ne tr])
  have "cell_label ` set cs = {l}" using lab ne by (cases cs) auto
  moreover have "cell_label (hd cs) = l" using lab ne by (cases cs) auto
  moreover have "\<not> (\<exists>(_, t)\<in>set (rtickets s). rt_cell t \<in> cell_id ` set cs)"
    using tk by (auto simp: ticketed_def)
  moreover note nc = fence_all_next [of cs s]
  moreover have "put_cell \<lparr>cell_id = cell_name (next_cell s), cell_label = l, cell_epoch = 0, cell_open = True,
       unspent = \<Union> (unspent ` set cs), receipt_refs = \<Union> (receipt_refs ` set cs)\<rparr>
       (fold (\<lambda>c. put_cell (fence c)) cs s\<lparr>next_cell := Suc (next_cell s)\<rparr>) = merged cs l s"
    using new_cell_add [of "fold (\<lambda>c. put_cell (fence c)) cs s"] unfolding nc merged_def by blast
  ultimately show "merge hs nm s = (merged cs l s, Inr \<lparr>alias_id = nm, handle_cell = cell_name (next_cell s), handle_epoch = 0\<rparr>)"
    using hs tr inv
    by (simp add: merge_def require_name_def store_def require_conserved_ok assms(1) new_cell_id_def Let_def)
qed

lemma merge_Inr:
  assumes "redemption_inv s" and "merge hs nm s = (t, Inr h)"
  obtains cs l where "merge_allowed s hs nm cs l" "t = merged cs l s"
proof -
  from assms(2) obtain cs where cs: "nm \<noteq> []" "2 \<le> length hs" "distinct (map handle_cell hs)"
    "map_r (cell_for_handle s) hs = Inr cs" "card (cell_label ` set cs) = 1"
    "\<not> (\<exists>(_, t)\<in>set (rtickets s). rt_cell t \<in> cell_id ` set cs)"
    unfolding merge_def
    by (cases rule: store_cases) (auto simp: require_name_def not_less Let_def split: if_splits)
  obtain l where "cell_label ` set cs = {l}" using cs(5) by (auto simp: card_1_singleton_iff)
  then have "merge_allowed s hs nm cs l" using cs by (auto simp: merge_allowed_def ticketed_def)
  moreover from merge_ok(1) [OF assms(1) this] assms(2) have "t = merged cs l s" by simp
  ultimately show thesis by (rule that)
qed

lemma merge_Inl: "merge hs nm s = (t, Inl e) \<Longrightarrow> t = s"
  by (auto simp: merge_def elim!: store_cases)

section \<open>The machine of the safe operations\<close>

text \<open>Every branch of Prepare: it either leaves the state or exchanges one right for one ticket.\<close>

lemma prepare_cases:
  assumes "prepare h e d crash s = (t, x)"
  obtains (same) "t = s" "\<forall>dec. x = Inr dec \<longrightarrow> \<not> linearized dec" "x \<noteq> Inl (InjectedPrepareCrash ''after'')"
  | (exchange) c r where "cell_for_handle s h = Inr c" "prior_binding s e = None" "unspent c \<noteq> {}"
      "linearize s c e d = (t, r)" "e \<noteq> []" "d \<noteq> []"
      "crash = None \<and> x = Inr (mk_decision True True ''Prepare linearized'' e (Some r) (Some (cell_id c))) \<or>
       crash = Some ''after_commit'' \<and> x = Inl (InjectedPrepareCrash ''after'')"
  using assms unfolding prepare_def
  by (auto simp: require_name_def mk_decision_def bind_r_eq_Inl split: sum.splits if_splits option.splits prod.splits)

datatype revent =
  RMint string int string "rhandle result"
| RAlias rhandle string "rhandle result"
| RPrepare rhandle string string "string option" "prepare_decision result"
| RDispatch string "sink_effect result"
| RSettle string string "rreceipt result"
| RRestore rhandle string "rhandle result"
| RFork rhandle "(string \<times> int) list" "(string \<times> rhandle) list result"
| RMerge "rhandle list" string "rhandle result"

inductive rstep :: "rstate \<Rightarrow> revent \<Rightarrow> rstate \<Rightarrow> bool" where
  "mint l n nm s = (t, x) \<Longrightarrow> rstep s (RMint l n nm x) t"
| "make_alias h nm s = (t, x) \<Longrightarrow> rstep s (RAlias h nm x) t"
| "prepare h e d crash s = (t, x) \<Longrightarrow> rstep s (RPrepare h e d crash x) t"
| "dispatch e s = (t, x) \<Longrightarrow> rstep s (RDispatch e x) t"
| "settle e res s = (t, x) \<Longrightarrow> rstep s (RSettle e res x) t"
| "replace_restore h nm s = (t, x) \<Longrightarrow> rstep s (RRestore h nm x) t"
| "detached_fork h al s = (t, x) \<Longrightarrow> rstep s (RFork h al x) t"
| "merge hs nm s = (t, x) \<Longrightarrow> rstep s (RMerge hs nm x) t"

inductive_simps rstep_simps:
  "rstep s (RMint l n nm x) t" "rstep s (RAlias h nm x) t" "rstep s (RPrepare h e d crash x) t"
  "rstep s (RDispatch e x) t" "rstep s (RSettle e res x) t" "rstep s (RRestore h nm x) t"
  "rstep s (RFork h al x) t" "rstep s (RMerge hs nm x) t"

lemma make_alias_state: "make_alias h nm s = (t, x) \<Longrightarrow> t = s"
  unfolding make_alias_def by (erule store_cases) (auto split: if_splits)

lemma mint_cases:
  assumes "redemption_inv s" and "mint l n nm s = (t, x)"
  obtains "t = s" | "l \<notin> fst ` set (minted_rights s)" "t = minted_state s l (nat n)"
proof (cases "l \<noteq> [] \<and> nm \<noteq> [] \<and> 0 < n \<and> l \<notin> fst ` set (minted_rights s)")
  case True
  then show thesis using that(2) mint_eq [OF assms(1), of l n nm] assms(2) by (simp add: prod_eq_iff)
next
  case False
  have "mint l n nm s = (s, snd (mint l n nm s))"
    using mint_eq [OF assms(1), of l n nm] unfolding if_not_P [OF False] by (elim conjE)
  then show thesis using that(1) assms(2) by (metis fst_conv)
qed

lemma replace_restore_cases:
  assumes "redemption_inv s" and "replace_restore h nm s = (t, x)"
  obtains "t = s"
  | c where "cell_for_handle s h = Inr c" "t = put_cell (c\<lparr>cell_epoch := cell_epoch c + 1\<rparr>) s"
proof (cases x)
  case (Inl a)
  then have "t = s" using assms(2) unfolding replace_restore_def by (auto elim: store_cases)
  then show thesis by (rule that(1))
next
  case (Inr b)
  then obtain c where c: "cell_for_handle s h = Inr c" "nm \<noteq> []"
    using assms(2) unfolding replace_restore_def by (auto elim!: store_cases simp: require_name_def split: if_splits)
  then show thesis using that(2) [OF c(1)] assms(2) replace_restore_eq [OF assms(1) c] by simp
qed

lemma rstep_inv:
  assumes "rstep s ev t" and "redemption_inv s"
  shows "redemption_inv t"
  using assms
proof (cases rule: rstep.cases)
  case (3 h e d crash x)
  then show ?thesis using assms(2) by (elim prepare_cases) (auto intro: linearize_inv)
next
  case (7 h al x)
  show ?thesis
  proof (cases x)
    case (Inr hs)
    obtain c where "fork_allowed s h al c" "forked c al s = (t, hs)"
      using detached_fork_Inr [OF assms(2)] 7(2) Inr by blast
    then show ?thesis using forked_inv(1) [OF assms(2), of h c al t hs] by (auto simp: fork_allowed_def)
  next
    case (Inl e)
    then have "t = s" using 7(2) by (auto dest: detached_fork_Inl)
    then show ?thesis using assms(2) by simp
  qed
next
  case (8 hs nm x)
  show ?thesis
  proof (cases x)
    case (Inr h)
    then show ?thesis using merge_Inr [OF assms(2)] merge_ok(2) [OF assms(2)] 8(2) by metis
  next
    case (Inl e)
    then have "t = s" using 8(2) by (auto dest: merge_Inl)
    then show ?thesis using assms(2) by simp
  qed
qed (auto dest: make_alias_state intro: dispatch_inv settle_inv
      elim!: mint_cases [OF assms(2)] replace_restore_cases [OF assms(2)]
      intro!: minted_state_inv [OF assms(2)] restored_inv [OF assms(2)])

interpretation redeem: invariant_machine rstep redemption_inv
  by unfold_locales (rule rstep_inv)

section \<open>Effects happen once\<close>

text \<open>The effect a step prepares afresh, and the effect a step sends to the sink.\<close>

fun prepared_key :: "revent \<Rightarrow> string option" where
  "prepared_key (RPrepare h e d crash x) =
     (if x = Inl (InjectedPrepareCrash ''after'') \<or> (case x of Inr dec \<Rightarrow> linearized dec | Inl _ \<Rightarrow> False)
      then Some e else None)"
| "prepared_key _ = None"

fun dispatched_key :: "revent \<Rightarrow> string option" where
  "dispatched_key (RDispatch e (Inr _)) = Some e"
| "dispatched_key _ = None"

definition prepared_effects :: "rstate \<Rightarrow> string set" where
  "prepared_effects s = lin_effect ` set (prepare_log s)"

definition sink_effects :: "rstate \<Rightarrow> string set" where
  "sink_effects s = se_effect ` set (sink_log s)"

lemma fork_children_logs:
  "prepare_log (fst (fork_children c rights al s)) = prepare_log s \<and>
   sink_log (fst (fork_children c rights al s)) = sink_log s"
  by (induction c rights al s rule: fork_children.induct)
    (auto simp: new_cell_id_def Let_def split: prod.splits)

lemma fence_all_logs:
  "prepare_log (fold (\<lambda>c. put_cell (fence c)) cs s) = prepare_log s"
  "sink_log (fold (\<lambda>c. put_cell (fence c)) cs s) = sink_log s"
  by (induction cs arbitrary: s) simp_all

lemma forked_logs:
  assumes "forked c al s = (t, hs)"
  shows "prepare_log t = prepare_log s" "sink_log t = sink_log s"
  using fork_children_logs [of c "sorted_list_of_set (unspent c)" "sort_key fst al" "put_cell (fence c) s"] assms
  by (simp_all add: forked_def)

lemma detached_fork_cases:
  assumes "redemption_inv s" and "detached_fork h al s = (t, x)"
  obtains "t = s" "\<not> is_ok x" | c hs where "fork_allowed s h al c" "forked c al s = (t, hs)" "x = Inr hs"
proof (cases x)
  case (Inl e)
  then show thesis using assms(2) that(1) by (auto dest: detached_fork_Inl)
next
  case (Inr hs)
  then show thesis using assms that(2) by (auto elim: detached_fork_Inr)
qed

lemma merge_cases:
  assumes "redemption_inv s" and "merge hs nm s = (t, x)"
  obtains "t = s" "\<not> is_ok x" | cs l where "merge_allowed s hs nm cs l" "t = merged cs l s"
proof (cases x)
  case (Inl e)
  then show thesis using assms(2) that(1) by (auto dest: merge_Inl)
next
  case (Inr h)
  then show thesis using assms that(2) by (auto elim: merge_Inr)
qed

lemma minted_state_logs [simp]:
  "prepare_log (minted_state s l n) = prepare_log s" "sink_log (minted_state s l n) = sink_log s"
  by (simp_all add: minted_state_def Let_def)

lemma merged_logs [simp]:
  "prepare_log (merged cs l s) = prepare_log s" "sink_log (merged cs l s) = sink_log s"
  by (simp_all add: merged_def fence_all_logs)

lemma dispatch_cases:
  assumes "dispatch e s = (t, x)"
  obtains (refused) err where "t = s" "x = Inl err"
  | (sent) u eff where "map_of (rtickets s) e = Some u" "rt_phase u = ''prepared''" "x = Inr eff"
      "se_effect eff = e" "se_label eff = rt_label u" "se_right eff = rt_right u" "se_digest eff = rt_digest u"
      "sink_log t = sink_log s @ [eff]" "prepare_log t = prepare_log s" "cells t = cells s"
  using assms unfolding dispatch_def
proof (cases rule: store_cases)
  case (2 y)
  then show thesis
    using that(2) by (auto simp: new_event_sequence_def Let_def split: option.splits if_splits)
qed (rule that(1))

lemma settle_cases:
  assumes "settle e res s = (t, x)"
  obtains (refused) err where "t = s" "x = Inl err"
  | (settled) u c where "map_of (rtickets s) e = Some u" "rt_phase u = ''inflight''"
      "map_of (cells s) (rt_cell u) = Some c"
      "cells t = cells (put_cell (c\<lparr>receipt_refs := insert e (receipt_refs c)\<rparr>) s)"
      "sink_log t = sink_log s" "prepare_log t = prepare_log s" "is_ok x"
  using assms unfolding settle_def
proof (cases rule: store_cases)
  case (2 y)
  then show thesis
    using that(2) by (auto simp: dict_get_def Let_def put_cell_def split: option.splits if_splits)
qed (rule that(1))

lemma rstep_prepared:
  assumes "rstep s ev t" and "redemption_inv s"
  shows "prepared_effects t = (case prepared_key ev of None \<Rightarrow> prepared_effects s | Some e \<Rightarrow> insert e (prepared_effects s)) \<and>
    (\<forall>e. prepared_key ev = Some e \<longrightarrow> e \<notin> prepared_effects s)"
  using assms(1)
proof (cases rule: rstep.cases)
  case (3 h e d crash x)
  from 3(2) show ?thesis
  proof (cases rule: prepare_cases)
    case same
    then show ?thesis using 3(1) by (auto split: sum.splits)
  next
    case (exchange c r)
    have "e \<notin> prepared_effects s"
      using exchange(2) effects_invD(5) [OF redemption_invD(3) [OF assms(2)]]
      by (metis UnE domIff prepared_effects_def prior_binding_None)
    then show ?thesis
      using exchange(7) 3(1) linearize_simps(3) [OF exchange(4)]
      by (auto simp: prepared_effects_def mk_decision_def)
  qed
qed (auto dest: make_alias_state elim!: mint_cases [OF assms(2)] replace_restore_cases [OF assms(2)]
      detached_fork_cases [OF assms(2)] merge_cases [OF assms(2)] dispatch_cases settle_cases
      simp: prepared_effects_def forked_logs)

lemma rstep_sink:
  assumes "rstep s ev t" and "redemption_inv s"
  shows "sink_effects t = (case dispatched_key ev of None \<Rightarrow> sink_effects s | Some e \<Rightarrow> insert e (sink_effects s)) \<and>
    (\<forall>e. dispatched_key ev = Some e \<longrightarrow> e \<notin> sink_effects s)"
  using assms(1)
proof (cases rule: rstep.cases)
  case (4 e x)
  from 4(2) show ?thesis
  proof (cases rule: dispatch_cases)
    case (sent u eff)
    note eff = effects_invD [OF redemption_invD(3) [OF assms(2)]]
    have "e \<notin> inflight_effects s" "e \<notin> dom (map_of (rreceipts s))"
      using sent(1,2) eff(4) by (auto simp: inflight_effects_def)
    then have "e \<notin> sink_effects s" using eff(8) by (simp add: sink_effects_def)
    then show ?thesis using sent 4(1) by (simp add: sink_effects_def)
  qed (use 4(1) in simp)
next
  case (3 h e d crash x)
  then show ?thesis by (auto elim!: prepare_cases dest: linearize_simps(6) simp: sink_effects_def)
qed (auto dest: make_alias_state elim!: mint_cases [OF assms(2)] replace_restore_cases [OF assms(2)]
      detached_fork_cases [OF assms(2)] merge_cases [OF assms(2)] settle_cases
      simp: sink_effects_def forked_logs)

interpretation prepares: once_machine rstep redemption_inv prepared_effects prepared_key
proof unfold_locales
  show "prepared_effects s \<subseteq> prepared_effects t" if "rstep s ev t" "redemption_inv s" for s ev t
    using rstep_prepared [OF that] by (auto split: option.splits)
  show "k \<notin> prepared_effects s \<and> k \<in> prepared_effects t"
    if "rstep s ev t" "redemption_inv s" "prepared_key ev = Some k" for s ev t k
    using rstep_prepared [OF that(1,2)] that(3) by simp
qed

interpretation dispatches: once_machine rstep redemption_inv sink_effects dispatched_key
proof unfold_locales
  show "sink_effects s \<subseteq> sink_effects t" if "rstep s ev t" "redemption_inv s" for s ev t
    using rstep_sink [OF that] by (auto split: option.splits)
  show "k \<notin> sink_effects s \<and> k \<in> sink_effects t"
    if "rstep s ev t" "redemption_inv s" "dispatched_key ev = Some k" for s ev t k
    using rstep_sink [OF that(1,2)] that(3) by simp
qed

lemma run_prepared:
  assumes "run rstep s es t" and "redemption_inv s"
  shows "prepared_effects t = prepared_effects s \<union> set (keys_of prepared_key es)"
  using assms
proof (induction rule: run.induct)
  case (run_Cons s e t es u)
  then show ?case
    using rstep_prepared [OF run_Cons.hyps(1) run_Cons.prems] rstep_inv [OF run_Cons.hyps(1) run_Cons.prems]
    by (auto split: option.splits)
qed simp

lemma sink_prepared:
  assumes "redemption_inv s"
  shows "sink_effects s \<subseteq> prepared_effects s"
  using effects_invD(9) [OF redemption_invD(3) [OF assms]]
  by (force simp: sink_effects_def prepared_effects_def)

section \<open>Epochs only advance\<close>

text \<open>The references a cell has moved past: the handles whose epoch is below the epoch of their cell.\<close>

definition stale_refs :: "rstate \<Rightarrow> (string \<times> nat) set" where
  "stale_refs s = {(k, n). \<exists>c. map_of (cells s) k = Some c \<and> n < cell_epoch c}"

lemma stale_put:
  assumes "\<And>c0. map_of (cells s) (cell_id c) = Some c0 \<Longrightarrow> cell_epoch c0 \<le> cell_epoch c"
  shows "stale_refs s \<subseteq> stale_refs (put_cell c s)"
  using assms by (fastforce simp: stale_refs_def put_cell_def AList.update_conv')

lemma stale_add:
  assumes "cells_inv s"
  shows "stale_refs s \<subseteq> stale_refs (add_cell c s)"
proof -
  have "map_of (cells s) (cell_name (next_cell s)) = None"
    using cells_invD(6) [OF assms] by (simp add: map_of_eq_None_iff)
  then have "stale_refs (s\<lparr>next_cell := next_cell s + 1\<rparr>) \<subseteq> stale_refs (add_cell c s)"
    unfolding add_cell_def by (intro stale_put) simp
  then show ?thesis by (simp add: stale_refs_def)
qed

lemma stale_fence:
  assumes "map_of (cells s) (cell_id c) = Some c"
  shows "insert (cell_id c, cell_epoch c) (stale_refs s) \<subseteq> stale_refs (put_cell (fence c) s)"
proof -
  have "(cell_id c, cell_epoch c) \<in> stale_refs (put_cell (fence c) s)"
    by (simp add: stale_refs_def put_cell_def AList.update_conv')
  then show ?thesis using stale_put [of s "fence c"] assms by simp
qed

lemma stale_fork_children:
  assumes "fork_children c rights al s = (t, hs)" and "cells_inv s" and "cell_label c \<in> fst ` set (minted_rights s)"
  shows "stale_refs s \<subseteq> stale_refs t"
  using assms
proof (induction al arbitrary: rights s t hs)
  case (Cons a al)
  obtain nm n where a: "a = (nm, n)" by (cases a)
  let ?c = "\<lparr>cell_id = [], cell_label = cell_label c, cell_epoch = 0, cell_open = True,
      unspent = set (take (nat n) rights), receipt_refs = receipt_refs c\<rparr>"
  obtain hs' where f: "fork_children c (drop (nat n) rights) al (add_cell ?c s) = (t, hs')"
    using Cons.prems(1) by (auto simp: a Let_def new_cell_id_def new_cell_add split: prod.splits)
  have "cells_inv (add_cell ?c s)" using Cons.prems(2,3) by (intro cells_inv_add(1)) simp_all
  then have "stale_refs (add_cell ?c s) \<subseteq> stale_refs t" using Cons.IH [OF f] Cons.prems(3) by simp
  then show ?case using stale_add [OF Cons.prems(2), of ?c] by (rule order_trans [rotated])
qed simp

lemma stale_forked:
  assumes "redemption_inv s" and "cell_for_handle s h = Inr c" and "forked c al s = (t, hs)"
  shows "insert (cell_id c, cell_epoch c) (stale_refs s) \<subseteq> stale_refs t"
proof -
  note c = cell_for_handle_ok [OF redemption_invD(1) [OF assms(1)] assms(2)]
  note fen = fence_inv [OF redemption_invD(1) [OF assms(1)] c(1)]
  have "stale_refs (put_cell (fence c) s) \<subseteq> stale_refs t"
    using stale_fork_children [OF assms(3) [unfolded forked_def] fen(1)] c(5) by simp
  then show ?thesis using stale_fence [OF c(1)] by (rule order_trans [rotated])
qed

lemma stale_fence_all:
  assumes "\<forall>c\<in>set cs. map_of (cells s) (cell_id c) = Some c" and "distinct (map cell_id cs)"
  shows "(\<lambda>c. (cell_id c, cell_epoch c)) ` set cs \<union> stale_refs s \<subseteq>
    stale_refs (fold (\<lambda>c. put_cell (fence c)) cs s)"
  using assms
proof (induction cs arbitrary: s)
  case (Cons c cs)
  have c: "map_of (cells s) (cell_id c) = Some c" and ne: "cell_id c \<notin> cell_id ` set cs"
    and rest: "\<forall>d\<in>set cs. map_of (cells s) (cell_id d) = Some d" "distinct (map cell_id cs)"
    using Cons.prems by simp_all
  have "map_of (cells (put_cell (fence c) s)) (cell_id d) = Some d" if "d \<in> set cs" for d
  proof -
    have "cell_id d \<noteq> cell_id c" using that ne by (metis imageI)
    then show ?thesis using that rest(1) by simp
  qed
  then have "(\<lambda>c. (cell_id c, cell_epoch c)) ` set cs \<union> stale_refs (put_cell (fence c) s) \<subseteq>
      stale_refs (fold (\<lambda>c. put_cell (fence c)) cs (put_cell (fence c) s))"
    using Cons.IH rest(2) by blast
  then show ?case using stale_fence [OF c] by auto
qed simp

lemma stale_merged:
  assumes "redemption_inv s" and "merge_allowed s hs nm cs l"
  shows "(\<lambda>c. (cell_id c, cell_epoch c)) ` set cs \<union> stale_refs s \<subseteq> stale_refs (merged cs l s)"
proof -
  note inv = redemption_invD [OF assms(1)]
  have hs: "map_r (cell_for_handle s) hs = Inr cs" "distinct (map handle_cell hs)"
    using assms(2) by (simp_all add: merge_allowed_def)
  note cs = merge_cells [OF inv(1) hs]
  have ids: "distinct (map cell_id cs)" unfolding cs(1) by (rule hs(2))
  have "cells_inv (fold (\<lambda>c. put_cell (fence c)) cs s)"
    using fence_all [OF inv(1) cs(2) ids refl, of l] by (elim conjE)
  then show ?thesis
    unfolding merged_def by (rule order_trans [OF stale_fence_all [OF cs(2) ids] stale_add])
qed

lemma stale_restored:
  assumes "cell_for_handle s h = Inr c" and "cells_inv s"
  shows "insert (cell_id c, cell_epoch c) (stale_refs s) \<subseteq> stale_refs (put_cell (c\<lparr>cell_epoch := cell_epoch c + 1\<rparr>) s)"
proof -
  note c = cell_for_handle_ok [OF assms(2,1)]
  have "(cell_id c, cell_epoch c) \<in> stale_refs (put_cell (c\<lparr>cell_epoch := cell_epoch c + 1\<rparr>) s)"
    by (simp add: stale_refs_def put_cell_def AList.update_conv')
  then show ?thesis using stale_put [of s "c\<lparr>cell_epoch := cell_epoch c + 1\<rparr>"] c(1) by simp
qed

lemma stale_same_cells: "cells t = cells s \<Longrightarrow> stale_refs t = stale_refs s"
  by (simp add: stale_refs_def)

lemma stale_minted:
  assumes "cells_inv s"
  shows "stale_refs s \<subseteq> stale_refs (minted_state s l n)"
proof -
  let ?rs = "set (map (right_name l) [0..<n])"
  let ?s = "s\<lparr>minted_rights := AList.update l ?rs (minted_rights s)\<rparr>"
  have none: "map_of (cells s) (cell_name (next_cell s)) = None"
    using cells_invD(6) [OF assms] by (simp add: map_of_eq_None_iff)
  have "stale_refs s = stale_refs (?s\<lparr>next_cell := next_cell ?s + 1\<rparr>)" by (simp add: stale_refs_def)
  also have "\<dots> \<subseteq> stale_refs (minted_state s l n)"
    unfolding minted_state_def Let_def add_cell_def by (intro stale_put) (simp add: none)
  finally show ?thesis .
qed

lemma stale_linearize:
  assumes "cell_for_handle s h = Inr c" and "cells_inv s" and "linearize s c e d = (t, r)"
  shows "stale_refs t = stale_refs (put_cell (c\<lparr>unspent := unspent c - {r}\<rparr>) s)" "stale_refs s \<subseteq> stale_refs t"
proof -
  note c = cell_for_handle_ok [OF assms(2,1)]
  show "stale_refs t = stale_refs (put_cell (c\<lparr>unspent := unspent c - {r}\<rparr>) s)"
    by (rule stale_same_cells) (rule linearize_simps(2) [OF assms(3)])
  then show "stale_refs s \<subseteq> stale_refs t"
    using stale_put [of s "c\<lparr>unspent := unspent c - {r}\<rparr>"] c(1) by simp
qed

lemma stale_settle:
  assumes "settle e res s = (t, x)" and "cells_inv s"
  shows "stale_refs s \<subseteq> stale_refs t"
  using assms(1)
proof (cases rule: settle_cases)
  case (settled u c)
  have "cell_id c = rt_cell u" using cells_invD(3) [OF assms(2) settled(3)] by (simp add: cell_ok_def)
  then show ?thesis
    using settled(3) stale_put [of s "c\<lparr>receipt_refs := insert e (receipt_refs c)\<rparr>"] stale_same_cells [OF settled(4)]
    by simp
qed simp

lemma rstep_stale:
  assumes "rstep s ev t" and "redemption_inv s"
  shows "stale_refs s \<subseteq> stale_refs t"
  using assms(1)
proof (cases rule: rstep.cases)
  case (3 h e d crash x)
  then show ?thesis
    using stale_linearize(2) redemption_invD(1) [OF assms(2)] by (elim prepare_cases) blast+
next
  case (7 h al x)
  from 7(2) show ?thesis
  proof (rule detached_fork_cases [OF assms(2)])
    fix c hs
    assume "fork_allowed s h al c" and f: "forked c al s = (t, hs)"
    then have "cell_for_handle s h = Inr c" by (simp add: fork_allowed_def)
    from stale_forked [OF assms(2) this f] show ?thesis by simp
  qed simp
next
  case (8 hs nm x)
  from 8(2) show ?thesis
    by (rule merge_cases [OF assms(2)]) (use stale_merged [OF assms(2)] in auto)
next
  case (6 h nm x)
  from 6(2) show ?thesis
    by (rule replace_restore_cases [OF assms(2)]) (use stale_restored redemption_invD(1) [OF assms(2)] in auto)
qed (use redemption_invD(1) [OF assms(2)] in \<open>auto dest: make_alias_state
      elim!: mint_cases [OF assms(2)] dispatch_cases
      dest: stale_settle stale_same_cells stale_minted [THEN subsetD]\<close>)

interpretation epochs: growing_machine rstep redemption_inv stale_refs
  by unfold_locales (rule rstep_stale)

text \<open>A stale reference is refused by every operation that resolves a handle.\<close>

lemma stale_refused:
  assumes "(handle_cell h, handle_epoch h) \<in> stale_refs s"
  shows "cell_for_handle s h = Inl (LifecycleRejected ''stale cell epoch'')"
  using assms by (auto simp: stale_refs_def cell_for_handle_def)

section \<open>Properties of every run\<close>

lemma reachable_inv: "run rstep empty_runtime es s \<Longrightarrow> redemption_inv s"
  by (rule redeem.run_inv [OF _ empty_runtime_inv])

lemma size_unique:
  assumes "\<And>x. count M x \<le> 1"
  shows "size M = card (set_mset M)"
proof -
  have "count M x = 1" if "x \<in># M" for x using assms [of x] that by (metis One_nat_def count_greater_zero_iff le_SucE le_zero_eq less_numeral_extra(3))
  then show ?thesis by (simp add: size_multiset_overloaded_eq)
qed

lemma report_counts:
  assumes "redemption_inv s"
  shows "controller_prepare_successes (report s l) + unique_unspent (report s l) = minted_capacity (report s l)"
proof -
  note inv = redemption_invD [OF assms]
  let ?E = "escrow (cells s) l" and ?R = "redeemed s l"
  have safe: "report_safe (report s l)" using inv(2) report_safe_iff [OF inv(1)] by blast
  then have "\<And>r. count ?R r \<le> 1" and cards: "card (set_mset ?E) + card (set_mset ?R) = card (minted s l)"
    unfolding report_safe_sets [OF inv(1)] by blast+
  then have "size ?R = card (set_mset ?R)" by (intro size_unique)
  moreover have "size ?R = length (redemptions s l)" by (simp add: redeemed_def)
  moreover have "unspent_rights s l = set_mset ?E" using unspent_rights_iff [OF inv(1)] by blast
  ultimately show ?thesis using cards by (simp add: report_def Let_def)
qed

lemma report_sink:
  assumes "redemption_inv s"
  shows "external_sink_effects (report s l) \<le> controller_prepare_successes (report s l)"
proof -
  note eff = effects_invD [OF redemption_invD(3) [OF assms]]
  let ?S = "filter (\<lambda>e. se_label e = l) (sink_log s)"
  have "distinct (map se_effect ?S)" using eff(3) by (rule distinct_map_filter)
  then have "length ?S = card (se_effect ` set ?S)" using distinct_card [of "map se_effect ?S"] by simp
  also have "\<dots> \<le> card (lin_effect ` set (redemptions s l))"
    using eff(9) by (intro card_mono) (force simp: redemptions_def)+
  also have "\<dots> \<le> length (redemptions s l)"
    by (rule order_trans [OF card_image_le [OF finite_set] card_length])
  finally show ?thesis by (simp add: report_def Let_def)
qed

text \<open>
  C2. In every state the runtime reaches from the empty one by any sequence of mints, aliases,
  preparations (crashing or not), dispatches, settlements, restores, detached forks and merges,
  accepted or refused, the conservation report of every label is safe; and the external effects
  of a label are at most its controller successes, which together with its unspent rights are
  exactly its minted capacity.
\<close>

theorem redemption_conserves_rights:
  assumes "run rstep empty_runtime es s"
  shows "report_safe (report s l) \<and>
    external_sink_effects (report s l) \<le> controller_prepare_successes (report s l) \<and>
    controller_prepare_successes (report s l) + unique_unspent (report s l) = minted_capacity (report s l)"
proof -
  note inv = reachable_inv [OF assms]
  have "report_safe (report s l)"
    using redemption_invD(1,2) [OF inv] report_safe_iff by blast
  then show ?thesis using report_counts [OF inv] report_sink [OF inv] by blast
qed

text \<open>
  C8. Along every run of the runtime an effect id is prepared afresh at most once, even when the
  preparation crashed after its commit, reaches the external sink at most once, and only after it
  was prepared.
\<close>

theorem redemption_effects_once:
  assumes "run rstep empty_runtime es s"
  shows "distinct (keys_of prepared_key es) \<and> distinct (keys_of dispatched_key es) \<and>
    set (keys_of dispatched_key es) \<subseteq> set (keys_of prepared_key es)"
proof -
  have "set (keys_of dispatched_key es) \<subseteq> sink_effects s"
    using dispatches.run_keys(3) [OF assms empty_runtime_inv] .
  also have "\<dots> \<subseteq> prepared_effects s" using sink_prepared [OF reachable_inv [OF assms]] .
  also have "\<dots> = set (keys_of prepared_key es)"
    using run_prepared [OF assms empty_runtime_inv] by (simp add: prepared_effects_def empty_runtime_def)
  finally show ?thesis
    using prepares.run_keys(1) [OF assms empty_runtime_inv] dispatches.run_keys(1) [OF assms empty_runtime_inv]
    by blast
qed

text \<open>After an exchange the same handle resolves to the same cell, and the effect is bound to it.\<close>

lemma linearize_rebinds:
  assumes "cells_inv s" and "cell_for_handle s h = Inr c" and "linearize s c e d = (t, r)"
  shows "cell_for_handle t h = Inr (c\<lparr>unspent := unspent c - {r}\<rparr>)" "prior_binding t e = Some (d, cell_id c, r)"
proof -
  note c = cell_for_handle_ok [OF assms(1,2)] and t = linearize_simps [OF assms(3)]
  show "cell_for_handle t h = Inr (c\<lparr>unspent := unspent c - {r}\<rparr>)"
    using assms(2) c(2) by (simp add: cell_for_handle_iff t(2) put_cell_def AList.update_conv')
  show "prior_binding t e = Some (d, cell_id c, r)"
    by (simp add: prior_binding_def t(4) AList.update_conv')
qed

text \<open>
  C19. Crashes of Prepare are atomic. When Prepare would succeed with a new exchange, a crash
  before the commit leaves the state untouched, a crash after it leaves exactly the state of the
  uncrashed call, and from then on the same request, however it crashes, changes nothing and is
  answered with the right of the first exchange as an idempotent replay.
\<close>

theorem prepare_crash_recovery:
  assumes "run rstep empty_runtime es s" and "prepare h e d None s = (t, Inr dec)" and "linearized dec"
    and "crash \<in> {None, Some ''before_commit'', Some ''after_commit''}"
  shows "prepare h e d (Some ''before_commit'') s = (s, Inl (InjectedPrepareCrash ''before'')) \<and>
    prepare h e d (Some ''after_commit'') s = (t, Inl (InjectedPrepareCrash ''after'')) \<and>
    prepare h e d crash t =
      (t, Inr (mk_decision True False ''idempotent Prepare replay'' e (decided_right dec) (decided_cell dec)))"
proof -
  note inv = redemption_invD(1) [OF reachable_inv [OF assms(1)]]
  from assms(2) obtain c r where c: "cell_for_handle s h = Inr c" "prior_binding s e = None" "unspent c \<noteq> {}"
    "linearize s c e d = (t, r)" "e \<noteq> []" "d \<noteq> []"
    and dec: "dec = mk_decision True True ''Prepare linearized'' e (Some r) (Some (cell_id c))"
    using assms(3) by (cases rule: prepare_cases) auto
  note again = linearize_rebinds [OF inv c(1,4)]
  have "prepare h e d crash t =
      (t, Inr (mk_decision True False ''idempotent Prepare replay'' e (Some r) (Some (cell_id c))))"
    using again c(5,6) assms(4) by (auto simp: prepare_def require_name_def)
  then show ?thesis using c dec by (simp add: prepare_def require_name_def mk_decision_def)
qed

text \<open>
  C31. In a reachable state the guards alone decide which operations are accepted; the conservation
  checks never refuse one. A mint is accepted exactly when its names are given, its capacity is
  positive and its label is new; a restore exactly when its handle is current; a fork exactly when its allocations are named, positive and distinct, its handle is current,
  its cell has no open ticket and the allocations add up to the escrow; a merge exactly when its
  handles are current, of at least two distinct cells of one label, without open tickets.
\<close>

theorem forks_and_merges_decided:
  assumes "run rstep empty_runtime es s"
  shows "(is_ok (snd (detached_fork h al s)) \<longleftrightarrow> (\<exists>c. fork_allowed s h al c)) \<and>
    (is_ok (snd (merge hs nm s)) \<longleftrightarrow> (\<exists>cs l. merge_allowed s hs nm cs l)) \<and>
    (is_ok (snd (replace_restore h nm s)) \<longleftrightarrow> nm \<noteq> [] \<and> is_ok (cell_for_handle s h)) \<and>
    (is_ok (snd (mint lab n nm s)) \<longleftrightarrow> lab \<noteq> [] \<and> nm \<noteq> [] \<and> 0 < n \<and> lab \<notin> fst ` set (minted_rights s))"
proof (intro conjI)
  note inv = reachable_inv [OF assms]
  show "is_ok (snd (detached_fork h al s)) \<longleftrightarrow> (\<exists>c. fork_allowed s h al c)"
    using detached_fork_ok [OF inv, of h al] detached_fork_cases [OF inv, of h al]
    by (metis is_ok_simps(2) prod.collapse snd_conv)
  show "is_ok (snd (merge hs nm s)) \<longleftrightarrow> (\<exists>cs l. merge_allowed s hs nm cs l)"
    using merge_ok(1) [OF inv, of hs nm] merge_cases [OF inv, of hs nm]
    by (metis is_ok_simps(2) prod.collapse snd_conv)
  show "is_ok (snd (replace_restore h nm s)) \<longleftrightarrow> nm \<noteq> [] \<and> is_ok (cell_for_handle s h)"
  proof (cases "cell_for_handle s h")
    case (Inr c)
    then show ?thesis
      using replace_restore_eq [OF inv Inr] by (cases "nm = []") (simp_all add: replace_restore_def require_name_def store_def)
  qed (auto simp: replace_restore_def require_name_def store_def)
  show "is_ok (snd (mint lab n nm s)) \<longleftrightarrow> lab \<noteq> [] \<and> nm \<noteq> [] \<and> 0 < n \<and> lab \<notin> fst ` set (minted_rights s)"
    using mint_eq [OF inv, of lab n nm] by (elim conjE)
qed

section \<open>Forking and merging back\<close>

lemma cell_for_handle_add:
  assumes "cells_inv s" and "cell_for_handle s h = Inr d"
  shows "cell_for_handle (add_cell c s) h = Inr d"
proof -
  have m: "map_of (cells s) (handle_cell h) = Some d" using assms(2) by (simp add: cell_for_handle_iff)
  then have "handle_cell h \<in> fst ` set (cells s)" by (metis domI dom_map_of_conv_image_fst)
  then have "handle_cell h \<noteq> cell_name (next_cell s)" using cells_invD(6) [OF assms(1)] by metis
  then show ?thesis using assms(2) m by (simp add: cell_for_handle_iff add_cell_def put_cell_def AList.update_conv')
qed

lemma fork_children_keeps:
  assumes "fork_children c rights al s = (t, hs)" and "cells_inv s" and "cell_label c \<in> fst ` set (minted_rights s)"
    and "cell_for_handle s h = Inr d"
  shows "cell_for_handle t h = Inr d"
  using assms
proof (induction al arbitrary: rights s t hs)
  case (Cons a al)
  obtain nm n where a: "a = (nm, n)" by (cases a)
  let ?c = "\<lparr>cell_id = [], cell_label = cell_label c, cell_epoch = 0, cell_open = True,
      unspent = set (take (nat n) rights), receipt_refs = receipt_refs c\<rparr>"
  obtain hs' where f: "fork_children c (drop (nat n) rights) al (add_cell ?c s) = (t, hs')"
    using Cons.prems(1) by (auto simp: a Let_def new_cell_id_def new_cell_add split: prod.splits)
  have "cells_inv (add_cell ?c s)" using Cons.prems(2,3) by (intro cells_inv_add(1)) simp_all
  then show ?case using Cons.IH [OF f] Cons.prems(3) cell_for_handle_add [OF Cons.prems(2,4)] by simp
qed simp

text \<open>The children of a fork: fresh open cells of the same label that share out the rights.\<close>

lemma fork_children_cells:
  assumes "fork_children c rights al s = (t, hs)" and "cells_inv s" and "cell_label c \<in> fst ` set (minted_rights s)"
    and "(\<Sum>(_, n)\<leftarrow>al. nat n) = length rights"
  shows "\<exists>cs. map_r (cell_for_handle t) (map snd hs) = Inr cs \<and> length cs = length al \<and>
    (\<Union>d\<in>set cs. unspent d) = set rights \<and> (\<forall>d\<in>set cs. cell_label d = cell_label c \<and> receipt_refs d = receipt_refs c) \<and>
    map (handle_cell \<circ> snd) hs = map cell_name [next_cell s..<next_cell s + length al]"
  using assms
proof (induction al arbitrary: rights s t hs)
  case (Cons a al)
  obtain nm n where a: "a = (nm, n)" by (cases a)
  let ?c = "\<lparr>cell_id = [], cell_label = cell_label c, cell_epoch = 0, cell_open = True,
      unspent = set (take (nat n) rights), receipt_refs = receipt_refs c\<rparr>"
  let ?h = "\<lparr>alias_id = nm, handle_cell = cell_name (next_cell s), handle_epoch = 0\<rparr>"
  obtain hs' where f: "fork_children c (drop (nat n) rights) al (add_cell ?c s) = (t, hs')" and hs: "hs = (nm, ?h) # hs'"
    using Cons.prems(1) by (auto simp: a Let_def new_cell_id_def new_cell_add split: prod.splits)
  have inv: "cells_inv (add_cell ?c s)" using Cons.prems(2,3) by (intro cells_inv_add(1)) simp_all
  have lab: "cell_label c \<in> fst ` set (minted_rights (add_cell ?c s))" using Cons.prems(3) by simp
  have "(\<Sum>(_, n)\<leftarrow>al. nat n) = length (drop (nat n) rights)" using Cons.prems(4) by (simp add: a)
  from Cons.IH [OF f inv lab this] obtain cs where cs: "map_r (cell_for_handle t) (map snd hs') = Inr cs"
    "length cs = length al" "(\<Union>d\<in>set cs. unspent d) = set (drop (nat n) rights)"
    "\<forall>d\<in>set cs. cell_label d = cell_label c \<and> receipt_refs d = receipt_refs c"
    "map (handle_cell \<circ> snd) hs' = map cell_name [next_cell s + 1..<next_cell s + 1 + length al]"
    unfolding add_cell_simps by (elim exE conjE)
  have "cell_for_handle (add_cell ?c s) ?h = Inr (?c\<lparr>cell_id := cell_name (next_cell s)\<rparr>)"
    by (simp add: cell_for_handle_iff add_cell_def put_cell_def AList.update_conv')
  then have "cell_for_handle t ?h = Inr (?c\<lparr>cell_id := cell_name (next_cell s)\<rparr>)"
    by (rule fork_children_keeps [OF f inv lab])
  then have m: "map_r (cell_for_handle t) (map snd hs) = Inr (?c\<lparr>cell_id := cell_name (next_cell s)\<rparr> # cs)"
    using cs(1) hs by simp
  have "set rights = set (take (nat n) rights) \<union> set (drop (nat n) rights)"
    by (metis append_take_drop_id set_append)
  then have u: "(\<Union>d\<in>set (?c\<lparr>cell_id := cell_name (next_cell s)\<rparr> # cs). unspent d) = set rights" using cs(3) by simp
  have "[next_cell s..<next_cell s + length (a # al)] = next_cell s # [next_cell s + 1..<next_cell s + 1 + length al]"
    by (simp add: upt_conv_Cons del: upt_Suc)
  then have ids: "map (handle_cell \<circ> snd) hs = map cell_name [next_cell s..<next_cell s + length (a # al)]"
    using cs(5) hs by (simp only: list.map comp_apply snd_conv rhandle.simps)
  show ?case using m u ids cs(2,4) by (intro exI [of _ "?c\<lparr>cell_id := cell_name (next_cell s)\<rparr> # cs"]) (simp del: upt_Suc comp_apply)
qed simp

lemma fork_children_tickets: "rtickets (fst (fork_children c rights al s)) = rtickets s"
  by (induction c rights al s rule: fork_children.induct) (auto simp: new_cell_id_def Let_def split: prod.splits)

lemma fresh_not_ticketed:
  assumes "redemption_inv s" and "next_cell s \<le> i"
  shows "\<not> ticketed s (cell_name i)"
proof
  note inv = redemption_invD [OF assms(1)] and eff = effects_invD [OF redemption_invD(3) [OF assms(1)]]
  assume "ticketed s (cell_name i)"
  then obtain e t where "(e, t) \<in> set (rtickets s)" "rt_cell t = cell_name i" by (auto simp: ticketed_def)
  then have "cell_name i \<in> fst ` set (cells s)" using eff(1,6) by (metis map_of_is_SomeI ticket_matches_def)
  then obtain j where "j < next_cell s" "cell_name i = cell_name j"
    using inv(1) by (auto simp: cells_inv_def cell_ok_def)
  then show False using assms(2) by simp
qed

text \<open>
  C32. A detached fork into at least two children is undone by merging the children: the merge is
  accepted, and its handle resolves to a cell with the label, the unspent rights and the receipts
  of the cell that was forked.
\<close>

theorem fork_then_merge:
  assumes "run rstep empty_runtime es s" and "cell_for_handle s h = Inr c" and "detached_fork h al s = (t, Inr hs)"
    and "2 \<le> length al" and "nm \<noteq> []"
  shows "\<exists>u h' c'. merge (map snd hs) nm t = (u, Inr h') \<and> cell_for_handle u h' = Inr c' \<and>
    cell_label c' = cell_label c \<and> unspent c' = unspent c \<and> receipt_refs c' = receipt_refs c"
proof -
  note inv = reachable_inv [OF assms(1)]
  obtain c0 where c0: "fork_allowed s h al c0" "forked c0 al s = (t, hs)" by (rule detached_fork_Inr [OF inv assms(3)])
  then have eq: "c0 = c" using assms(2) by (simp add: fork_allowed_def)
  have al: "\<forall>(a, n)\<in>set al. 0 < n" "(\<Sum>(_, n)\<leftarrow>al. n) = int (card (unspent c))"
    using c0(1) eq by (auto simp: fork_allowed_def)
  note f = c0(2) [unfolded eq]
  note cell = cell_for_handle_ok [OF redemption_invD(1) [OF inv] assms(2)]
  note fen = fence_inv [OF redemption_invD(1) [OF inv] cell(1)]
  have tinv: "redemption_inv t" by (rule forked_inv(1) [OF inv assms(2) al f])
  have "cell_label c \<in> fst ` set (minted_rights (put_cell (fence c) s))" using cell(5) by simp
  from fork_children_cells [OF f [unfolded forked_def] fen(1) this forked_total [OF al]]
  obtain cs where cs: "map_r (cell_for_handle t) (map snd hs) = Inr cs" "length cs = length al"
    "(\<Union>d\<in>set cs. unspent d) = unspent c" "\<forall>d\<in>set cs. cell_label d = cell_label c \<and> receipt_refs d = receipt_refs c"
    "map (handle_cell \<circ> snd) hs = map cell_name [next_cell s..<next_cell s + length al]"
    using cell(3) by auto
  have ids: "map handle_cell (map snd hs) = map cell_name [next_cell s..<next_cell s + length al]" using cs(5) by simp
  have dist: "distinct (map handle_cell (map snd hs))" unfolding ids by (simp add: distinct_map inj_on_def)
  have len: "length hs = length al" using arg_cong [OF ids, of length] by simp
  note mc = merge_cells [OF redemption_invD(1) [OF tinv] cs(1) dist]
  have "rtickets t = rtickets s"
    using fork_children_tickets [of c _ _ "put_cell (fence c) s"] f by (metis forked_def fst_conv put_cell_simps(2))
  then have "\<not> ticketed t (cell_id d)" if "d \<in> set cs" for d
  proof -
    have "cell_id d \<in> set (map handle_cell (map snd hs))" using that mc(1) by (metis imageI set_map)
    then obtain i where "cell_id d = cell_name i" "next_cell s \<le> i" unfolding ids by auto
    then show ?thesis using fresh_not_ticketed [OF inv] \<open>rtickets t = rtickets s\<close> by (simp add: ticketed_def)
  qed
  then have ok: "merge_allowed t (map snd hs) nm cs (cell_label c)"
    using cs(1,4) dist len assms(4,5) by (simp add: merge_allowed_def)
  have ne: "cs \<noteq> []" using cs(2) assms(4) by auto
  show ?thesis
    using merge_ok(1) [OF tinv ok] cs(3,4) ne
    by (auto simp: merged_def add_cell_def cell_for_handle_iff put_cell_def AList.update_conv' fence_all_next)
qed

section \<open>Retired handles and copied cells\<close>

lemma replace_restore_Inr:
  assumes "redemption_inv s" and "replace_restore h nm s = (t, Inr h')"
  obtains c where "cell_for_handle s h = Inr c" "t = put_cell (c\<lparr>cell_epoch := cell_epoch c + 1\<rparr>) s"
proof -
  have "cell_for_handle s h \<noteq> Inl err" for err
    using assms(2) by (auto simp: replace_restore_def require_name_def store_def split: if_splits)
  then obtain c where c: "cell_for_handle s h = Inr c" by (cases "cell_for_handle s h") auto
  have "nm \<noteq> []" using assms(2) by (auto simp: replace_restore_def require_name_def store_def)
  then show thesis using that [OF c] replace_restore_eq [OF assms(1) c] assms(2) by simp
qed

text \<open>The step that restores, forks or merges away the cell of a handle.\<close>

fun retires :: "rhandle \<Rightarrow> revent \<Rightarrow> bool" where
  "retires h (RRestore h' _ (Inr _)) = (h' = h)"
| "retires h (RFork h' _ (Inr _)) = (h' = h)"
| "retires h (RMerge hs _ (Inr _)) = (h \<in> set hs)"
| "retires h _ = False"

lemma retired_stale:
  assumes "redemption_inv s" and "rstep s ev t" and "retires h ev"
  shows "(handle_cell h, handle_epoch h) \<in> stale_refs t"
proof -
  note inv = redemption_invD(1) [OF assms(1)]
  have id: "handle_cell h = cell_id c" "handle_epoch h = cell_epoch c" if "cell_for_handle s h = Inr c" for c
    using cell_for_handle_ok(2) [OF inv that] that by (simp_all add: cell_for_handle_iff)
  from assms(3) show ?thesis
  proof (cases "(h, ev)" rule: retires.cases)
    case (1 _ h' nm h'')
    then have "replace_restore h nm s = (t, Inr h'')" using assms(2,3) by (simp add: rstep_simps)
    then obtain c where "cell_for_handle s h = Inr c" "t = put_cell (c\<lparr>cell_epoch := cell_epoch c + 1\<rparr>) s"
      by (rule replace_restore_Inr [OF assms(1)])
    then show ?thesis using stale_restored [OF _ inv] id by auto
  next
    case (2 _ h' al hs)
    then have "detached_fork h al s = (t, Inr hs)" using assms(2,3) by (simp add: rstep_simps)
    then obtain c where "fork_allowed s h al c" and f: "forked c al s = (t, hs)" by (rule detached_fork_Inr [OF assms(1)])
    then have "cell_for_handle s h = Inr c" by (simp add: fork_allowed_def)
    then show ?thesis using stale_forked [OF assms(1) _ f] id by simp
  next
    case (3 _ hs nm h'')
    then have m: "merge hs nm s = (t, Inr h'')" and h: "h \<in> set hs" using assms(2,3) by (simp_all add: rstep_simps)
    obtain cs l where cs: "merge_allowed s hs nm cs l" "t = merged cs l s" by (rule merge_Inr [OF assms(1) m])
    then have "map_r (cell_for_handle s) hs = Inr cs" by (simp add: merge_allowed_def)
    then obtain c where "c \<in> set cs" "cell_for_handle s h = Inr c" using h by (metis in_set_conv_nth map_r_Inr)
    then show ?thesis using stale_merged [OF assms(1) cs(1)] cs(2) id by auto
  qed auto
qed

text \<open>
  C33. A handle whose cell was restored, forked away or merged away is dead for good, and so is
  every copy of it and every older handle of the cell: whatever happens later, a well-formed
  Prepare through it is answered with a refusal and changes nothing.
\<close>

theorem retired_handles_stay_dead:
  assumes "run rstep empty_runtime es s" and "rstep s ev t" and "retires h ev" and "run rstep t es' u"
    and "handle_cell h' = handle_cell h" and "handle_epoch h' \<le> handle_epoch h" and "e \<noteq> []" and "d \<noteq> []"
  shows "prepare h' e d None u = (u, Inr (mk_decision False False ''stale cell epoch'' e None None))"
proof -
  note inv = reachable_inv [OF assms(1)]
  have "(handle_cell h, handle_epoch h) \<in> stale_refs u"
    using epochs.run_grows [OF assms(4) rstep_inv [OF assms(2) inv]] retired_stale [OF inv assms(2,3)] by blast
  then have "(handle_cell h', handle_epoch h') \<in> stale_refs u" using assms(5,6) by (auto simp: stale_refs_def)
  from stale_refused [OF this] show ?thesis using assms(7,8) by (simp add: prepare_def require_name_def)
qed

text \<open>
  The negative control amplifies. Cloning a private cell that still holds rights, from any
  reachable state, makes the conservation report of its label unsafe, listing exactly the cloned
  rights as owned twice; and restoring through the original or the clone is then rejected.
\<close>

theorem unsafe_clone_amplifies:
  assumes "run rstep empty_runtime es s" and "cell_for_handle s h = Inr c" and "unspent c \<noteq> {}"
    and "unsafe_clone_private_cell h nm s = (t, Inr h')"
  shows "\<not> report_safe (report t (cell_label c)) \<and>
    duplicate_unspent (report t (cell_label c)) = sorted_list_of_set (unspent c) \<and>
    (\<forall>h0\<in>{h, h'}. replace_restore h0 nm t = (t, Inl (LifecycleRejected ''logical authority is already amplified'')))"
proof -
  let ?l = "cell_label c"
  note inv = redemption_invD [OF reachable_inv [OF assms(1)]]
  note cell = cell_for_handle_ok [OF inv(1) assms(2)]
  let ?c = "\<lparr>cell_id = [], cell_label = ?l, cell_epoch = cell_epoch c, cell_open = True,
      unspent = unspent c, receipt_refs = receipt_refs c\<rparr>"
  have nm: "nm \<noteq> []" and t: "t = add_cell ?c s"
    and h': "h' = \<lparr>alias_id = nm, handle_cell = cell_name (next_cell s), handle_epoch = cell_epoch c\<rparr>"
    using assms(2,4) by (auto simp: unsafe_clone_private_cell_def require_name_def store_def new_cell_id_def Let_def
        new_cell_add split: if_splits)
  have tinv: "cells_inv t" and esc: "escrow (cells t) ?l = escrow (cells s) ?l + mset_set (unspent c)"
    using cells_inv_add(1,2) [OF inv(1), of ?c] cell(3,5) t by (simp_all add: escrow_of_def)
  have sub: "mset_set (unspent c) \<subseteq># escrow (cells s) ?l"
    using fence_inv(2) [OF inv(1) cell(1), of ?l] cell(3) by (metis escrow_of_def mset_subset_eq_add_right)
  have one: "count (escrow (cells s) ?l) r \<le> 1" for r
  proof -
    have "report_safe (report s ?l)" using report_safe_iff [OF inv(1)] inv(2) by blast
    then show ?thesis unfolding report_safe_sets [OF inv(1)] by blast
  qed
  have twice: "1 < count (escrow (cells t) ?l) r \<longleftrightarrow> r \<in> unspent c" for r
  proof (cases "r \<in> unspent c")
    case True
    have "1 \<le> count (escrow (cells s) ?l) r" using mset_subset_eq_count [OF sub, of r] True cell(3) by simp
    then show ?thesis using True cell(3) esc by simp
  next
    case False
    then show ?thesis using esc one [of r] cell(3) by simp
  qed
  obtain r where "r \<in> unspent c" using assms(3) by blast
  then have bad: "\<not> report_safe (report t ?l)"
    using twice [of r] unfolding report_safe_sets [OF tinv] by (meson not_less)
  have "unspent_rights t ?l = set_mset (escrow (cells t) ?l)" using unspent_rights_iff [OF tinv] by blast
  then have "duplicate_unspent (report t ?l) =
      filter (\<lambda>r. r \<in> unspent c) (sorted_list_of_set (set_mset (escrow (cells t) ?l)))"
    using twice by (simp add: report_def Let_def card_right_owners [OF tinv])
  also have "\<dots> = sorted_list_of_set (unspent c)"
  proof -
    have "unspent c \<subseteq> set_mset (escrow (cells t) ?l)" using esc cell(3) by auto
    then show ?thesis
      by (intro sorted_distinct_set_unique) (auto simp: cell(3) intro: sorted_wrt_filter)
  qed
  finally have dup: "duplicate_unspent (report t ?l) = sorted_list_of_set (unspent c)" .
  have "\<exists>c0. cell_for_handle t h0 = Inr c0 \<and> cell_label c0 = ?l" if h0: "h0 \<in> {h, h'}" for h0
  proof -
    have "cell_for_handle t h = Inr c" unfolding t by (rule cell_for_handle_add [OF inv(1) assms(2)])
    moreover have "cell_for_handle t h' = Inr (?c\<lparr>cell_id := cell_name (next_cell s)\<rparr>)"
      by (simp add: t h' cell_for_handle_iff add_cell_def put_cell_def AList.update_conv')
    ultimately show ?thesis using h0 by auto
  qed
  then have "replace_restore h0 nm t = (t, Inl (LifecycleRejected ''logical authority is already amplified''))"
    if "h0 \<in> {h, h'}" for h0
    using that nm bad by (fastforce simp: replace_restore_def require_name_def store_def require_conserved_def)
  then show ?thesis using bad dup by blast
qed

end
