(* ===== verification/RedemptionExamples.thy ===== *)
theory RedemptionExamples
  imports RedemptionRuns
begin

text \<open>
  A concrete use of the redemption runtime: two rights minted under one label, one of them
  redeemed and dispatched, and the other operations tried from there. The properties of the runs
  are instantiated on it.
\<close>

definition minted_two :: rstate where
  "minted_two = fst (mint ''L'' 2 ''a'' empty_runtime)"

definition first_handle :: rhandle where
  "first_handle = \<lparr>alias_id = ''a'', handle_cell = ''cell:0'', handle_epoch = 0\<rparr>"

definition prepared_one :: rstate where
  "prepared_one = fst (prepare first_handle ''e'' ''d'' None minted_two)"

definition dispatched_one :: rstate where
  "dispatched_one = fst (dispatch ''e'' prepared_one)"

definition mint_event :: revent where
  "mint_event = RMint ''L'' 2 ''a'' (snd (mint ''L'' 2 ''a'' empty_runtime))"

definition prepare_event :: revent where
  "prepare_event = RPrepare first_handle ''e'' ''d'' None (snd (prepare first_handle ''e'' ''d'' None minted_two))"

definition dispatch_event :: revent where
  "dispatch_event = RDispatch ''e'' (snd (dispatch ''e'' prepared_one))"

lemma example_steps:
  "rstep empty_runtime mint_event minted_two" "rstep minted_two prepare_event prepared_one"
  "rstep prepared_one dispatch_event dispatched_one"
  by (simp_all add: minted_two_def prepared_one_def dispatched_one_def mint_event_def prepare_event_def
      dispatch_event_def rstep_simps)

lemma example_runs:
  "run rstep empty_runtime [mint_event] minted_two"
  "run rstep empty_runtime [mint_event, prepare_event, dispatch_event] dispatched_one"
  using example_steps by (auto simp: run_Cons_iff)

lemma result_of: "is_ok (snd p) \<Longrightarrow> p = (fst p, Inr (projr (snd p)))"
  by (cases p) (auto simp: is_ok_iff)

theorem redemption_conserves_rights_witness:
  "report_safe (report dispatched_one ''L'') \<and> external_sink_effects (report dispatched_one ''L'') = 1 \<and>
   controller_prepare_successes (report dispatched_one ''L'') = 1 \<and> unique_unspent (report dispatched_one ''L'') = 1"
proof -
  have "minted_capacity (report dispatched_one ''L'') = 2" "external_sink_effects (report dispatched_one ''L'') = 1"
    "controller_prepare_successes (report dispatched_one ''L'') = 1" by code_simp+
  then show ?thesis using redemption_conserves_rights [OF example_runs(2), of "''L''"] by simp
qed

theorem redemption_effects_once_witness:
  "keys_of dispatched_key [mint_event, prepare_event, dispatch_event] = [''e''] \<and>
   set (keys_of dispatched_key [mint_event, prepare_event, dispatch_event]) \<subseteq>
   set (keys_of prepared_key [mint_event, prepare_event, dispatch_event])"
proof -
  have "keys_of dispatched_key [mint_event, prepare_event, dispatch_event] = [''e'']" by code_simp
  then show ?thesis using redemption_effects_once [OF example_runs(2)] by blast
qed

theorem prepare_crash_recovery_witness:
  "prepare first_handle ''e'' ''d'' (Some ''before_commit'') minted_two =
     (minted_two, Inl (InjectedPrepareCrash ''before'')) \<and>
   fst (prepare first_handle ''e'' ''d'' (Some ''after_commit'') prepared_one) = prepared_one"
proof -
  have ok: "is_ok (snd (prepare first_handle ''e'' ''d'' None minted_two))"
    and lin: "linearized (projr (snd (prepare first_handle ''e'' ''d'' None minted_two)))" by code_simp+
  from prepare_crash_recovery [OF example_runs(1) result_of [OF ok] lin, of "Some ''after_commit''"]
  show ?thesis by (simp add: prepared_one_def)
qed

theorem forks_and_merges_decided_witness:
  "is_ok (snd (detached_fork first_handle [(''x'', 1), (''y'', 1)] minted_two)) \<and>
   (\<exists>c. fork_allowed minted_two first_handle [(''x'', 1), (''y'', 1)] c)"
proof -
  have "is_ok (snd (detached_fork first_handle [(''x'', 1), (''y'', 1)] minted_two))" by code_simp
  then show ?thesis using forks_and_merges_decided [OF example_runs(1)] by blast
qed

theorem fork_then_merge_witness:
  "\<exists>t hs u h' c'. detached_fork first_handle [(''x'', 1), (''y'', 1)] minted_two = (t, Inr hs) \<and>
     merge (map snd hs) ''z'' t = (u, Inr h') \<and> cell_for_handle u h' = Inr c' \<and>
     unspent c' = {''L:right:0'', ''L:right:1''}"
proof -
  have ok: "is_ok (snd (detached_fork first_handle [(''x'', 1), (''y'', 1)] minted_two))" by code_simp
  have cell: "cell_for_handle minted_two first_handle = Inr \<lparr>cell_id = ''cell:0'', cell_label = ''L'',
      cell_epoch = 0, cell_open = True, unspent = {''L:right:0'', ''L:right:1''}, receipt_refs = {}\<rparr>" by code_simp
  show ?thesis
    using fork_then_merge [OF example_runs(1) cell result_of [OF ok], of "''z''"] result_of [OF ok] by fastforce
qed

theorem retired_handles_stay_dead_witness:
  "prepare first_handle ''f'' ''d'' None (fst (replace_restore first_handle ''b'' minted_two)) =
     (fst (replace_restore first_handle ''b'' minted_two),
      Inr (mk_decision False False ''stale cell epoch'' ''f'' None None))"
proof -
  let ?r = "replace_restore first_handle ''b'' minted_two"
  have ok: "is_ok (snd ?r)" by code_simp
  then obtain h where h: "snd ?r = Inr h" by (auto simp: is_ok_iff)
  have step: "rstep minted_two (RRestore first_handle ''b'' (snd ?r)) (fst ?r)" by (simp add: rstep_simps)
  have ret: "retires first_handle (RRestore first_handle ''b'' (snd ?r))" by (simp add: h)
  show ?thesis
    using retired_handles_stay_dead [OF example_runs(1) step ret run_Nil, of first_handle "''f''" "''d''"] by simp
qed

theorem unsafe_clone_amplifies_witness:
  "\<exists>t h'. unsafe_clone_private_cell first_handle ''b'' minted_two = (t, Inr h') \<and> \<not> report_safe (report t ''L'') \<and>
     duplicate_unspent (report t ''L'') = [''L:right:0'', ''L:right:1'']"
proof -
  have ok: "is_ok (snd (unsafe_clone_private_cell first_handle ''b'' minted_two))" by code_simp
  have cell: "cell_for_handle minted_two first_handle = Inr \<lparr>cell_id = ''cell:0'', cell_label = ''L'',
      cell_epoch = 0, cell_open = True, unspent = {''L:right:0'', ''L:right:1''}, receipt_refs = {}\<rparr>" by code_simp
  have sorted: "sorted_list_of_set {''L:right:0'', ''L:right:1''} = [''L:right:0'', ''L:right:1'']" by code_simp
  show ?thesis
    using unsafe_clone_amplifies [OF example_runs(1) cell _ result_of [OF ok]] result_of [OF ok] sorted by fastforce
qed

end
