(* ===== verification/Pomsets.thy ===== *)
theory Pomsets
  imports Machines
begin

text \<open>
  The causal contracts of \<open>artifact/exact_history_realization.py\<close>: occurrences, finite partial
  orders of occurrences (pomsets) and their linearizations, families of pomsets (contracts) and
  their product operations. A dataclass with a \<open>__post_init__\<close> is a type with a constructor
  function that raises what the validation raises. Where the code iterates over a set, the model
  takes its elements in increasing order; the results do not depend on the order.
\<close>

section \<open>Occurrences and pomsets\<close>

definition max_outcomes :: int where "max_outcomes = 128"
definition max_occurrences_per_outcome :: int where "max_occurrences_per_outcome = 8"
definition max_linearizations :: int where "max_linearizations = 50000"
definition max_safe_executions :: int where "max_safe_executions = 100000"

datatype occurrence = Occurrence (logical_id: string) (occ_cell: string)

text \<open>\<open>order=True\<close>: the field-wise order of the dataclass.\<close>

instantiation occurrence :: linorder
begin

definition less_eq_occurrence :: "occurrence \<Rightarrow> occurrence \<Rightarrow> bool" where
  "less_eq_occurrence a b = ((logical_id a, occ_cell a) \<le> (logical_id b, occ_cell b))"

definition less_occurrence :: "occurrence \<Rightarrow> occurrence \<Rightarrow> bool" where
  "less_occurrence a b = ((logical_id a, occ_cell a) < (logical_id b, occ_cell b))"

instance
proof
  fix x y z :: occurrence
  show "x < y \<longleftrightarrow> x \<le> y \<and> \<not> y \<le> x"
    unfolding less_occurrence_def less_eq_occurrence_def by (rule less_le_not_le)
  show "x \<le> x" unfolding less_eq_occurrence_def by simp
  show "x \<le> z" if "x \<le> y" "y \<le> z" using that unfolding less_eq_occurrence_def by (rule order_trans)
  show "x = y" if "x \<le> y" "y \<le> x"
    using that unfolding less_eq_occurrence_def by (intro occurrence.expand) (auto dest: antisym)
  show "x \<le> y \<or> y \<le> x" unfolding less_eq_occurrence_def by (rule linear)
qed

end

definition mk_occurrence :: "string \<Rightarrow> string \<Rightarrow> occurrence result" where
  "mk_occurrence i c =
     (if i = [] \<or> c = [] then Inl (ModelError ''occurrence identifiers and cells must be nonempty'')
      else Inr (Occurrence i c))"

record pomset =
  nodes :: "occurrence list"
  porder :: "(string \<times> string) set"

definition ids :: "pomset \<Rightarrow> string list" where
  "ids p = map logical_id (nodes p)"

section \<open>The topological search\<close>

text \<open>
  The dictionary \<open>predecessors\<close> is kept as the list of the edges not yet removed from it;
  \<open>predecessors[s].remove(n)\<close> removes one edge and raises when it is missing. The list
  \<open>ready\<close> is a stack, its top first.
\<close>

definition preds_of :: "('a \<times> 'a) list \<Rightarrow> 'a \<Rightarrow> 'a set" where
  "preds_of es v = fst ` set (filter (\<lambda>(_, b). b = v) es)"

definition succs_of :: "('a \<times> 'a) list \<Rightarrow> 'a \<Rightarrow> 'a list" where
  "succs_of es v = map snd (filter (\<lambda>(a, _). a = v) es)"

fun relax :: "'a \<Rightarrow> 'a list \<Rightarrow> ('a \<times> 'a) list \<Rightarrow> 'a list \<Rightarrow> (('a \<times> 'a) list \<times> 'a list) result" where
  "relax n [] es ready = Inr (es, ready)"
| "relax n (s # ss) es ready =
     (if (n, s) \<notin> set es then Inl (KeyError [])
      else let es' = removeAll (n, s) es in
        relax n ss es' (if preds_of es' s = {} then s # ready else ready))"

lemma relax_measure:
  "relax n ss es ready = Inr (es', ready') \<Longrightarrow> 2 * length es' + length ready' \<le> 2 * length es + length ready"
proof (induction n ss es ready rule: relax.induct)
  case (2 n s ss es ready)
  let ?es = "removeAll (n, s) es"
  from 2(2) have mem: "(n, s) \<in> set es"
    and rest: "relax n ss ?es (if preds_of ?es s = {} then s # ready else ready) = Inr (es', ready')"
    by (simp_all add: Let_def split: if_splits)
  have "2 * length es' + length ready' \<le> 2 * length ?es + length (if preds_of ?es s = {} then s # ready else ready)"
    using 2(1) [OF _ refl rest] mem by simp
  also have "\<dots> \<le> 2 * length es + length ready"
    using length_removeAll_less [OF mem] by (auto split: if_splits)
  finally show ?case .
qed simp

function topo :: "('a \<times> 'a) list \<Rightarrow> ('a \<times> 'a) list \<Rightarrow> 'a list \<Rightarrow> nat \<Rightarrow> nat result" where
  "topo succs es [] visited = Inr visited"
| "topo succs es (n # ready) visited =
     (case relax n (succs_of succs n) es ready of
        Inl e \<Rightarrow> Inl e
      | Inr p \<Rightarrow> topo succs (fst p) (snd p) (visited + 1))"
  by pat_completeness auto
termination
proof (relation "measure (\<lambda>(_, es, ready, _). 2 * length es + length ready)")
  fix succs es :: "('a \<times> 'a) list" and n ready visited p
  assume "relax n (succs_of succs n) es ready = Inr p"
  then show "((succs, fst p, snd p, visited + 1), (succs, es, n # ready, visited))
      \<in> measure (\<lambda>(_, es, ready, _). 2 * length es + length ready)"
    using relax_measure [of n _ es ready "fst p" "snd p"] by fastforce
qed simp

definition is_acyclic :: "'a :: linorder set \<Rightarrow> ('a \<times> 'a) set \<Rightarrow> bool result" where
  "is_acyclic ns es =
     (let edges = sorted_list_of_set es;
          ready = rev (filter (\<lambda>n. preds_of edges n = {}) (sorted_list_of_set ns)) in
      bind_r (topo edges edges ready 0) (\<lambda>visited. Inr (visited = card ns)))"

definition check_edge :: "string set \<Rightarrow> string \<times> string \<Rightarrow> unit result" where
  "check_edge known e =
     (if fst e = snd e then Inl (ModelError ''pomset order must be irreflexive'')
      else if fst e \<notin> known \<or> snd e \<notin> known
      then Inl (ModelError ''pomset order references an unknown occurrence'')
      else Inr ())"

definition mk_pomset :: "occurrence list \<Rightarrow> (string \<times> string) set \<Rightarrow> pomset result" where
  "mk_pomset ns es =
     (let known = set (map logical_id ns) in
      if int (length ns) > max_occurrences_per_outcome then Inl (ModelError ''pomset exceeds the occurrence cap'')
      else if \<not> distinct (map logical_id ns) then Inl (ModelError ''logical occurrence identifiers must be unique'')
      else bind_r (each_r (check_edge known) (sorted_list_of_set es)) (\<lambda>_.
      bind_r (is_acyclic known es) (\<lambda>b.
      if \<not> b then Inl (ModelError ''pomset order must be acyclic'')
      else Inr \<lparr>nodes = ns, porder = es\<rparr>)))"

section \<open>The search decides acyclicity\<close>

lemma preds_of_iff: "u \<in> preds_of es v \<longleftrightarrow> (u, v) \<in> set es"
  by (force simp: preds_of_def)

lemma set_succs_of: "set (succs_of es v) = {s. (v, s) \<in> set es}"
  by (force simp: succs_of_def)

lemma distinct_succs_of: "distinct es \<Longrightarrow> distinct (succs_of es v)"
  unfolding succs_of_def by (induction es) (auto simp: image_iff)

lemma relax_eq:
  assumes "distinct ss" and "\<forall>s\<in>set ss. (n, s) \<in> set es"
  shows "\<exists>es'. relax n ss es ready = Inr (es', rev (filter (\<lambda>s. preds_of es s \<subseteq> {n}) ss) @ ready) \<and>
    set es' = set es - {n} \<times> set ss"
  using assms
proof (induction ss arbitrary: es ready)
  case (Cons s ss)
  let ?es = "removeAll (n, s) es"
  have mem: "(n, s) \<in> set es" and rest: "distinct ss" "\<forall>s'\<in>set ss. (n, s') \<in> set ?es" "s \<notin> set ss"
    using Cons.prems by auto
  have now: "preds_of ?es s = {} \<longleftrightarrow> preds_of es s \<subseteq> {n}" by (auto simp: preds_of_iff set_eq_iff)
  have later: "preds_of ?es s' = preds_of es s'" if "s' \<in> set ss" for s'
  proof -
    have "s' \<noteq> s" using that rest(3) by blast
    then show ?thesis by (auto simp: preds_of_iff set_eq_iff)
  qed
  then have filt: "filter (\<lambda>s. preds_of ?es s \<subseteq> {n}) ss = filter (\<lambda>s. preds_of es s \<subseteq> {n}) ss"
    by (simp cong: filter_cong)
  obtain es' where "relax n ss ?es (if preds_of ?es s = {} then s # ready else ready) =
      Inr (es', rev (filter (\<lambda>s. preds_of ?es s \<subseteq> {n}) ss) @ (if preds_of ?es s = {} then s # ready else ready))"
    and es': "set es' = set ?es - {n} \<times> set ss"
    using Cons.IH [OF rest(1,2), of "if preds_of ?es s = {} then s # ready else ready"] by blast
  then have "relax n (s # ss) es ready = Inr (es', rev (filter (\<lambda>s. preds_of es s \<subseteq> {n}) (s # ss)) @ ready)"
    using mem unfolding filt now by (simp add: Let_def now)
  moreover have "set es' = set es - {n} \<times> set (s # ss)" unfolding es' by auto
  ultimately show ?case by blast
qed simp

text \<open>
  The state of the search over the nodes \<open>N\<close> and the edges \<open>E\<close>: the nodes visited so far come
  after all their predecessors, the remaining edges start at unvisited nodes, and the ready nodes
  are the unvisited ones whose predecessors are all visited.
\<close>

definition topo_inv :: "'a set \<Rightarrow> ('a \<times> 'a) list \<Rightarrow> 'a list \<Rightarrow> ('a \<times> 'a) list \<Rightarrow> 'a list \<Rightarrow> bool" where
  "topo_inv N E vs es ready \<longleftrightarrow> distinct (vs @ ready) \<and> set es = {(a, b). (a, b) \<in> set E \<and> a \<notin> set vs} \<and>
     set vs \<union> set ready = {v \<in> N. \<forall>u. (u, v) \<in> set E \<longrightarrow> u \<in> set vs} \<and>
     (\<forall>i<length vs. \<forall>u. (u, vs ! i) \<in> set E \<longrightarrow> u \<in> set (take i vs))"

lemma topo_inv_step:
  assumes "topo_inv N E vs es (n # ready)" and "distinct E" and "set E \<subseteq> N \<times> N"
  shows "\<exists>es' ready'. relax n (succs_of E n) es ready = Inr (es', ready') \<and> topo_inv N E (vs @ [n]) es' ready'"
proof -
  from assms(1) have dist: "distinct (vs @ n # ready)" and es: "set es = {(a, b). (a, b) \<in> set E \<and> a \<notin> set vs}"
    and reach: "set vs \<union> set (n # ready) = {v \<in> N. \<forall>u. (u, v) \<in> set E \<longrightarrow> u \<in> set vs}"
    and ord: "\<forall>i<length vs. \<forall>u. (u, vs ! i) \<in> set E \<longrightarrow> u \<in> set (take i vs)"
    unfolding topo_inv_def by blast+
  let ?ss = "succs_of E n" and ?new = "filter (\<lambda>s. preds_of es s \<subseteq> {n}) (succs_of E n)"
  have n: "n \<notin> set vs" using dist by simp
  have "\<forall>s\<in>set ?ss. (n, s) \<in> set es" using n by (simp add: set_succs_of es)
  from relax_eq [OF distinct_succs_of [OF assms(2)] this, of ready] obtain es' where
    r: "relax n ?ss es ready = Inr (es', rev ?new @ ready)" and es': "set es' = set es - {n} \<times> set ?ss" by blast
  have npred: "\<forall>u. (u, n) \<in> set E \<longrightarrow> u \<in> set vs" using reach by auto
  have new: "s \<in> set ?new \<longleftrightarrow> (n, s) \<in> set E \<and> (\<forall>u. (u, s) \<in> set E \<longrightarrow> u \<in> set vs \<or> u = n)" for s
    by (auto simp: set_succs_of preds_of_iff es subset_iff)
  have fresh: "s \<notin> set vs \<and> s \<notin> set (n # ready)" if s: "s \<in> set ?new" for s
  proof -
    have "(n, s) \<in> set E" using s new by blast
    then have "s \<notin> {v \<in> N. \<forall>u. (u, v) \<in> set E \<longrightarrow> u \<in> set vs}" using n by blast
    then show ?thesis unfolding reach [symmetric] by blast
  qed
  have d: "distinct ((vs @ [n]) @ rev ?new @ ready)"
    using dist fresh distinct_succs_of [OF assms(2), of n] by (auto simp del: filter.simps)
  have e: "set es' = {(a, b). (a, b) \<in> set E \<and> a \<notin> set (vs @ [n])}"
    unfolding es' es by (auto simp: set_succs_of)
  have q: "set (vs @ [n]) \<union> set (rev ?new @ ready) = {v \<in> N. \<forall>u. (u, v) \<in> set E \<longrightarrow> u \<in> set (vs @ [n])}" (is "?l = ?r")
  proof
    show "?l \<subseteq> ?r"
    proof
      fix v assume "v \<in> ?l"
      then have "v \<in> set vs \<union> set (n # ready) \<or> v \<in> set ?new" by auto
      then show "v \<in> ?r"
      proof
        assume "v \<in> set ?new"
        then show ?thesis using new [of v] assms(3) by auto
      qed (use reach in auto)
    qed
    show "?r \<subseteq> ?l"
    proof
      fix v assume v: "v \<in> ?r"
      show "v \<in> ?l"
      proof (cases "(n, v) \<in> set E")
        case True
        then have "v \<in> set ?new" using v new [of v] by auto
        then show ?thesis by (simp del: filter_set set_filter)
      next
        case False
        then have "v \<in> {v \<in> N. \<forall>u. (u, v) \<in> set E \<longrightarrow> u \<in> set vs}" using v by auto
        then show ?thesis unfolding reach [symmetric] by auto
      qed
    qed
  qed
  have o: "\<forall>i<length (vs @ [n]). \<forall>u. (u, (vs @ [n]) ! i) \<in> set E \<longrightarrow> u \<in> set (take i (vs @ [n]))"
    using ord npred by (auto simp: nth_append less_Suc_eq)
  have "topo_inv N E (vs @ [n]) es' (rev ?new @ ready)"
    unfolding topo_inv_def using d e q o by blast
  then show ?thesis using r by blast
qed

lemma topo_total:
  assumes "topo_inv N E vs es ready" and "distinct E" and "set E \<subseteq> N \<times> N"
  shows "\<exists>vs' es'. topo E es ready (length vs) = Inr (length vs') \<and> topo_inv N E vs' es' []"
  using assms
proof (induction E es ready "length vs" arbitrary: vs rule: topo.induct)
  case (1 E es)
  then show ?case by auto
next
  case (2 E es n ready)
  obtain es' ready' where r: "relax n (succs_of E n) es ready = Inr (es', ready')"
    and inv: "topo_inv N E (vs @ [n]) es' ready'"
    using topo_inv_step [OF 2(2-4)] by blast
  have "\<exists>vs' es''. topo E es' ready' (length (vs @ [n])) = Inr (length vs') \<and> topo_inv N E vs' es'' []"
    using 2(1) [OF r, of "vs @ [n]"] 2(3,4) inv by simp
  then show ?case using r by simp
qed

lemma topo_inv_start:
  assumes "finite N"
  shows "topo_inv N E [] E (rev (filter (\<lambda>n. preds_of E n = {}) (sorted_list_of_set N :: 'a :: linorder list)))"
  using assms unfolding topo_inv_def by (auto simp: preds_of_iff set_eq_iff)

lemma topo_inv_end:
  assumes "topo_inv N E vs es []" and "finite N" and "set E \<subseteq> N \<times> N"
  shows "length vs = card N \<longleftrightarrow> acyclic (set E)"
proof -
  from assms(1) have dist: "distinct vs" and reach: "set vs = {v \<in> N. \<forall>u. (u, v) \<in> set E \<longrightarrow> u \<in> set vs}"
    and ord: "\<forall>i<length vs. \<forall>u. (u, vs ! i) \<in> set E \<longrightarrow> u \<in> set (take i vs)"
    unfolding topo_inv_def by auto
  have sub: "set vs \<subseteq> N" using reach by blast
  have "length vs = card (set vs)" using dist by (simp add: distinct_card)
  then have "length vs = card N \<longleftrightarrow> set vs = N" using sub assms(2) by (metis card_subset_eq)
  also have "\<dots> \<longleftrightarrow> acyclic (set E)"
  proof
    assume all: "set vs = N"
    have the: "(THE i. i < length vs \<and> vs ! i = v) = j" if "j < length vs" "vs ! j = v" for v j
      using that dist by (intro the_equality) (auto simp: nth_eq_iff_index_eq)
    show "acyclic (set E)"
    proof (rule acyclicI_order [where f = "\<lambda>v. - int (THE i. i < length vs \<and> vs ! i = v)"])
      fix a b assume ab: "(a, b) \<in> set E"
      then obtain j where j: "j < length vs" "vs ! j = b" using assms(3) all by (metis SigmaE2 in_set_conv_nth subsetD)
      then have "a \<in> set (take j vs)" using ord ab by blast
      then obtain i where i: "i < j" "vs ! i = a" using j(1) by (auto simp: in_set_conv_nth)
      then have "i < length vs" using j(1) by simp
      then show "- int (THE i. i < length vs \<and> vs ! i = b) < - int (THE i. i < length vs \<and> vs ! i = a)"
        using the [OF _ i(2)] the [OF j] i(1) by simp
    qed
  next
    assume ac: "acyclic (set E)"
    show "set vs = N"
    proof (rule ccontr)
      assume "set vs \<noteq> N"
      then obtain x where x: "x \<in> N - set vs" using sub by blast
      have "wf (set E)" using ac by (intro finite_acyclic_wf) simp_all
      then obtain m where m: "m \<in> N - set vs" "\<And>u. (u, m) \<in> set E \<Longrightarrow> u \<notin> N - set vs"
        using wfE_min [OF _ x] by metis
      then have "\<forall>u. (u, m) \<in> set E \<longrightarrow> u \<in> set vs" using assms(3) by blast
      then show False using m(1) reach by blast
    qed
  qed
  finally show ?thesis .
qed

lemma is_acyclic_total:
  assumes "finite N" and "E \<subseteq> N \<times> N"
  shows "is_acyclic N E = Inr (acyclic E)"
proof -
  have fin: "finite E" using assms by (meson finite_SigmaI finite_subset)
  let ?E = "sorted_list_of_set E"
  have E: "set ?E = E" "distinct ?E" using fin by simp_all
  have sub: "set ?E \<subseteq> N \<times> N" using assms(2) E(1) by simp
  obtain vs es where "topo ?E ?E (rev (filter (\<lambda>n. preds_of ?E n = {}) (sorted_list_of_set N))) 0 = Inr (length vs)"
    and inv: "topo_inv N ?E vs es []"
    using topo_total [OF topo_inv_start [OF assms(1), of ?E] E(2) sub] unfolding list.size(3) by blast
  then show ?thesis
    using topo_inv_end [OF inv assms(1) sub] E(1) by (simp add: is_acyclic_def Let_def)
qed

text \<open>
  The topological search returns without a missing key, and it answers whether the edges are
  acyclic, for every finite set of edges between the given nodes, self loops included.
\<close>

theorem is_acyclic_decides:
  assumes "finite N" and "E \<subseteq> N \<times> N"
  shows "is_acyclic N E = Inr (acyclic E)"
  using assms by (rule is_acyclic_total)

section \<open>Linearizations\<close>

lemma fold_r_cong [fundef_cong]:
  assumes "a = b" and "xs = ys" and "\<And>acc x. x \<in> set ys \<Longrightarrow> f acc x = g acc x"
  shows "fold_r f a xs = fold_r g b ys"
proof -
  have "fold_r f c ys = fold_r g c ys" if "\<And>acc x. x \<in> set ys \<Longrightarrow> f acc x = g acc x" for c
    using that
  proof (induction ys arbitrary: c)
    case (Cons y ys)
    then have "f c y = g c y" "\<And>d. fold_r f d ys = fold_r g d ys" by simp_all
    then show ?case by simp
  qed simp
  then show ?thesis using assms by simp
qed

text \<open>The remaining occurrences of \<open>visit\<close> are kept in increasing order.\<close>

definition enabled :: "(string \<times> string) set \<Rightarrow> string list \<Rightarrow> string list" where
  "enabled E remaining = filter (\<lambda>n. \<forall>b\<in>set remaining. (b, n) \<notin> E) remaining"

function visit :: "(string \<times> string) set \<Rightarrow> string list \<Rightarrow> string list \<Rightarrow> string list list \<Rightarrow> string list list result" where
  "visit E prefix remaining answers =
     (if remaining = [] then
        (let answers' = answers @ [prefix] in
         if int (length answers') > max_linearizations then Inl (ModelError ''linearizations exceed the cap'')
         else Inr answers')
      else fold_r (\<lambda>acc n. visit E (prefix @ [n]) (filter (\<lambda>m. m \<noteq> n) remaining) acc) answers
             (enabled E remaining))"
  by pat_completeness auto
termination
proof (relation "measure (\<lambda>(_, _, remaining, _). length remaining)")
  fix E prefix remaining answers acc n
  assume "n \<in> set (enabled E remaining)"
  then have "n \<in> set remaining" by (simp add: enabled_def)
  then show "((E, prefix @ [n], filter (\<lambda>m. m \<noteq> n) remaining, acc), (E, prefix, remaining, answers))
      \<in> measure (\<lambda>(_, _, remaining, _). length remaining)"
    by (simp add: length_filter_less)
qed simp

declare visit.simps [simp del]

definition linearizations :: "pomset \<Rightarrow> string list list result" where
  "linearizations p = visit (porder p) [] (sorted_list_of_set (set (ids p))) []"

text \<open>The same enumeration without the accumulator and the cap.\<close>

function lins :: "(string \<times> string) set \<Rightarrow> string list \<Rightarrow> string list list" where
  "lins E remaining =
     (if remaining = [] then [[]]
      else concat (map (\<lambda>n. map ((#) n) (lins E (filter (\<lambda>m. m \<noteq> n) remaining))) (enabled E remaining)))"
  by pat_completeness auto
termination
  by (relation "measure (\<lambda>(_, remaining). length remaining)") (auto simp: enabled_def length_filter_less)

declare lins.simps [simp del]

lemma lins_Nil [simp]: "lins E [] = [[]]"
  by (simp add: lins.simps)

lemma lins_step:
  "remaining \<noteq> [] \<Longrightarrow> lins E remaining =
     concat (map (\<lambda>n. map ((#) n) (lins E (filter (\<lambda>m. m \<noteq> n) remaining))) (enabled E remaining))"
  by (simp add: lins.simps)

lemma visit_fold:
  assumes "\<And>n ans. n \<in> set ns \<Longrightarrow> int (length ans + length (g n)) \<le> m \<Longrightarrow> f ans n = Inr (ans @ map h (g n))"
    and "int (length ans + length (concat (map g ns))) \<le> m"
  shows "fold_r f ans ns = Inr (ans @ map h (concat (map g ns)))"
  using assms
proof (induction ns arbitrary: ans)
  case (Cons n ns)
  have "f ans n = Inr (ans @ map h (g n))" using Cons.prems(2) by (intro Cons.prems(1)) auto
  moreover have "fold_r f (ans @ map h (g n)) ns = Inr ((ans @ map h (g n)) @ map h (concat (map g ns)))"
    using Cons.prems by (intro Cons.IH) auto
  ultimately show ?case by simp
qed simp

lemma visit_lins:
  "int (length ans + length (lins E remaining)) \<le> max_linearizations \<Longrightarrow>
   visit E pre remaining ans = Inr (ans @ map ((@) pre) (lins E remaining))"
proof (induction "length remaining" arbitrary: pre remaining ans rule: less_induct)
  case less
  show ?case
  proof (cases "remaining = []")
    case True
    then show ?thesis using less.prems by (simp add: visit.simps)
  next
    case False
    let ?g = "\<lambda>n. map ((#) n) (lins E (filter (\<lambda>m. m \<noteq> n) remaining))"
    have "visit E (pre @ [n]) (filter (\<lambda>m. m \<noteq> n) remaining) acc = Inr (acc @ map ((@) pre) (?g n))"
      if n: "n \<in> set (enabled E remaining)" and le: "int (length acc + length (?g n)) \<le> max_linearizations" for n acc
    proof -
      have "n \<in> set remaining" using n by (simp add: enabled_def)
      then have "length (filter (\<lambda>m. m \<noteq> n) remaining) < length remaining" by (simp add: length_filter_less)
      from less.hyps [OF this, of acc "pre @ [n]"] le show ?thesis by (simp add: comp_def)
    qed
    then show ?thesis
      using visit_fold [of "enabled E remaining" ?g max_linearizations _ "(@) pre" ans] less.prems False
      by (simp add: visit.simps [of E pre] lins_step)
  qed
qed

lemma length_filter_out:
  assumes "distinct xs" and "x \<in> set xs"
  shows "length xs = Suc (length (filter (\<lambda>y. y \<noteq> x) xs))"
  using arg_cong [OF mset_filter_out [OF assms], of size] by (simp only: size_mset size_add_mset)

lemma length_lins: "distinct remaining \<Longrightarrow> length (lins E remaining) \<le> fact (length remaining)"
proof (induction "length remaining" arbitrary: remaining)
  case (Suc k)
  have each: "length (lins E (filter (\<lambda>m. m \<noteq> n) remaining)) \<le> fact k" if n: "n \<in> set remaining" for n
  proof -
    have "k = length (filter (\<lambda>m. m \<noteq> n) remaining)" using length_filter_out [OF Suc.prems n] Suc.hyps(2) by simp
    then show ?thesis using Suc.hyps(1) [of "filter (\<lambda>m. m \<noteq> n) remaining"] Suc.prems by simp
  qed
  have "remaining \<noteq> []" using Suc.hyps(2) by auto
  then have "length (lins E remaining) = (\<Sum>n\<leftarrow>enabled E remaining. length (lins E (filter (\<lambda>m. m \<noteq> n) remaining)))"
    by (simp add: lins_step length_concat comp_def)
  also have "\<dots> \<le> (\<Sum>n\<leftarrow>enabled E remaining. fact k)"
    by (rule sum_list_mono) (use each in \<open>auto simp: enabled_def\<close>)
  also have "\<dots> = length (enabled E remaining) * fact k" by (simp add: sum_list_triv)
  also have "\<dots> \<le> length remaining * fact k" by (intro mult_right_mono) (simp_all add: enabled_def)
  also have "\<dots> = fact (length remaining)" unfolding Suc.hyps(2) [symmetric] by simp
  finally show ?case .
qed simp

fun obeys :: "('a \<times> 'a) set \<Rightarrow> 'a list \<Rightarrow> bool" where
  "obeys E [] = True"
| "obeys E (x # w) = ((\<forall>y\<in>set (x # w). (y, x) \<notin> E) \<and> obeys E w)"

lemma set_lins:
  "distinct remaining \<Longrightarrow> w \<in> set (lins E remaining) \<longleftrightarrow> distinct w \<and> set w = set remaining \<and> obeys E w"
proof (induction "length remaining" arbitrary: remaining w)
  case (Suc k)
  have ne: "remaining \<noteq> []" using Suc.hyps(2) by auto
  have len: "k = length (filter (\<lambda>m. m \<noteq> n) remaining)" if n: "n \<in> set remaining" for n
    using length_filter_out [OF Suc.prems n] Suc.hyps(2) by simp
  have IH: "v \<in> set (lins E (filter (\<lambda>m. m \<noteq> n) remaining)) \<longleftrightarrow>
      distinct v \<and> set v = set remaining - {n} \<and> obeys E v" if "n \<in> set remaining" for n v
    using Suc.hyps(1) [OF len [OF that]] Suc.prems by (auto simp: set_diff_eq)
  show ?case
  proof (cases w)
    case Nil
    then show ?thesis using ne by (auto simp: lins_step)
  next
    case (Cons n v)
    have "w \<in> set (lins E remaining) \<longleftrightarrow> n \<in> set (enabled E remaining) \<and> v \<in> set (lins E (filter (\<lambda>m. m \<noteq> n) remaining))"
      using ne Cons by (auto simp: lins_step)
    also have "\<dots> \<longleftrightarrow> distinct w \<and> set w = set remaining \<and> obeys E w"
      using IH [of n v] Cons by (auto simp: enabled_def)
    finally show ?thesis .
  qed
qed auto

lemma distinct_concat_Cons:
  assumes "distinct ns" and "\<And>n. n \<in> set ns \<Longrightarrow> distinct (g n)"
  shows "distinct (concat (map (\<lambda>n. map ((#) n) (g n)) ns))"
  using assms by (induction ns) (auto simp: distinct_map)

lemma distinct_lins: "distinct remaining \<Longrightarrow> distinct (lins E remaining)"
proof (induction E remaining rule: lins.induct)
  case (1 E remaining)
  show ?case
  proof (cases "remaining = []")
    case False
    have "distinct (enabled E remaining)" using 1(2) by (simp add: enabled_def)
    moreover have "distinct (lins E (filter (\<lambda>m. m \<noteq> n) remaining))" if "n \<in> set (enabled E remaining)" for n
      using 1(1) [OF False that] 1(2) by simp
    ultimately show ?thesis unfolding lins_step [OF False] by (rule distinct_concat_Cons)
  qed simp
qed

lemma acyclic_source:
  assumes "acyclic E" and "finite E" and "A \<noteq> {}"
  obtains m where "m \<in> A" "\<forall>b\<in>A. (b, m) \<notin> E"
proof -
  have "wf E" by (rule finite_acyclic_wf [OF assms(2,1)])
  then obtain m where m: "m \<in> A" "\<And>b. (b, m) \<in> E \<Longrightarrow> b \<notin> A" using assms(3) by (rule wfE_min') blast
  have "\<forall>b\<in>A. (b, m) \<notin> E" using m(2) by blast
  with m(1) show thesis by (rule that)
qed

lemma lins_nonempty: "acyclic E \<Longrightarrow> finite E \<Longrightarrow> lins E remaining \<noteq> []"
proof (induction E remaining rule: lins.induct)
  case (1 E remaining)
  show ?case
  proof (cases "remaining = []")
    case False
    have "set remaining \<noteq> {}" using False by simp
    then obtain m where "m \<in> set remaining" "\<forall>b\<in>set remaining. (b, m) \<notin> E"
      by (rule acyclic_source [OF 1(2,3)])
    then have m: "m \<in> set (enabled E remaining)" by (simp add: enabled_def)
    from 1(1) [OF False m 1(2,3)] show ?thesis using m unfolding lins_step [OF False] by simp blast
  qed simp
qed

text \<open>A linear extension: every occurrence once, causes before their effects.\<close>

definition linear_extension :: "pomset \<Rightarrow> string list \<Rightarrow> bool" where
  "linear_extension p w \<longleftrightarrow> distinct w \<and> set w = set (ids p) \<and>
     (\<forall>i<length w. \<forall>j<length w. (w ! i, w ! j) \<in> porder p \<longrightarrow> i < j)"

lemma obeys_nth: "obeys E w \<longleftrightarrow> (\<forall>i<length w. \<forall>j<length w. (w ! i, w ! j) \<in> E \<longrightarrow> i < j)"
proof (induction w)
  case (Cons x w)
  have "(\<forall>i<length (x # w). \<forall>j<length (x # w). ((x # w) ! i, (x # w) ! j) \<in> E \<longrightarrow> i < j) \<longleftrightarrow>
      (x, x) \<notin> E \<and> (\<forall>i<length w. (w ! i, x) \<notin> E) \<and> (\<forall>i<length w. \<forall>j<length w. (w ! i, w ! j) \<in> E \<longrightarrow> i < j)"
    by (auto simp: All_less_Suc2)
  then show ?case using Cons.IH by (auto simp: all_set_conv_all_nth)
qed simp

text \<open>What \<open>Pomset.__post_init__\<close> accepts.\<close>

definition pomset_ok :: "pomset \<Rightarrow> bool" where
  "pomset_ok p \<longleftrightarrow> length (nodes p) \<le> 8 \<and> distinct (ids p) \<and> finite (porder p) \<and>
     porder p \<subseteq> set (ids p) \<times> set (ids p) \<and> acyclic (porder p)"

lemma check_edges_iff:
  "(\<forall>e\<in>es. check_edge known e = Inr ()) \<longleftrightarrow> irrefl es \<and> es \<subseteq> known \<times> known"
  by (fastforce simp: check_edge_def irrefl_def split: if_splits)

lemma mk_pomset_iff:
  assumes "finite es"
  shows "mk_pomset ns es = Inr p \<longleftrightarrow> p = \<lparr>nodes = ns, porder = es\<rparr> \<and> pomset_ok \<lparr>nodes = ns, porder = es\<rparr>"
proof (cases "es \<subseteq> set (map logical_id ns) \<times> set (map logical_id ns)")
  case True
  have "irrefl es" if "acyclic es" using that by (auto simp: irrefl_def acyclic_def)
  then show ?thesis
    using assms True is_acyclic_total [OF _ True]
    by (auto simp: mk_pomset_def Let_def each_r_Inr_iff check_edges_iff pomset_ok_def ids_def
        max_occurrences_per_outcome_def)
next
  case False
  then have "\<not> (\<forall>e\<in>es. check_edge (set (map logical_id ns)) e = Inr ())" unfolding check_edges_iff by blast
  then show ?thesis
    using assms False by (auto simp: mk_pomset_def Let_def each_r_Inr_iff pomset_ok_def ids_def)
qed

lemma length_lins_pomset:
  assumes "pomset_ok p"
  shows "length (lins (porder p) (sorted_list_of_set (set (ids p)))) \<le> 40320"
proof -
  let ?rem = "sorted_list_of_set (set (ids p))"
  have "length ?rem \<le> 8" using assms card_length [of "ids p"] by (simp add: pomset_ok_def ids_def)
  then have "fact (length ?rem) \<le> (fact 8 :: nat)" by (rule fact_mono)
  moreover have "length (lins (porder p) ?rem) \<le> fact (length ?rem)" by (rule length_lins) simp
  ultimately show ?thesis by (simp add: fact_numeral)
qed

lemma linearizations_eq:
  assumes "pomset_ok p"
  shows "linearizations p = Inr (lins (porder p) (sorted_list_of_set (set (ids p))))"
  using visit_lins [of "[]" "porder p" "sorted_list_of_set (set (ids p))" "[]"] length_lins_pomset [OF assms]
  by (simp add: linearizations_def max_linearizations_def map_idI)

lemma linear_extension_obeys:
  "linear_extension p w \<longleftrightarrow> distinct w \<and> set w = set (ids p) \<and> obeys (porder p) w"
  by (simp add: linear_extension_def obeys_nth)

text \<open>
  C34. Every pomset its validation accepts has its linearizations enumerated without reaching the
  cap: the enumeration terminates with at most forty thousand three hundred and twenty words, at
  least one, without repetition, and they are exactly the linear extensions of the order.
\<close>

theorem linearizations_are_linear_extensions:
  assumes "finite es" and "mk_pomset ns es = Inr p"
  shows "\<exists>ws. linearizations p = Inr ws \<and> ws \<noteq> [] \<and> distinct ws \<and> length ws \<le> 40320 \<and>
    set ws = {w. linear_extension p w}"
proof -
  have ok: "pomset_ok p" using mk_pomset_iff [OF assms(1), of ns p] assms(2) by simp
  let ?rem = "sorted_list_of_set (set (ids p))"
  have "lins (porder p) ?rem \<noteq> []" using ok by (intro lins_nonempty) (auto simp: pomset_ok_def)
  moreover have "set (lins (porder p) ?rem) = {w. linear_extension p w}"
    by (auto simp: set_lins linear_extension_obeys)
  moreover have "length (lins (porder p) ?rem) \<le> 40320" by (rule length_lins_pomset [OF ok])
  ultimately show ?thesis using linearizations_eq [OF ok] distinct_lins [of ?rem] by auto
qed

end
