(* ===== verification/Contracts.thy ===== *)
theory Contracts
  imports Pomsets
begin

text \<open>
  The contracts of \<open>artifact/exact_history_realization.py\<close>: nonempty finite families of complete
  causal outcomes whose complete words are prefix-free, and the operations that build them. The
  complete words of a contract are the language the operations are described by.
\<close>

section \<open>Contracts\<close>

record contract =
  outcomes :: "pomset list"

definition strict_prefix_of :: "'a list \<Rightarrow> 'a list \<Rightarrow> bool" where
  "strict_prefix_of left right \<longleftrightarrow> length left < length right \<and> take (length left) right = left"

definition mk_contract :: "pomset list \<Rightarrow> contract result" where
  "mk_contract os =
     (if os = [] then Inl (ModelError ''a causal-completion contract must be nonempty'')
      else if int (length os) > max_outcomes then Inl (ModelError ''contract exceeds the outcome cap'')
      else if \<not> distinct os then Inl (ModelError ''contract contains duplicate outcomes'')
      else bind_r (map_r linearizations os) (\<lambda>words.
        let complete_words = concat words in
        if \<exists>left\<in>set complete_words. \<exists>right\<in>set complete_words. strict_prefix_of left right
        then Inl (ModelError ''complete traces must be prefix-free so termination is observable'')
        else Inr \<lparr>outcomes = os\<rparr>))"

definition singleton_contract :: "occurrence list \<Rightarrow> contract result" where
  "singleton_contract occs = bind_r (mk_pomset occs {}) (\<lambda>p. mk_contract [p])"

definition ordered_contract :: "occurrence list \<Rightarrow> contract result" where
  "ordered_contract occs =
     (let names = map logical_id occs in
      bind_r (mk_pomset occs (set (zip names (tl names)))) (\<lambda>p. mk_contract [p]))"

text \<open>\<open>dict.fromkeys\<close>: the first of equal outcomes stays.\<close>

definition first_occurrences :: "'a list \<Rightarrow> 'a list" where
  "first_occurrences xs = rev (remdups (rev xs))"

definition deduplicated_contract :: "pomset list \<Rightarrow> contract result" where
  "deduplicated_contract os = mk_contract (first_occurrences os)"

definition retag :: "string \<Rightarrow> string \<Rightarrow> string" where
  "retag tag i = tag @ ''/'' @ i"

definition tagged_pomset :: "string \<Rightarrow> pomset \<Rightarrow> pomset result" where
  "tagged_pomset tag p =
     bind_r (map_r (\<lambda>n. mk_occurrence (retag tag (logical_id n)) (occ_cell n)) (nodes p)) (\<lambda>ns.
     mk_pomset ns (map_prod (retag tag) (retag tag) ` porder p))"

definition tagged :: "contract \<Rightarrow> string \<Rightarrow> contract result" where
  "tagged c tag =
     (if tag = [] then Inl (ModelError ''contract tag must be nonempty'')
      else bind_r (map_r (tagged_pomset tag) (outcomes c)) deduplicated_contract)"

definition combine :: "bool \<Rightarrow> pomset \<Rightarrow> pomset \<Rightarrow> pomset result" where
  "combine ordered left right =
     (let left_ids = set (ids left); right_ids = set (ids right) in
      if left_ids \<inter> right_ids \<noteq> {}
      then Inl (ModelError ''contract products require disjoint logical identities'')
      else mk_pomset (sort (nodes left @ nodes right))
             (porder left \<union> porder right \<union> (if ordered then left_ids \<times> right_ids else {})))"

definition choice :: "contract \<Rightarrow> contract \<Rightarrow> contract result" where
  "choice left right = deduplicated_contract (outcomes left @ outcomes right)"

definition parallel :: "contract \<Rightarrow> contract \<Rightarrow> contract result" where
  "parallel left right =
     bind_r (map_r (\<lambda>(a, b). combine False a b) (List.product (outcomes left) (outcomes right)))
       deduplicated_contract"

definition sequence :: "contract \<Rightarrow> contract \<Rightarrow> contract result" where
  "sequence left right =
     bind_r (map_r (\<lambda>(a, b). combine True a b) (List.product (outcomes left) (outcomes right)))
       deduplicated_contract"

definition empty_contract :: contract where
  "empty_contract = \<lparr>outcomes = [\<lparr>nodes = [], porder = {}\<rparr>]\<rparr>"

section \<open>Validation\<close>

definition contract_words :: "contract \<Rightarrow> string list set" where
  "contract_words c = (\<Union>p\<in>set (outcomes c). {w. linear_extension p w})"

definition contract_ok :: "contract \<Rightarrow> bool" where
  "contract_ok c \<longleftrightarrow> outcomes c \<noteq> [] \<and> length (outcomes c) \<le> 128 \<and> distinct (outcomes c) \<and>
     (\<forall>p\<in>set (outcomes c). pomset_ok p) \<and>
     (\<forall>u\<in>contract_words c. \<forall>w\<in>contract_words c. \<not> strict_prefix_of u w)"

definition words_of :: "pomset \<Rightarrow> string list list" where
  "words_of p = lins (porder p) (sorted_list_of_set (set (ids p)))"

lemma set_words_of: "set (words_of p) = {w. linear_extension p w}"
  by (auto simp: words_of_def set_lins linear_extension_obeys)

lemma contract_words_eq: "contract_words \<lparr>outcomes = os\<rparr> = set (concat (map words_of os))"
  by (auto simp: contract_words_def set_words_of)

lemma mk_contract_iff:
  assumes "\<forall>p\<in>set os. pomset_ok p"
  shows "mk_contract os = Inr c \<longleftrightarrow> c = \<lparr>outcomes = os\<rparr> \<and> contract_ok \<lparr>outcomes = os\<rparr>"
proof -
  have "map_r linearizations os = Inr (map words_of os)"
    using assms by (intro map_r_total) (simp add: linearizations_eq words_of_def)
  then show ?thesis
    using assms contract_words_eq [of os]
    by (auto simp: mk_contract_def Let_def max_outcomes_def contract_ok_def)
qed

lemma first_occurrences_simps [simp]:
  "set (first_occurrences xs) = set xs" "distinct (first_occurrences xs)"
  by (simp_all add: first_occurrences_def)

lemma deduplicated_contract_words:
  assumes "\<forall>p\<in>set os. pomset_ok p" and "deduplicated_contract os = Inr c"
  shows "contract_ok c" "contract_words c = (\<Union>p\<in>set os. {w. linear_extension p w})" "set (outcomes c) = set os"
proof -
  have c: "c = \<lparr>outcomes = first_occurrences os\<rparr> \<and> contract_ok c"
    using assms mk_contract_iff [of "first_occurrences os" c] by (simp add: deduplicated_contract_def)
  then show "contract_ok c" by blast
  show "contract_words c = (\<Union>p\<in>set os. {w. linear_extension p w})" "set (outcomes c) = set os"
    using c by (simp_all add: contract_words_def)
qed

lemma contract_okD:
  assumes "contract_ok c"
  shows "\<And>p. p \<in> set (outcomes c) \<Longrightarrow> pomset_ok p"
    "\<And>u w. u \<in> contract_words c \<Longrightarrow> w \<in> contract_words c \<Longrightarrow> \<not> strict_prefix_of u w"
    "outcomes c \<noteq> []" "distinct (outcomes c)"
  using assms by (simp_all add: contract_ok_def)

section \<open>The language of a product\<close>

lemma obeys_Un [simp]: "obeys (E \<union> F) w \<longleftrightarrow> obeys E w \<and> obeys F w"
  by (induction w) auto

lemma obeys_empty [simp]: "obeys {} w"
  by (induction w) auto

lemma obeys_filter:
  assumes "E \<subseteq> A \<times> A"
  shows "obeys E w \<longleftrightarrow> obeys E (filter (\<lambda>x. x \<in> A) w)"
proof (induction w)
  case (Cons x w)
  have "(\<forall>y\<in>set (x # w). (y, x) \<notin> E) \<longleftrightarrow> (x \<in> A \<longrightarrow> (\<forall>y\<in>set (filter (\<lambda>x. x \<in> A) (x # w)). (y, x) \<notin> E))"
    using assms by auto
  then show ?case using Cons.IH by auto
qed simp

lemma obeys_Times:
  assumes "set w \<subseteq> A \<union> B" and "A \<inter> B = {}"
  shows "obeys (A \<times> B) w \<longleftrightarrow> w = filter (\<lambda>x. x \<in> A) w @ filter (\<lambda>x. x \<in> B) w"
  using assms(1)
proof (induction w)
  case (Cons x w)
  show ?case
  proof (cases "x \<in> A")
    case True
    then have "x \<notin> B" using assms(2) by blast
    then show ?thesis using Cons True by auto
  next
    case False
    then have B: "x \<in> B" using Cons.prems by simp
    have "obeys (A \<times> B) (x # w) \<longleftrightarrow> (\<forall>y\<in>set w. y \<notin> A) \<and> obeys (A \<times> B) w" using False B by auto
    also have "\<dots> \<longleftrightarrow> (\<forall>y\<in>set w. y \<notin> A)"
    proof -
      have "obeys (A \<times> B) w" if "\<forall>y\<in>set w. y \<notin> A" using that by (induction w) auto
      then show ?thesis by blast
    qed
    also have "\<dots> \<longleftrightarrow> x # w = filter (\<lambda>x. x \<in> A) (x # w) @ filter (\<lambda>x. x \<in> B) (x # w)"
    proof
      assume no: "\<forall>y\<in>set w. y \<notin> A"
      then have "\<forall>y\<in>set w. y \<in> B" using Cons.prems by auto
      then show "x # w = filter (\<lambda>x. x \<in> A) (x # w) @ filter (\<lambda>x. x \<in> B) (x # w)"
        using no False B by (simp add: filter_id_conv)
    next
      assume eq: "x # w = filter (\<lambda>x. x \<in> A) (x # w) @ filter (\<lambda>x. x \<in> B) (x # w)"
      show "\<forall>y\<in>set w. y \<notin> A"
      proof (cases "filter (\<lambda>x. x \<in> A) w")
        case (Cons y ys)
        then have "x = y" using eq False by simp
        moreover have "y \<in> set (filter (\<lambda>x. x \<in> A) w)" unfolding Cons by simp
        ultimately show ?thesis using False by simp
      qed (auto simp: filter_empty_conv)
    qed
    finally show ?thesis .
  qed
qed simp

text \<open>The parts of a word over two disjoint alphabets.\<close>

lemma shuffles_parts:
  assumes "set u \<subseteq> A" and "set v \<subseteq> B" and "A \<inter> B = {}"
  shows "w \<in> shuffles u v \<longleftrightarrow> set w \<subseteq> A \<union> B \<and> filter (\<lambda>x. x \<in> A) w = u \<and> filter (\<lambda>x. x \<in> B) w = v"
proof
  assume w: "w \<in> shuffles u v"
  then have sub: "set w \<subseteq> A \<union> B" using set_shuffles [OF w] assms(1,2) by blast
  have "w \<in> partition (\<lambda>x. x \<in> A) -` {(u, v)}"
    using w assms by (subst inv_image_partition) auto
  then have "filter (\<lambda>x. x \<in> A) w = u" "filter (\<lambda>x. x \<notin> A) w = v" by (auto simp: partition_filter_conv comp_def)
  moreover have "filter (\<lambda>x. x \<notin> A) w = filter (\<lambda>x. x \<in> B) w" using sub assms(3) by (intro filter_cong) auto
  ultimately show "set w \<subseteq> A \<union> B \<and> filter (\<lambda>x. x \<in> A) w = u \<and> filter (\<lambda>x. x \<in> B) w = v" using sub by simp
next
  assume w: "set w \<subseteq> A \<union> B \<and> filter (\<lambda>x. x \<in> A) w = u \<and> filter (\<lambda>x. x \<in> B) w = v"
  then have "filter (\<lambda>x. x \<notin> A) w = filter (\<lambda>x. x \<in> B) w" using assms(3) by (intro filter_cong) auto
  then show "w \<in> shuffles u v" using partition_in_shuffles [of w "\<lambda>x. x \<in> A"] w by simp
qed

lemma combine_Inr:
  assumes "pomset_ok p" and "pomset_ok q" and "combine b p q = Inr r"
  shows "pomset_ok r" "set (ids p) \<inter> set (ids q) = {}" "set (ids r) = set (ids p) \<union> set (ids q)"
    "porder r = porder p \<union> porder q \<union> (if b then set (ids p) \<times> set (ids q) else {})"
    "nodes r = sort (nodes p @ nodes q)"
proof -
  let ?E = "porder p \<union> porder q \<union> (if b then set (ids p) \<times> set (ids q) else {})"
  have fin: "finite ?E" using assms(1,2) by (simp add: pomset_ok_def)
  have disj: "set (ids p) \<inter> set (ids q) = {}" and mk: "mk_pomset (sort (nodes p @ nodes q)) ?E = Inr r"
    using assms(3) by (auto simp: combine_def Let_def split: if_splits)
  then show "set (ids p) \<inter> set (ids q) = {}" by blast
  have r: "r = \<lparr>nodes = sort (nodes p @ nodes q), porder = ?E\<rparr>" "pomset_ok \<lparr>nodes = sort (nodes p @ nodes q), porder = ?E\<rparr>"
    using mk_pomset_iff [OF fin, of _ r] mk by blast+
  then show "pomset_ok r" "porder r = ?E" "nodes r = sort (nodes p @ nodes q)" by simp_all
  show "set (ids r) = set (ids p) \<union> set (ids q)" using r(1) by (auto simp: ids_def)
qed

lemma cover_parts: "W \<subseteq> A \<union> B \<Longrightarrow> W = A \<union> B \<longleftrightarrow> {x \<in> W. x \<in> A} = A \<and> {x \<in> W. x \<in> B} = B"
  by blast

lemma distinct_parts:
  assumes "set w \<subseteq> A \<union> B" and "A \<inter> B = {}"
  shows "distinct w \<longleftrightarrow> distinct (filter (\<lambda>x. x \<in> A) w) \<and> distinct (filter (\<lambda>x. x \<in> B) w)"
proof -
  have "filter (\<lambda>x. x \<notin> A) w = filter (\<lambda>x. x \<in> B) w"
    by (rule filter_cong [OF refl]) (use assms in blast)
  moreover have "distinct w \<longleftrightarrow> distinct (filter (\<lambda>x. x \<in> A) w) \<and> distinct (filter (\<lambda>x. x \<notin> A) w)"
    by (induction w) (auto simp del: distinct_filter)
  ultimately show ?thesis by (simp only:)
qed

lemma linear_extension_combine:
  assumes "pomset_ok p" and "pomset_ok q" and "combine b p q = Inr r"
  shows "linear_extension r w \<longleftrightarrow>
    linear_extension p (filter (\<lambda>x. x \<in> set (ids p)) w) \<and> linear_extension q (filter (\<lambda>x. x \<in> set (ids q)) w) \<and>
    set w \<subseteq> set (ids p) \<union> set (ids q) \<and>
    (b \<longrightarrow> w = filter (\<lambda>x. x \<in> set (ids p)) w @ filter (\<lambda>x. x \<in> set (ids q)) w)"
proof -
  note c = combine_Inr [OF assms]
  let ?A = "set (ids p)" and ?B = "set (ids q)"
  have sub: "porder p \<subseteq> ?A \<times> ?A" "porder q \<subseteq> ?B \<times> ?B" using assms(1,2) by (simp_all add: pomset_ok_def)
  show ?thesis
  proof (cases "set w \<subseteq> ?A \<union> ?B")
    case True
    let ?u = "filter (\<lambda>x. x \<in> ?A) w" and ?v = "filter (\<lambda>x. x \<in> ?B) w"
    have d: "distinct w \<longleftrightarrow> distinct ?u \<and> distinct ?v" using True c(2) by (rule distinct_parts)
    have s: "set w = ?A \<union> ?B \<longleftrightarrow> set ?u = ?A \<and> set ?v = ?B" unfolding set_filter using True by (rule cover_parts)
    have o: "obeys (porder r) w \<longleftrightarrow> obeys (porder p) ?u \<and> obeys (porder q) ?v \<and> (b \<longrightarrow> w = ?u @ ?v)"
      using obeys_filter [OF sub(1), of w] obeys_filter [OF sub(2), of w] obeys_Times [OF True c(2)]
      by (cases b) (simp_all add: c(4))
    show ?thesis unfolding linear_extension_obeys c(3) d s o using True by meson
  next
    case False
    then have "set w \<noteq> ?A \<union> ?B" by blast
    then show ?thesis unfolding linear_extension_obeys c(3) using False by (simp only: simp_thms)
  qed
qed

lemma extension_ids: "linear_extension p u \<Longrightarrow> set u = set (ids p)"
  by (simp add: linear_extension_def)

lemma parallel_words:
  assumes "pomset_ok p" and "pomset_ok q" and "combine False p q = Inr r"
  shows "{w. linear_extension r w} = (\<Union>u\<in>{u. linear_extension p u}. \<Union>v\<in>{v. linear_extension q v}. shuffles u v)"
proof -
  have "w \<in> shuffles u v \<longleftrightarrow> set w \<subseteq> set (ids p) \<union> set (ids q) \<and> filter (\<lambda>x. x \<in> set (ids p)) w = u \<and>
      filter (\<lambda>x. x \<in> set (ids q)) w = v" if "linear_extension p u" "linear_extension q v" for u v w
    using that combine_Inr(2) [OF assms] by (intro shuffles_parts) (auto dest: extension_ids)
  then show ?thesis unfolding linear_extension_combine [OF assms] by (intro set_eqI) auto
qed

lemma sequence_words:
  assumes "pomset_ok p" and "pomset_ok q" and "combine True p q = Inr r"
  shows "{w. linear_extension r w} = {u @ v |u v. linear_extension p u \<and> linear_extension q v}"
proof -
  note disj = combine_Inr(2) [OF assms]
  have "filter (\<lambda>x. x \<in> set (ids p)) (u @ v) = u \<and> filter (\<lambda>x. x \<in> set (ids q)) (u @ v) = v \<and>
      set (u @ v) \<subseteq> set (ids p) \<union> set (ids q)" if "linear_extension p u" "linear_extension q v" for u v
    using extension_ids [OF that(1)] extension_ids [OF that(2)] disj
    by (auto simp: filter_id_conv filter_empty_conv)
  then show ?thesis unfolding linear_extension_combine [OF assms] by fastforce
qed

section \<open>The language of a renaming\<close>

lemma retag_inject [simp]: "retag tag i = retag tag j \<longleftrightarrow> i = j"
  by (simp add: retag_def)

lemma inj_retag: "inj (retag tag)"
  by (rule injI) simp

lemma obeys_map:
  assumes "inj f"
  shows "obeys (map_prod f f ` E) (map f w) \<longleftrightarrow> obeys E w"
proof -
  have "(f a, f b) \<in> map_prod f f ` E \<longleftrightarrow> (a, b) \<in> E" for a b using assms by (auto dest: injD)
  then show ?thesis by (induction w) simp_all
qed

lemma map_r_occurrences:
  assumes "map_r (\<lambda>n. mk_occurrence (retag tag (logical_id n)) (occ_cell n)) ns = Inr ms"
  shows "map logical_id ms = map (retag tag) (map logical_id ns) \<and> map occ_cell ms = map occ_cell ns"
  using assms by (induction ns arbitrary: ms) (auto simp: mk_occurrence_def split: if_splits)

lemma tagged_pomset_Inr:
  assumes "pomset_ok p" and "tagged_pomset tag p = Inr q"
  shows "pomset_ok q" "ids q = map (retag tag) (ids p)" "porder q = map_prod (retag tag) (retag tag) ` porder p"
    "map occ_cell (nodes q) = map occ_cell (nodes p)"
proof -
  let ?E = "map_prod (retag tag) (retag tag) ` porder p"
  obtain ms where ms: "map_r (\<lambda>n. mk_occurrence (retag tag (logical_id n)) (occ_cell n)) (nodes p) = Inr ms"
    and mk: "mk_pomset ms ?E = Inr q"
    using assms(2) by (auto simp: tagged_pomset_def)
  have fin: "finite ?E" using assms(1) by (simp add: pomset_ok_def)
  have q: "q = \<lparr>nodes = ms, porder = ?E\<rparr>" "pomset_ok \<lparr>nodes = ms, porder = ?E\<rparr>"
    using mk_pomset_iff [OF fin, of ms q] mk by blast+
  then show "pomset_ok q" "porder q = ?E" by simp_all
  show "ids q = map (retag tag) (ids p)" "map occ_cell (nodes q) = map occ_cell (nodes p)"
    using map_r_occurrences [OF ms] q(1) by (simp_all add: ids_def)
qed

lemma tagged_words:
  assumes "pomset_ok p" and "tagged_pomset tag p = Inr q"
  shows "{w. linear_extension q w} = map (retag tag) ` {w. linear_extension p w}"
proof -
  note q = tagged_pomset_Inr [OF assms]
  have "linear_extension q (map (retag tag) w) \<longleftrightarrow> linear_extension p w" for w
    unfolding linear_extension_obeys q(2,3) using inj_retag [of tag] inj_on_subset [OF inj_retag subset_UNIV, of tag "set w"]
    by (simp add: obeys_map distinct_map inj_image_eq_iff)
  moreover have "\<exists>w. v = map (retag tag) w" if "linear_extension q v" for v
    using extension_ids [OF that] q(2) by (intro ex_map_conv [THEN iffD2]) auto
  ultimately show ?thesis by blast
qed

section \<open>The operations on contracts\<close>

lemma map_r_rel:
  assumes "map_r f xs = Inr ys"
  shows "list_all2 (\<lambda>x y. f x = Inr y) xs ys"
  using assms by (induction xs arbitrary: ys) auto

lemma map_r_set:
  assumes "map_r f xs = Inr ys"
  shows "set ys = {y. \<exists>x\<in>set xs. f x = Inr y}"
  using assms by (induction xs arbitrary: ys) auto

lemma map_r_each: "map_r f xs = Inr ys \<Longrightarrow> x \<in> set xs \<Longrightarrow> \<exists>y. f x = Inr y"
  by (induction xs arbitrary: ys) auto

lemma choice_ok:
  assumes "contract_ok l" and "contract_ok r" and "choice l r = Inr c"
  shows "contract_ok c" "contract_words c = contract_words l \<union> contract_words r"
    "set (outcomes c) = set (outcomes l) \<union> set (outcomes r)"
proof -
  have "\<forall>p\<in>set (outcomes l @ outcomes r). pomset_ok p" using contract_okD(1) assms(1,2) by auto
  note d = deduplicated_contract_words [OF this assms(3) [unfolded choice_def]]
  show "contract_ok c" "contract_words c = contract_words l \<union> contract_words r"
    "set (outcomes c) = set (outcomes l) \<union> set (outcomes r)"
    using d by (auto simp: contract_words_def)
qed

lemma tagged_ok:
  assumes "contract_ok c" and "tagged c tag = Inr d"
  shows "contract_ok d" "contract_words d = map (retag tag) ` contract_words c"
    "set (outcomes d) = {q. \<exists>p\<in>set (outcomes c). tagged_pomset tag p = Inr q}"
proof -
  obtain qs where qs: "map_r (tagged_pomset tag) (outcomes c) = Inr qs" and d: "deduplicated_contract qs = Inr d"
    using assms(2) by (auto simp: tagged_def split: if_splits)
  note ok = contract_okD(1) [OF assms(1)]
  have "\<forall>q\<in>set qs. pomset_ok q" using map_r_set [OF qs] ok tagged_pomset_Inr(1) by blast
  note dd = deduplicated_contract_words [OF this d]
  show "contract_ok d" by (rule dd(1))
  show "set (outcomes d) = {q. \<exists>p\<in>set (outcomes c). tagged_pomset tag p = Inr q}"
    using dd(3) map_r_set [OF qs] by simp
  have "list_all2 (\<lambda>p q. {w. linear_extension q w} = map (retag tag) ` {w. linear_extension p w}) (outcomes c) qs"
    using map_r_rel [OF qs] by (rule list.rel_mono_strong) (rule tagged_words [OF ok])
  then have "(\<Union>q\<in>set qs. {w. linear_extension q w}) = (\<Union>p\<in>set (outcomes c). map (retag tag) ` {w. linear_extension p w})"
    by (induction rule: list_all2_induct) (simp_all only: list.set UN_insert UN_empty)
  then show "contract_words d = map (retag tag) ` contract_words c"
    unfolding contract_words_def [of c] image_UN by (rule trans [OF dd(2)])
qed

lemma product_ok:
  assumes "contract_ok l" and "contract_ok r"
    and "map_r (\<lambda>(a, b). combine ordered a b) (List.product (outcomes l) (outcomes r)) = Inr rs"
    and "deduplicated_contract rs = Inr c"
  shows "contract_ok c"
    "contract_words c = (\<Union>p\<in>set (outcomes l). \<Union>q\<in>set (outcomes r). \<Union>z\<in>{z. combine ordered p q = Inr z}. {w. linear_extension z w})"
    "\<And>p q. p \<in> set (outcomes l) \<Longrightarrow> q \<in> set (outcomes r) \<Longrightarrow> \<exists>z. combine ordered p q = Inr z"
    "set (outcomes c) = {z. \<exists>p\<in>set (outcomes l). \<exists>q\<in>set (outcomes r). combine ordered p q = Inr z}"
proof -
  have rs: "set rs = {z. \<exists>p\<in>set (outcomes l). \<exists>q\<in>set (outcomes r). combine ordered p q = Inr z}"
    using map_r_set [OF assms(3)] by auto
  have "\<forall>z\<in>set rs. pomset_ok z"
    using rs combine_Inr(1) contract_okD(1) assms(1,2) by blast
  note d = deduplicated_contract_words [OF this assms(4)]
  show "contract_ok c" by (rule d(1))
  show "set (outcomes c) = {z. \<exists>p\<in>set (outcomes l). \<exists>q\<in>set (outcomes r). combine ordered p q = Inr z}"
    using d(3) rs by simp
  show "contract_words c = (\<Union>p\<in>set (outcomes l). \<Union>q\<in>set (outcomes r). \<Union>z\<in>{z. combine ordered p q = Inr z}. {w. linear_extension z w})"
    unfolding d(2) rs by blast
  show "\<exists>z. combine ordered p q = Inr z" if "p \<in> set (outcomes l)" "q \<in> set (outcomes r)" for p q
  proof -
    have "(p, q) \<in> set (List.product (outcomes l) (outcomes r))" using that by simp
    from map_r_each [OF assms(3) this] show ?thesis by auto
  qed
qed

lemma UN_products:
  "(\<Union>p\<in>L. \<Union>q\<in>R. \<Union>u\<in>A p. \<Union>v\<in>B q. f u v) = (\<Union>u\<in>(\<Union>p\<in>L. A p). \<Union>v\<in>(\<Union>q\<in>R. B q). f u v)"
  unfolding UN_UN_flatten by (intro SUP_cong refl SUP_commute)

lemma append_words: "{u @ v |u v. P u \<and> Q v} = (\<Union>u\<in>{u. P u}. \<Union>v\<in>{v. Q v}. {u @ v})"
  by blast

lemma parallel_ok:
  assumes "contract_ok l" and "contract_ok r" and "parallel l r = Inr c"
  shows "contract_ok c" "contract_words c = (\<Union>u\<in>contract_words l. \<Union>v\<in>contract_words r. shuffles u v)"
    "set (outcomes c) = {z. \<exists>p\<in>set (outcomes l). \<exists>q\<in>set (outcomes r). combine False p q = Inr z}"
    "\<And>p q. p \<in> set (outcomes l) \<Longrightarrow> q \<in> set (outcomes r) \<Longrightarrow> \<exists>z. combine False p q = Inr z"
proof -
  obtain rs where rs: "map_r (\<lambda>(a, b). combine False a b) (List.product (outcomes l) (outcomes r)) = Inr rs"
    "deduplicated_contract rs = Inr c"
    using assms(3) by (auto simp: parallel_def)
  note p = product_ok [OF assms(1,2) rs]
  show "contract_ok c" "set (outcomes c) = {z. \<exists>p\<in>set (outcomes l). \<exists>q\<in>set (outcomes r). combine False p q = Inr z}"
    "\<And>p q. p \<in> set (outcomes l) \<Longrightarrow> q \<in> set (outcomes r) \<Longrightarrow> \<exists>z. combine False p q = Inr z"
    by (fact p)+
  have "(\<Union>z\<in>{z. combine False a b = Inr z}. {w. linear_extension z w}) =
      (\<Union>u\<in>{u. linear_extension a u}. \<Union>v\<in>{v. linear_extension b v}. shuffles u v)"
    if ab: "a \<in> set (outcomes l)" "b \<in> set (outcomes r)" for a b
  proof -
    obtain z where z: "combine False a b = Inr z" using p(3) [OF ab] by blast
    then show ?thesis
      using parallel_words [OF contract_okD(1) [OF assms(1) ab(1)] contract_okD(1) [OF assms(2) ab(2)] z] by simp
  qed
  then show "contract_words c = (\<Union>u\<in>contract_words l. \<Union>v\<in>contract_words r. shuffles u v)"
    unfolding contract_words_def [of l] contract_words_def [of r] UN_products [symmetric] p(2) by (intro SUP_cong refl)
qed

lemma sequence_ok:
  assumes "contract_ok l" and "contract_ok r" and "sequence l r = Inr c"
  shows "contract_ok c" "contract_words c = {u @ v |u v. u \<in> contract_words l \<and> v \<in> contract_words r}"
    "set (outcomes c) = {z. \<exists>p\<in>set (outcomes l). \<exists>q\<in>set (outcomes r). combine True p q = Inr z}"
    "\<And>p q. p \<in> set (outcomes l) \<Longrightarrow> q \<in> set (outcomes r) \<Longrightarrow> \<exists>z. combine True p q = Inr z"
proof -
  obtain rs where rs: "map_r (\<lambda>(a, b). combine True a b) (List.product (outcomes l) (outcomes r)) = Inr rs"
    "deduplicated_contract rs = Inr c"
    using assms(3) by (auto simp: sequence_def)
  note p = product_ok [OF assms(1,2) rs]
  show "contract_ok c" "set (outcomes c) = {z. \<exists>p\<in>set (outcomes l). \<exists>q\<in>set (outcomes r). combine True p q = Inr z}"
    "\<And>p q. p \<in> set (outcomes l) \<Longrightarrow> q \<in> set (outcomes r) \<Longrightarrow> \<exists>z. combine True p q = Inr z"
    by (fact p)+
  have "(\<Union>z\<in>{z. combine True a b = Inr z}. {w. linear_extension z w}) =
      {u @ v |u v. linear_extension a u \<and> linear_extension b v}"
    if ab: "a \<in> set (outcomes l)" "b \<in> set (outcomes r)" for a b
  proof -
    obtain z where z: "combine True a b = Inr z" using p(3) [OF ab] by blast
    then show ?thesis
      using sequence_words [OF contract_okD(1) [OF assms(1) ab(1)] contract_okD(1) [OF assms(2) ab(2)] z] by simp
  qed
  then show "contract_words c = {u @ v |u v. u \<in> contract_words l \<and> v \<in> contract_words r}"
    unfolding append_words contract_words_def [of l] contract_words_def [of r] Collect_mem_eq UN_products [symmetric] p(2)
    by (intro SUP_cong refl)
qed

text \<open>
  C35. What the operations on valid contracts denote: when they return, the complete words of a
  choice are the union, of a sequence the concatenations, of a parallel product the interleavings
  of the words of its arguments, and of a tagging the renamed words; and the result is valid again.
\<close>

theorem contract_operations_denote:
  assumes "contract_ok l" and "contract_ok r"
  shows "(\<forall>c. choice l r = Inr c \<longrightarrow> contract_ok c \<and> contract_words c = contract_words l \<union> contract_words r) \<and>
    (\<forall>c. sequence l r = Inr c \<longrightarrow> contract_ok c \<and>
       contract_words c = {u @ v |u v. u \<in> contract_words l \<and> v \<in> contract_words r}) \<and>
    (\<forall>c. parallel l r = Inr c \<longrightarrow> contract_ok c \<and>
       contract_words c = (\<Union>u\<in>contract_words l. \<Union>v\<in>contract_words r. shuffles u v)) \<and>
    (\<forall>tag c. tagged l tag = Inr c \<longrightarrow> contract_ok c \<and> contract_words c = map (retag tag) ` contract_words l)"
proof (intro conjI allI impI)
  fix c tag
  show "contract_ok c" "contract_words c = contract_words l \<union> contract_words r" if "choice l r = Inr c"
    by (fact choice_ok [OF assms that])+
  show "contract_ok c" "contract_words c = {u @ v |u v. u \<in> contract_words l \<and> v \<in> contract_words r}"
    if "sequence l r = Inr c"
    by (fact sequence_ok [OF assms that])+
  show "contract_ok c" "contract_words c = (\<Union>u\<in>contract_words l. \<Union>v\<in>contract_words r. shuffles u v)"
    if "parallel l r = Inr c"
    by (fact parallel_ok [OF assms that])+
  show "contract_ok c" "contract_words c = map (retag tag) ` contract_words l" if "tagged l tag = Inr c"
    by (fact tagged_ok [OF assms(1) that])+
qed

end
