(* ===== verification/Histories.thy ===== *)
theory Histories
  imports Contracts
begin

text \<open>
  The trusted state of \<open>artifact/exact_history_realization.py\<close>: prefix policies, live branches,
  frontier groups, named contracts and \<open>HistoryState\<close> with its validation. The lookups
  \<open>branch_map\<close> and \<open>group_map\<close> are association lists; their keys are unique in a valid state.
\<close>

section \<open>Policies\<close>

text \<open>The slices \<open>trace[:length] for length in range(len(trace) + 1)\<close>.\<close>

definition slices :: "'a list \<Rightarrow> 'a list list" where
  "slices tr = map (\<lambda>n. take n tr) [0..<length tr + 1]"

lemma set_slices: "set (slices tr) = range (\<lambda>n. take n tr)"
proof
  show "range (\<lambda>n. take n tr) \<subseteq> set (slices tr)"
  proof clarify
    fix n
    have "take n tr = take (min n (length tr)) tr" by (simp add: min_def)
    moreover have "min n (length tr) \<in> {0..<length tr + 1}" by simp
    ultimately show "take n tr \<in> set (slices tr)" unfolding slices_def set_map set_upt by (metis imageI)
  qed
qed (unfold slices_def set_map, blast)

record prefix_policy =
  allowed :: "string list set"

definition policy_post_init :: "prefix_policy \<Rightarrow> unit result" where
  "policy_post_init p =
     (if [] \<notin> allowed p then Inl (ModelError ''a prefix policy must contain the empty trace'')
      else if \<exists>tr\<in>allowed p. \<exists>slice\<in>set (slices tr). slice \<notin> allowed p
      then Inl (ModelError ''authority policy must be prefix closed'')
      else Inr ())"

definition mk_policy :: "string list set \<Rightarrow> prefix_policy result" where
  "mk_policy a = bind_r (policy_post_init \<lparr>allowed = a\<rparr>) (\<lambda>_. Inr \<lparr>allowed = a\<rparr>)"

definition from_maximal :: "string list list \<Rightarrow> prefix_policy result" where
  "from_maximal maximal =
     mk_policy (insert [] (set (concat (map slices maximal))))"

definition allows :: "prefix_policy \<Rightarrow> string list \<Rightarrow> bool" where
  "allows p tr \<longleftrightarrow> tr \<in> allowed p"

definition policy_ok :: "prefix_policy \<Rightarrow> bool" where
  "policy_ok p \<longleftrightarrow> [] \<in> allowed p \<and> (\<forall>tr\<in>allowed p. \<forall>n. take n tr \<in> allowed p)"

lemma policy_post_init_iff: "policy_post_init p = Inr u \<longleftrightarrow> policy_ok p"
  by (auto simp: policy_post_init_def policy_ok_def set_slices)

text \<open>The policy generated by maximal traces always validates.\<close>

lemma from_maximal_ok: "\<exists>p. from_maximal maximal = Inr p \<and> policy_ok p"
proof -
  let ?a = "insert [] (set (concat (map slices maximal)))"
  have "take n tr \<in> ?a" if tr: "tr \<in> ?a" for n tr
  proof (cases "tr = []")
    case False
    then obtain y m where "y \<in> set maximal" "tr = take m y" using tr by (auto simp: set_slices)
    then have "take n tr \<in> set (slices y)" unfolding set_slices by simp
    then show ?thesis using \<open>y \<in> set maximal\<close> by auto
  qed simp
  then have "policy_ok \<lparr>allowed = ?a\<rparr>" by (simp add: policy_ok_def)
  then show ?thesis by (simp add: from_maximal_def mk_policy_def policy_post_init_iff)
qed

section \<open>Branches, groups, history states\<close>

record live_branch =
  branch_id :: string
  branch_contract :: contract
  branch_owner :: string

definition mk_live_branch :: "string \<Rightarrow> contract \<Rightarrow> string \<Rightarrow> live_branch result" where
  "mk_live_branch b c ow =
     (if b = [] \<or> ow = [] then Inl (ModelError ''branch and owner identifiers must be nonempty'')
      else Inr \<lparr>branch_id = b, branch_contract = c, branch_owner = ow\<rparr>)"

datatype group_mode = ChoiceMode | ParallelMode

record frontier_group =
  group_id :: string
  group_mode :: group_mode
  members :: "string list"
  selected :: "string option"

definition group_post_init :: "frontier_group \<Rightarrow> unit result" where
  "group_post_init g =
     (if group_id g = [] \<or> length (members g) < 2
      then Inl (ModelError ''a frontier group needs an id and at least two members'')
      else if \<not> distinct (members g) then Inl (ModelError ''frontier group members must be unique'')
      else case selected g of
        None \<Rightarrow> Inr ()
      | Some m \<Rightarrow>
          if group_mode g \<noteq> ChoiceMode \<or> m \<notin> set (members g)
          then Inl (ModelError ''only a choice group may name one of its members'')
          else Inr ())"

definition mk_group :: "string \<Rightarrow> group_mode \<Rightarrow> string list \<Rightarrow> string option \<Rightarrow> frontier_group result" where
  "mk_group i m ms sel =
     (let g = \<lparr>group_id = i, group_mode = m, members = ms, selected = sel\<rparr> in
      bind_r (group_post_init g) (\<lambda>_. Inr g))"

record named_contract =
  nc_name :: string
  nc_contract :: contract

record history_edge =
  edge_operation :: string
  affected :: "string list"
  edge_targets :: "string list"

record history_state =
  branches :: "live_branch list"
  groups :: "frontier_group list"
  checkpoints :: "named_contract list"
  leaf_registry :: "named_contract list"
  provenance :: "history_edge list"
  receipts :: "string list"
  completed :: "string list"
  policy :: prefix_policy
  policy_version :: int
  view_version :: int
  closed_owners :: "string set"

definition unique_named :: "named_contract list \<Rightarrow> unit result" where
  "unique_named values =
     (if [] \<in> set (map nc_name values) \<or> \<not> distinct (map nc_name values)
      then Inl (ModelError ''names must be nonempty and unique'') else Inr ())"

definition lookup_named :: "named_contract list \<Rightarrow> string \<Rightarrow> contract result" where
  "lookup_named values name =
     (case map nc_contract (filter (\<lambda>v. nc_name v = name) values) of
        [c] \<Rightarrow> Inr c
      | _ \<Rightarrow> Inl (ModelError ''unknown named contract''))"

definition leaf :: "history_state \<Rightarrow> string \<Rightarrow> contract result" where
  "leaf s name = lookup_named (leaf_registry s) name"

definition checkpoint :: "history_state \<Rightarrow> string \<Rightarrow> contract result" where
  "checkpoint s name = lookup_named (checkpoints s) name"

definition branch_map :: "history_state \<Rightarrow> (string \<times> live_branch) list" where
  "branch_map s = map (\<lambda>b. (branch_id b, b)) (branches s)"

definition group_map :: "history_state \<Rightarrow> (string \<times> frontier_group) list" where
  "group_map s = map (\<lambda>g. (group_id g, g)) (groups s)"

text \<open>One turn of the loop over the groups, with the identifiers and the members seen so far.\<close>

definition check_group :: "string set \<Rightarrow> string set \<times> string set \<Rightarrow> frontier_group \<Rightarrow> (string set \<times> string set) result" where
  "check_group known acc g =
     (case acc of (group_ids, grouped) \<Rightarrow>
      if group_id g \<in> group_ids then Inl (ModelError ''frontier group identifiers must be unique'')
      else if \<not> set (members g) \<subseteq> known then Inl (ModelError ''frontier group references an unknown branch'')
      else if grouped \<inter> set (members g) \<noteq> {} then Inl (ModelError ''the bounded model uses a flat frontier'')
      else Inr (insert (group_id g) group_ids, grouped \<union> set (members g)))"

definition contract_nodes :: "contract \<Rightarrow> occurrence list" where
  "contract_nodes c = concat (map nodes (outcomes c))"

definition check_cell :: "(string \<times> string) list \<Rightarrow> occurrence \<Rightarrow> (string \<times> string) list result" where
  "check_cell cells n =
     (case map_of cells (logical_id n) of
        None \<Rightarrow> Inr ((logical_id n, occ_cell n) # cells)
      | Some previous \<Rightarrow>
          if previous \<noteq> occ_cell n
          then Inl (ModelError ''one logical occurrence cannot name different cells across outcomes'')
          else Inr cells)"

definition check_branch :: "string set \<Rightarrow> live_branch \<Rightarrow> string set result" where
  "check_branch occurrence_ids b =
     (let branch_occurrences = logical_id ` set (contract_nodes (branch_contract b)) in
      if occurrence_ids \<inter> branch_occurrences \<noteq> {}
      then Inl (ModelError ''logical occurrence identities must be unique across live branches'')
      else bind_r (fold_r check_cell [] (contract_nodes (branch_contract b))) (\<lambda>_.
        Inr (occurrence_ids \<union> branch_occurrences)))"

definition history_post_init :: "history_state \<Rightarrow> unit result" where
  "history_post_init s =
     (if policy_version s < 0 \<or> view_version s < 0 then Inl (ModelError ''trusted versions must be nonnegative'')
      else if \<not> distinct (receipts s) then Inl (ModelError ''the fresh receipt trace cannot repeat a cell'')
      else if \<not> allows (policy s) (receipts s)
      then Inl (ModelError ''the durable receipt trace violates the policy'')
      else if [] \<in> set (completed s) then Inl (ModelError ''completed logical occurrence ids must be nonempty'')
      else if \<not> distinct (completed s)
      then Inl (ModelError ''the ordered logical-occurrence frontier cannot repeat an id'')
      else if \<not> distinct (map branch_id (branches s)) then Inl (ModelError ''live branch identifiers must be unique'')
      else if branch_owner ` set (branches s) \<inter> closed_owners s \<noteq> {}
      then Inl (ModelError ''a closed controller generation cannot own a live branch'')
      else bind_r (fold_r (check_group (set (map branch_id (branches s)))) ({}, {}) (groups s)) (\<lambda>_.
        bind_r (unique_named (checkpoints s)) (\<lambda>_.
        bind_r (unique_named (leaf_registry s)) (\<lambda>_.
        bind_r (fold_r check_branch {} (branches s)) (\<lambda>_. Inr ())))))"

definition mk_history_state :: "history_state \<Rightarrow> history_state result" where
  "mk_history_state s = bind_r (history_post_init s) (\<lambda>_. Inr s)"

section \<open>What the validation accepts\<close>

definition disjoint_branches :: "live_branch list \<Rightarrow> bool" where
  "disjoint_branches bs \<longleftrightarrow>
     sorted_wrt (\<lambda>b d. logical_id ` set (contract_nodes (branch_contract b)) \<inter>
        logical_id ` set (contract_nodes (branch_contract d)) = {}) bs"

definition flat_groups :: "string set \<Rightarrow> frontier_group list \<Rightarrow> bool" where
  "flat_groups known gs \<longleftrightarrow> distinct (map group_id gs) \<and> (\<forall>g\<in>set gs. set (members g) \<subseteq> known) \<and>
     sorted_wrt (\<lambda>g h. set (members g) \<inter> set (members h) = {}) gs"

definition one_cell_each :: "occurrence set \<Rightarrow> bool" where
  "one_cell_each A \<longleftrightarrow> (\<forall>m\<in>A. \<forall>n\<in>A. logical_id m = logical_id n \<longrightarrow> occ_cell m = occ_cell n)"

definition functional_cells :: "contract \<Rightarrow> bool" where
  "functional_cells c \<longleftrightarrow> one_cell_each (set (contract_nodes c))"

definition history_ok :: "history_state \<Rightarrow> bool" where
  "history_ok s \<longleftrightarrow> 0 \<le> policy_version s \<and> 0 \<le> view_version s \<and> distinct (receipts s) \<and>
     allows (policy s) (receipts s) \<and> [] \<notin> set (completed s) \<and> distinct (completed s) \<and>
     distinct (map branch_id (branches s)) \<and> branch_owner ` set (branches s) \<inter> closed_owners s = {} \<and>
     flat_groups (set (map branch_id (branches s))) (groups s) \<and>
     [] \<notin> set (map nc_name (checkpoints s)) \<and> distinct (map nc_name (checkpoints s)) \<and>
     [] \<notin> set (map nc_name (leaf_registry s)) \<and> distinct (map nc_name (leaf_registry s)) \<and>
     disjoint_branches (branches s) \<and> (\<forall>b\<in>set (branches s). functional_cells (branch_contract b))"

text \<open>Splitting what is seen so far off a list of pairwise disjoint sets.\<close>

lemma disjoint_acc:
  "(\<forall>h\<in>H. M h \<inter> (G \<union> X) = {}) \<longleftrightarrow> (\<forall>h\<in>H. M h \<inter> G = {}) \<and> (\<forall>h\<in>H. X \<inter> M h = {})"
  by blast

lemma disjoint_insert_iff:
  "A \<inter> insert x I = {} \<longleftrightarrow> x \<notin> A \<and> A \<inter> I = {}" "insert x A \<inter> I = {} \<longleftrightarrow> x \<notin> I \<and> A \<inter> I = {}"
  by blast+

lemma ball_insert_iff: "(\<forall>x\<in>insert a A. P x) \<longleftrightarrow> P a \<and> (\<forall>x\<in>A. P x)"
  by blast

lemma flat_groups_Cons:
  "flat_groups known (g # gs) \<longleftrightarrow> group_id g \<notin> group_id ` set gs \<and> set (members g) \<subseteq> known \<and>
     (\<forall>h\<in>set gs. set (members g) \<inter> set (members h) = {}) \<and> flat_groups known gs"
  unfolding flat_groups_def by (simp only: list.map distinct.simps list.set ball_insert_iff sorted_wrt.simps set_map) argo

lemma check_groups_iff:
  "(\<exists>r. fold_r (check_group known) (I, G) gs = Inr r) \<longleftrightarrow>
     flat_groups known gs \<and> group_id ` set gs \<inter> I = {} \<and> (\<forall>g\<in>set gs. set (members g) \<inter> G = {})"
proof (induction gs arbitrary: I G)
  case (Cons g gs)
  have comm: "set (members g) \<inter> G = G \<inter> set (members g)" by (rule Int_commute)
  show ?case
  proof (cases "group_id g \<notin> I \<and> set (members g) \<subseteq> known \<and> G \<inter> set (members g) = {}")
    case True
    then have "check_group known (I, G) g = Inr (insert (group_id g) I, G \<union> set (members g))"
      by (simp add: check_group_def)
    then have "(\<exists>r. fold_r (check_group known) (I, G) (g # gs) = Inr r) \<longleftrightarrow>
        flat_groups known gs \<and> group_id ` set gs \<inter> insert (group_id g) I = {} \<and>
        (\<forall>h\<in>set gs. set (members h) \<inter> (G \<union> set (members g)) = {})"
      using Cons.IH [of "insert (group_id g) I" "G \<union> set (members g)"] by simp
    then show ?thesis
      unfolding disjoint_acc disjoint_insert_iff flat_groups_Cons list.set image_insert ball_insert_iff comm
      using True by argo
  next
    case False
    then have "\<nexists>r. fold_r (check_group known) (I, G) (g # gs) = Inr r" by (auto simp: check_group_def)
    then show ?thesis
      unfolding disjoint_insert_iff flat_groups_Cons list.set image_insert ball_insert_iff comm using False by meson
  qed
qed (simp add: flat_groups_def)

lemma symmetric_pairs_insert:
  assumes "\<And>x. P x x" and "\<And>x y. P x y \<Longrightarrow> P y x"
  shows "(\<forall>m\<in>insert n A. \<forall>k\<in>insert n A. P m k) \<longleftrightarrow> (\<forall>m\<in>A. \<forall>k\<in>A. P m k) \<and> (\<forall>k\<in>A. P k n)"
  using assms by blast

lemma one_cell_each_insert:
  "one_cell_each (insert n A) \<longleftrightarrow> one_cell_each A \<and> (\<forall>k\<in>A. logical_id k = logical_id n \<longrightarrow> occ_cell k = occ_cell n)"
  unfolding one_cell_each_def by (rule symmetric_pairs_insert) auto

lemma check_cells_iff:
  "(\<exists>r. fold_r check_cell d ns = Inr r) \<longleftrightarrow>
     one_cell_each (set ns) \<and> (\<forall>n\<in>set ns. map_of d (logical_id n) \<in> {None, Some (occ_cell n)})"
proof (induction ns arbitrary: d)
  case (Cons n ns)
  let ?in = "\<lambda>d k. map_of d (logical_id k) \<in> {None, Some (occ_cell k)}"
  show ?case
  proof (cases "map_of d (logical_id n)")
    case None
    let ?d = "(logical_id n, occ_cell n) # d"
    have "fold_r check_cell d (n # ns) = fold_r check_cell ?d ns" using None by (simp add: check_cell_def)
    then have "(\<exists>r. fold_r check_cell d (n # ns) = Inr r) \<longleftrightarrow> one_cell_each (set ns) \<and> (\<forall>k\<in>set ns. ?in ?d k)"
      unfolding Cons.IH [of ?d, symmetric] by (rule arg_cong)
    moreover have "?in ?d k \<longleftrightarrow> (logical_id k = logical_id n \<longrightarrow> occ_cell k = occ_cell n) \<and> ?in d k" for k
      using None by auto
    moreover have "?in d n" using None by simp
    ultimately show ?thesis unfolding one_cell_each_insert list.set ball_insert_iff ball_conj_distrib by meson
  next
    case (Some c)
    show ?thesis
    proof (cases "c = occ_cell n")
      case True
      have "fold_r check_cell d (n # ns) = fold_r check_cell d ns" using Some True by (simp add: check_cell_def)
      then have "(\<exists>r. fold_r check_cell d (n # ns) = Inr r) \<longleftrightarrow> one_cell_each (set ns) \<and> (\<forall>k\<in>set ns. ?in d k)"
        unfolding Cons.IH [of d, symmetric] by (rule arg_cong)
      moreover have "logical_id k = logical_id n \<longrightarrow> occ_cell k = occ_cell n" if "?in d k" for k
        using that Some True by auto
      moreover have "?in d n" using Some True by simp
      ultimately show ?thesis unfolding one_cell_each_insert list.set ball_insert_iff by meson
    next
      case False
      then have "\<not> ?in d n" using Some by simp
      moreover have "\<nexists>r. fold_r check_cell d (n # ns) = Inr r" using Some False by (simp add: check_cell_def)
      ultimately show ?thesis unfolding list.set ball_insert_iff by meson
    qed
  qed
qed (simp add: one_cell_each_def)

lemma disjoint_branches_Cons:
  "disjoint_branches (b # bs) \<longleftrightarrow> (\<forall>d\<in>set bs. logical_id ` set (contract_nodes (branch_contract b)) \<inter>
     logical_id ` set (contract_nodes (branch_contract d)) = {}) \<and> disjoint_branches bs"
  by (simp add: disjoint_branches_def)

lemma check_branches_iff:
  "(\<exists>r. fold_r check_branch A bs = Inr r) \<longleftrightarrow>
     disjoint_branches bs \<and> (\<forall>b\<in>set bs. functional_cells (branch_contract b)) \<and>
     (\<forall>b\<in>set bs. logical_id ` set (contract_nodes (branch_contract b)) \<inter> A = {})"
proof (induction bs arbitrary: A)
  case (Cons b bs)
  let ?o = "\<lambda>b. logical_id ` set (contract_nodes (branch_contract b))"
  have cells: "(\<exists>r. fold_r check_cell [] (contract_nodes (branch_contract b)) = Inr r) \<longleftrightarrow> functional_cells (branch_contract b)"
    unfolding check_cells_iff functional_cells_def by simp
  have comm: "?o b \<inter> A = A \<inter> ?o b" by (rule Int_commute)
  show ?case
  proof (cases "A \<inter> ?o b = {} \<and> functional_cells (branch_contract b)")
    case True
    obtain r where "fold_r check_cell [] (contract_nodes (branch_contract b)) = Inr r" using cells True by blast
    then have "check_branch A b = Inr (A \<union> ?o b)" using True by (simp add: check_branch_def Let_def)
    then have "(\<exists>r. fold_r check_branch A (b # bs) = Inr r) \<longleftrightarrow>
        disjoint_branches bs \<and> (\<forall>b\<in>set bs. functional_cells (branch_contract b)) \<and> (\<forall>d\<in>set bs. ?o d \<inter> (A \<union> ?o b) = {})"
      using Cons.IH [of "A \<union> ?o b"] by simp
    then show ?thesis
      unfolding disjoint_acc disjoint_branches_Cons list.set ball_insert_iff comm using True by argo
  next
    case False
    then have "\<nexists>r. fold_r check_branch A (b # bs) = Inr r" using cells by (auto simp: check_branch_def Let_def)
    then show ?thesis unfolding disjoint_branches_Cons list.set ball_insert_iff comm using False by meson
  qed
qed (simp add: disjoint_branches_def)

lemma history_post_init_iff: "history_post_init s = Inr u \<longleftrightarrow> history_ok s"
proof -
  have "(\<exists>r. fold_r (check_group (set (map branch_id (branches s)))) ({}, {}) (groups s) = Inr r) \<longleftrightarrow>
      flat_groups (set (map branch_id (branches s))) (groups s)"
    unfolding check_groups_iff by simp
  moreover have "(\<exists>r. fold_r check_branch {} (branches s) = Inr r) \<longleftrightarrow>
      disjoint_branches (branches s) \<and> (\<forall>b\<in>set (branches s). functional_cells (branch_contract b))"
    unfolding check_branches_iff by simp
  ultimately show ?thesis
    by (simp add: history_post_init_def history_ok_def unique_named_def not_less)
qed

lemma mk_history_state_iff: "mk_history_state s = Inr t \<longleftrightarrow> t = s \<and> history_ok s"
  by (auto simp: mk_history_state_def history_post_init_iff)

end
