(* ===== verification/Admission.thy ===== *)
theory Admission
  imports Histories
begin

text \<open>
  Resolution of linearizations against the receipts, and the admission check of
  \<open>artifact/exact_history_realization.py\<close>: the candidate completions, the descending chain to
  the prefix-robust greatest fixed point, and the certificates it returns. Frozen sets of
  completions are kept as increasing lists while the loop runs.
\<close>

section \<open>Resolution\<close>

datatype resolved_event = ResolvedEvent (ev_kind: string) (ev_id: string) (ev_cell: string)

text \<open>The key of one event in \<open>_trace_key\<close>; a trace is ordered by the list of its keys.\<close>

definition event_key :: "resolved_event \<Rightarrow> string \<times> string \<times> string" where
  "event_key e = (ev_kind e, ev_id e, ev_cell e)"

lemma event_key_inject: "event_key a = event_key b \<Longrightarrow> a = b"
  by (cases a; cases b) (simp add: event_key_def)

instantiation resolved_event :: linorder
begin

definition less_eq_resolved_event :: "resolved_event \<Rightarrow> resolved_event \<Rightarrow> bool" where
  "less_eq_resolved_event a b = (event_key a \<le> event_key b)"

definition less_resolved_event :: "resolved_event \<Rightarrow> resolved_event \<Rightarrow> bool" where
  "less_resolved_event a b = (event_key a < event_key b)"

instance
proof
  fix x y z :: resolved_event
  show "x < y \<longleftrightarrow> x \<le> y \<and> \<not> y \<le> x"
    unfolding less_resolved_event_def less_eq_resolved_event_def by (rule less_le_not_le)
  show "x \<le> x" unfolding less_eq_resolved_event_def by simp
  show "x \<le> z" if "x \<le> y" "y \<le> z" using that unfolding less_eq_resolved_event_def by (rule order_trans)
  show "x = y" if "x \<le> y" "y \<le> x"
    using that unfolding less_eq_resolved_event_def by (intro event_key_inject antisym)
  show "x \<le> y \<or> y \<le> x" unfolding less_eq_resolved_event_def by (rule linear)
qed

end

type_synonym trace = "resolved_event list"

definition by_id :: "pomset \<Rightarrow> (string \<times> string) list" where
  "by_id p = map (\<lambda>n. (logical_id n, occ_cell n)) (nodes p)"

fun resolve_from :: "(string \<times> string) list \<Rightarrow> string set \<Rightarrow> string list \<Rightarrow> trace result" where
  "resolve_from cells seen [] = Inr []"
| "resolve_from cells seen (i # raw) =
     bind_r (dict_get cells i) (\<lambda>c.
     bind_r (resolve_from cells (insert c seen) raw) (\<lambda>rest.
     Inr (ResolvedEvent (if c \<in> seen then ''alias'' else ''fresh'') i c # rest)))"

definition resolve_enumerated :: "pomset \<Rightarrow> string list \<Rightarrow> string list \<Rightarrow> trace result" where
  "resolve_enumerated p raw receipt_trace = resolve_from (by_id p) (set receipt_trace) raw"

definition resolve :: "pomset \<Rightarrow> string list \<Rightarrow> string list \<Rightarrow> trace result" where
  "resolve p raw receipt_trace =
     (if sort raw \<noteq> sort (ids p) then Inl (ModelError ''raw linearization is not a permutation of the pomset'')
      else bind_r (linearizations p) (\<lambda>ws.
        if raw \<notin> set ws then Inl (ModelError ''raw sequence violates the pomset order'')
        else resolve_enumerated p raw receipt_trace))"

definition auth :: "trace \<Rightarrow> string list" where
  "auth tr = map ev_cell (filter (\<lambda>e. ev_kind e = ''fresh'') tr)"

section \<open>Completions\<close>

record outcome_executions =
  oe_index :: nat
  oe_outcome :: pomset
  oe_safe :: "trace list"

datatype indexed_completion = IndexedCompletion (outcome_index: nat) (trace: trace)

definition completion_key :: "indexed_completion \<Rightarrow> nat \<times> trace" where
  "completion_key c = (outcome_index c, trace c)"

lemma completion_key_inject: "completion_key a = completion_key b \<Longrightarrow> a = b"
  by (cases a; cases b) (simp add: completion_key_def)

instantiation indexed_completion :: linorder
begin

definition less_eq_indexed_completion :: "indexed_completion \<Rightarrow> indexed_completion \<Rightarrow> bool" where
  "less_eq_indexed_completion a b = (completion_key a \<le> completion_key b)"

definition less_indexed_completion :: "indexed_completion \<Rightarrow> indexed_completion \<Rightarrow> bool" where
  "less_indexed_completion a b = (completion_key a < completion_key b)"

instance
proof
  fix x y z :: indexed_completion
  show "x < y \<longleftrightarrow> x \<le> y \<and> \<not> y \<le> x"
    unfolding less_indexed_completion_def less_eq_indexed_completion_def by (rule less_le_not_le)
  show "x \<le> x" unfolding less_eq_indexed_completion_def by simp
  show "x \<le> z" if "x \<le> y" "y \<le> z" using that unfolding less_eq_indexed_completion_def by (rule order_trans)
  show "x = y" if "x \<le> y" "y \<le> x"
    using that unfolding less_eq_indexed_completion_def by (intro completion_key_inject antisym)
  show "x \<le> y \<or> y \<le> x" unfolding less_eq_indexed_completion_def by (rule linear)
qed

end

record pruning_cause =
  pc_rank :: nat
  pc_removed :: indexed_completion
  pc_prefix :: trace
  pc_outcome :: nat

record survivor_witness =
  sw_source :: indexed_completion
  sw_prefix :: trace
  sw_outcome :: nat
  sw_completion :: indexed_completion

record impossibility_witness =
  iw_rank :: nat
  iw_prefix :: trace
  iw_outcome :: nat
  iw_removed :: "indexed_completion option"

record admission_result =
  admitted :: bool
  ar_outcomes :: "outcome_executions list"
  candidate_completions :: "indexed_completion set"
  surviving_indexed_completions :: "indexed_completion set"
  safe_completions :: "trace set"
  language_w :: "trace set"
  descending_chain :: "indexed_completion set list"
  pruning_causes :: "pruning_cause list"
  survivor_witnesses :: "survivor_witness list"
  impossibility_witness :: "impossibility_witness option"

definition raw :: "trace \<Rightarrow> string list" where
  "raw tr = map ev_id tr"

section \<open>The candidates\<close>

text \<open>One linearization of one outcome: the accumulator holds the safe traces, the candidates and the raw prefixes.\<close>

definition candidate_step ::
    "history_state \<Rightarrow> nat \<Rightarrow> pomset \<Rightarrow> trace list \<times> indexed_completion set \<times> string list set \<Rightarrow> string list \<Rightarrow>
     (trace list \<times> indexed_completion set \<times> string list set) result" where
  "candidate_step s i p acc w =
     (case acc of (safe, candidates, raw_prefixes) \<Rightarrow>
      let raw_prefixes' = raw_prefixes \<union> set (slices w) in
      bind_r (resolve_enumerated p w (receipts s)) (\<lambda>resolved.
      if allows (policy s) (receipts s @ auth resolved)
      then let candidates' = insert (IndexedCompletion i resolved) candidates in
        if int (card candidates') > max_safe_executions
        then Inl (ModelError ''indexed safe executions exceed the cap'')
        else Inr (safe @ [resolved], candidates', raw_prefixes')
      else Inr (safe, candidates, raw_prefixes')))"

definition outcome_step ::
    "history_state \<Rightarrow> outcome_executions list \<times> indexed_completion set \<times> string list set list \<Rightarrow> nat \<times> pomset \<Rightarrow>
     (outcome_executions list \<times> indexed_completion set \<times> string list set list) result" where
  "outcome_step s acc ip =
     (case acc of (results, candidates, prefixes) \<Rightarrow>
      bind_r (linearizations (snd ip)) (\<lambda>ws.
      bind_r (fold_r (candidate_step s (fst ip) (snd ip)) ([], candidates, {[]}) ws) (\<lambda>(safe, candidates', raw_prefixes).
      Inr (results @ [\<lparr>oe_index = fst ip, oe_outcome = snd ip, oe_safe = safe\<rparr>], candidates',
           prefixes @ [raw_prefixes]))))"

text \<open>The lookup of the dictionary \<open>outcomes_by_raw_prefix\<close>.\<close>

definition compatible_outcomes :: "string list set list \<Rightarrow> trace \<Rightarrow> nat list" where
  "compatible_outcomes prefixes prefix = filter (\<lambda>i. raw prefix \<in> prefixes ! i) [0..<length prefixes]"

section \<open>The descending chain\<close>

definition prefix_witness_index :: "indexed_completion list \<Rightarrow> ((nat \<times> trace) \<times> indexed_completion) list" where
  "prefix_witness_index ordered =
     fold (\<lambda>c d. fold (\<lambda>slice d. setdefault (outcome_index c, slice) c d) (slices (trace c)) d) ordered []"

text \<open>The coverage obligations of a completion, in the order the code goes through them.\<close>

definition obligations :: "(trace \<Rightarrow> nat list) \<Rightarrow> indexed_completion \<Rightarrow> (trace \<times> nat) list" where
  "obligations fits c = concat (map (\<lambda>prefix. map (\<lambda>i. (prefix, i)) (fits prefix)) (slices (trace c)))"

definition find_cause ::
    "(trace \<Rightarrow> nat list) \<Rightarrow> nat \<Rightarrow> ((nat \<times> trace) \<times> indexed_completion) list \<Rightarrow> indexed_completion \<Rightarrow> pruning_cause option" where
  "find_cause fits rank witnesses c =
     map_option (\<lambda>(prefix, i). \<lparr>pc_rank = rank, pc_removed = c, pc_prefix = prefix, pc_outcome = i\<rparr>)
       (List.find (\<lambda>(prefix, i). map_of witnesses (i, prefix) = None) (obligations fits c))"

definition round_causes :: "(trace \<Rightarrow> nat list) \<Rightarrow> nat \<Rightarrow> indexed_completion list \<Rightarrow> pruning_cause list" where
  "round_causes fits rank current = List.map_filter (find_cause fits rank (prefix_witness_index current)) current"

lemma round_causes_removed: "pc_removed ` set (round_causes fits rank current) \<subseteq> set current"
  by (auto simp: round_causes_def List.map_filter_def find_cause_def split: option.splits)

function prune ::
    "(trace \<Rightarrow> nat list) \<Rightarrow> nat \<Rightarrow> indexed_completion list \<Rightarrow> indexed_completion set list \<Rightarrow> pruning_cause list \<Rightarrow>
     indexed_completion list \<times> indexed_completion set list \<times> pruning_cause list" where
  "prune fits rank current chain causes =
     (if current = [] then (current, chain, causes)
      else let new = round_causes fits rank current;
               removed = pc_removed ` set new in
        if removed = {} then (current, chain, causes)
        else let current' = filter (\<lambda>c. c \<notin> removed) current in
          prune fits (rank + 1) current' (chain @ [set current']) (causes @ new))"
  by pat_completeness auto
termination
proof (relation "measure (\<lambda>(_, _, current, _, _). length current)")
  fix fits rank current chain causes new removed current'
  assume a: "new = round_causes fits rank current" "removed = pc_removed ` set new" "removed \<noteq> {}"
    "current' = filter (\<lambda>c. c \<notin> removed) current"
  obtain c where c: "c \<in> removed" using a(3) by blast
  have "removed \<subseteq> set current" unfolding a(1,2) by (rule round_causes_removed)
  with c have "c \<in> set current" by (rule rev_subsetD)
  then have "length current' < length current" unfolding a(4) using c by (intro length_filter_less [of c]) simp_all
  then show "((fits, rank + 1, current', chain @ [set current'], causes @ new), (fits, rank, current, chain, causes))
      \<in> measure (\<lambda>(_, _, current, _, _). length current)" by simp
qed simp

declare prune.simps [simp del]

definition survivor_step ::
    "((nat \<times> trace) \<times> indexed_completion) list \<Rightarrow> indexed_completion \<Rightarrow> trace \<times> nat \<Rightarrow> survivor_witness result" where
  "survivor_step witnesses c ob =
     (case map_of witnesses (snd ob, fst ob) of
        None \<Rightarrow> Inl (AssertionError ''stabilized set lacks a coverage witness'')
      | Some d \<Rightarrow> Inr \<lparr>sw_source = c, sw_prefix = fst ob, sw_outcome = snd ob, sw_completion = d\<rparr>)"

definition impossibility :: "outcome_executions list \<Rightarrow> pruning_cause list \<Rightarrow> impossibility_witness" where
  "impossibility results causes =
     (if causes \<noteq> [] then let l = last causes in
        \<lparr>iw_rank = pc_rank l, iw_prefix = pc_prefix l, iw_outcome = pc_outcome l, iw_removed = Some (pc_removed l)\<rparr>
      else \<lparr>iw_rank = 0, iw_prefix = [],
            iw_outcome = (case List.find (\<lambda>r. oe_safe r = []) results of None \<Rightarrow> 0 | Some r \<Rightarrow> oe_index r),
            iw_removed = None\<rparr>)"

definition check_admission :: "history_state \<Rightarrow> contract \<Rightarrow> admission_result result" where
  "check_admission s c =
     bind_r (fold_r (outcome_step s) ([], {}, []) (List.enumerate 0 (outcomes c))) (\<lambda>(results, candidates, prefixes).
     let fits = compatible_outcomes prefixes;
         start = sorted_list_of_set candidates in
     (case prune fits 1 start [candidates] [] of (current, chain, causes) \<Rightarrow>
     let witnesses = prefix_witness_index current in
     bind_r (map_r (\<lambda>cand. map_r (survivor_step witnesses cand) (obligations fits cand)) current) (\<lambda>survivors.
     Inr \<lparr>admitted = (current \<noteq> []), ar_outcomes = results, candidate_completions = candidates,
          surviving_indexed_completions = set current, safe_completions = trace ` set current,
          language_w = set (concat (map (\<lambda>d. slices (trace d)) current)), descending_chain = chain,
          pruning_causes = causes, survivor_witnesses = concat survivors,
          impossibility_witness = (if current = [] then Some (impossibility results causes) else None)\<rparr>)))"

section \<open>The descending chain reaches the greatest robust set\<close>

definition extends :: "indexed_completion \<Rightarrow> nat \<Rightarrow> trace \<Rightarrow> bool" where
  "extends d i p \<longleftrightarrow> outcome_index d = i \<and> p \<in> set (slices (trace d))"

lemma witness_slices:
  "map_of (fold (\<lambda>slice d. setdefault (j, slice) c d) sl d) (i, p) =
     (case map_of d (i, p) of Some x \<Rightarrow> Some x | None \<Rightarrow> if i = j \<and> p \<in> set sl then Some c else None)"
  by (induction sl arbitrary: d) (auto simp: map_of_setdefault split: option.splits)

lemma witness_fold:
  "map_of (fold (\<lambda>c d. fold (\<lambda>slice d. setdefault (outcome_index c, slice) c d) (slices (trace c)) d) cs d) (i, p) =
     (case map_of d (i, p) of Some x \<Rightarrow> Some x | None \<Rightarrow> List.find (\<lambda>c. extends c i p) cs)"
proof (induction cs arbitrary: d)
  case (Cons c cs)
  show ?case
    unfolding fold_simps Cons.IH witness_slices by (auto simp: extends_def split: option.splits)
qed (simp split: option.splits)

lemma witness_lookup: "map_of (prefix_witness_index cs) (i, p) = List.find (\<lambda>c. extends c i p) cs"
  unfolding prefix_witness_index_def witness_fold by simp

lemma witness_None: "map_of (prefix_witness_index cs) (i, p) = None \<longleftrightarrow> \<not> (\<exists>d\<in>set cs. extends d i p)"
  unfolding witness_lookup find_None_iff by blast

lemma witness_Some: "map_of (prefix_witness_index cs) (i, p) = Some d \<Longrightarrow> d \<in> set cs \<and> extends d i p"
  unfolding witness_lookup find_Some_iff by (metis nth_mem)

definition covered :: "(trace \<Rightarrow> nat list) \<Rightarrow> indexed_completion set \<Rightarrow> indexed_completion \<Rightarrow> bool" where
  "covered fits B c \<longleftrightarrow> (\<forall>(p, i)\<in>set (obligations fits c). \<exists>d\<in>B. extends d i p)"

lemma covered_mono: "covered fits B c \<Longrightarrow> B \<subseteq> D \<Longrightarrow> covered fits D c"
  unfolding covered_def by blast

definition self_covered :: "(trace \<Rightarrow> nat list) \<Rightarrow> indexed_completion set \<Rightarrow> bool" where
  "self_covered fits B \<longleftrightarrow> (\<forall>c\<in>B. covered fits B c)"

lemma find_cause_None: "find_cause fits rank (prefix_witness_index cs) c = None \<longleftrightarrow> covered fits (set cs) c"
  unfolding find_cause_def covered_def option.map_disc_iff find_None_iff by (auto simp: witness_None)

lemma find_cause_Some:
  assumes "find_cause fits rank (prefix_witness_index cs) c = Some pc"
  shows "pc_rank pc = rank" "pc_removed pc = c" "(pc_prefix pc, pc_outcome pc) \<in> set (obligations fits c)"
    "\<not> (\<exists>d\<in>set cs. extends d (pc_outcome pc) (pc_prefix pc))"
proof -
  obtain p i where f: "List.find (\<lambda>(prefix, i). map_of (prefix_witness_index cs) (i, prefix) = None) (obligations fits c) = Some (p, i)"
    and pc: "pc = \<lparr>pc_rank = rank, pc_removed = c, pc_prefix = p, pc_outcome = i\<rparr>"
    using assms by (auto simp: find_cause_def)
  have "map_of (prefix_witness_index cs) (i, p) = None" "(p, i) \<in> set (obligations fits c)"
    using f unfolding find_Some_iff by (metis (mono_tags, lifting) case_prod_conv nth_mem)+
  then show "pc_rank pc = rank" "pc_removed pc = c" "(pc_prefix pc, pc_outcome pc) \<in> set (obligations fits c)"
    "\<not> (\<exists>d\<in>set cs. extends d (pc_outcome pc) (pc_prefix pc))"
    unfolding witness_None pc by simp_all
qed

lemma set_round_causes:
  "set (round_causes fits rank cs) = {pc. \<exists>c\<in>set cs. find_cause fits rank (prefix_witness_index cs) c = Some pc}"
  by (force simp: round_causes_def List.map_filter_def)

lemma round_removed:
  "c \<in> pc_removed ` set (round_causes fits rank cs) \<longleftrightarrow> c \<in> set cs \<and> \<not> covered fits (set cs) c"
proof
  assume "c \<in> pc_removed ` set (round_causes fits rank cs)"
  then obtain d pc where "d \<in> set cs" "find_cause fits rank (prefix_witness_index cs) d = Some pc" "c = pc_removed pc"
    unfolding set_round_causes by blast
  then show "c \<in> set cs \<and> \<not> covered fits (set cs) c"
    using find_cause_Some(2) find_cause_None by (metis option.distinct(1))
next
  assume c: "c \<in> set cs \<and> \<not> covered fits (set cs) c"
  then obtain pc where "find_cause fits rank (prefix_witness_index cs) c = Some pc"
    using find_cause_None [of fits rank cs c] by blast
  then show "c \<in> pc_removed ` set (round_causes fits rank cs)"
    unfolding set_round_causes using c find_cause_Some(2) by (metis (mono_tags, lifting) image_iff mem_Collect_eq)
qed

text \<open>One round of the loop.\<close>

lemma prune_step:
  "prune fits rank cs chain causes =
     (if \<forall>c\<in>set cs. covered fits (set cs) c then (cs, chain, causes)
      else let cs' = filter (covered fits (set cs)) cs in
        prune fits (rank + 1) cs' (chain @ [set cs']) (causes @ round_causes fits rank cs))"
proof -
  let ?removed = "pc_removed ` set (round_causes fits rank cs)"
  have removed: "?removed = {c \<in> set cs. \<not> covered fits (set cs) c}"
    by (rule set_eqI) (simp only: round_removed mem_Collect_eq)
  have stop: "?removed = {} \<longleftrightarrow> (\<forall>c\<in>set cs. covered fits (set cs) c)" unfolding removed by blast
  have filt: "filter (\<lambda>c. c \<notin> ?removed) cs = filter (covered fits (set cs)) cs"
    unfolding removed by (rule filter_cong [OF refl]) simp
  show ?thesis
  proof (cases "cs = []")
    case True
    then show ?thesis unfolding prune.simps [of fits rank cs chain causes] by simp
  next
    case False
    show ?thesis
      unfolding prune.simps [of fits rank cs chain causes] Let_def stop filt if_not_P [OF False] by (rule refl)
  qed
qed

definition cause_ok :: "(trace \<Rightarrow> nat list) \<Rightarrow> indexed_completion set list \<Rightarrow> pruning_cause \<Rightarrow> bool" where
  "cause_ok fits chain pc \<longleftrightarrow> 1 \<le> pc_rank pc \<and> pc_rank pc < length chain \<and>
     pc_removed pc \<in> chain ! (pc_rank pc - 1) \<and> pc_removed pc \<notin> chain ! pc_rank pc \<and>
     (pc_prefix pc, pc_outcome pc) \<in> set (obligations fits (pc_removed pc)) \<and>
     \<not> (\<exists>d\<in>chain ! (pc_rank pc - 1). extends d (pc_outcome pc) (pc_prefix pc))"

lemma cause_ok_append: "cause_ok fits chain pc \<Longrightarrow> cause_ok fits (chain @ rest) pc"
  by (auto simp: cause_ok_def nth_append)

lemma round_cause_ok:
  assumes "pc \<in> set (round_causes fits (length chain) cs)" and "chain \<noteq> []" and "last chain = set cs"
    and "cs' = filter (covered fits (set cs)) cs"
  shows "cause_ok fits (chain @ [set cs']) pc"
proof -
  obtain c where c: "c \<in> set cs" "find_cause fits (length chain) (prefix_witness_index cs) c = Some pc"
    using assms(1) unfolding set_round_causes by blast
  note pc = find_cause_Some [OF c(2)]
  have "\<not> covered fits (set cs) c" using find_cause_None [of fits "length chain" cs c] c(2) by simp
  then have "c \<notin> set cs'" using assms(4) by simp
  moreover have "(chain @ [set cs']) ! (length chain - 1) = set cs" "1 \<le> length chain"
    using assms(2,3) by (simp_all add: nth_append last_conv_nth Suc_leI)
  ultimately show ?thesis unfolding cause_ok_def pc(1,2) using c(1) pc(3,4) by simp
qed

lemma prune_spec:
  assumes "prune fits (length chain) cs chain causes = (cs', chain', causes')"
    and "chain \<noteq> []" and "last chain = set cs" and "\<forall>pc\<in>set causes. cause_ok fits chain pc"
  shows "self_covered fits (set cs') \<and> (\<forall>B. B \<subseteq> set cs \<longrightarrow> self_covered fits B \<longrightarrow> B \<subseteq> set cs') \<and>
    (\<exists>P. cs' = filter P cs) \<and> (\<forall>pc\<in>set causes'. cause_ok fits chain' pc) \<and>
    set cs \<subseteq> set cs' \<union> pc_removed ` set causes' \<and> set causes \<subseteq> set causes' \<and>
    hd chain' = hd chain \<and> last chain' = set cs' \<and> chain' \<noteq> [] \<and> (cs \<noteq> [] \<and> cs' = [] \<longrightarrow> causes' \<noteq> [])"
  using assms
proof (induction "length cs" arbitrary: cs chain causes rule: less_induct)
  case less
  let ?next = "filter (covered fits (set cs)) cs"
  show ?case
  proof (cases "\<forall>c\<in>set cs. covered fits (set cs) c")
    case True
    from less.prems(1) have eq: "cs' = cs" "chain' = chain" "causes' = causes"
      unfolding prune_step [of fits "length chain" cs chain causes] if_P [OF True] by simp_all
    have "cs = filter (\<lambda>_. True) cs" by simp
    then have "\<exists>P. cs = filter P cs" by blast
    then show ?thesis
      unfolding eq self_covered_def using True less.prems(2-4) by (intro conjI) simp_all
  next
    case False
    then have step: "prune fits (length (chain @ [set ?next])) ?next (chain @ [set ?next])
        (causes @ round_causes fits (length chain) cs) = (cs', chain', causes')"
      using less.prems(1) unfolding prune_step [of fits "length chain" cs chain causes] if_not_P [OF False] Let_def
      by (simp only: length_append_singleton Suc_eq_plus1)
    have "length ?next < length cs" using False by (auto intro: length_filter_less)
    moreover have "\<forall>pc\<in>set (causes @ round_causes fits (length chain) cs). cause_ok fits (chain @ [set ?next]) pc"
      using less.prems(4) round_cause_ok [OF _ less.prems(2,3) refl] by (auto intro: cause_ok_append)
    ultimately have "self_covered fits (set cs') \<and> (\<forall>B. B \<subseteq> set ?next \<longrightarrow> self_covered fits B \<longrightarrow> B \<subseteq> set cs') \<and>
        (\<exists>P. cs' = filter P ?next) \<and> (\<forall>pc\<in>set causes'. cause_ok fits chain' pc) \<and>
        set ?next \<subseteq> set cs' \<union> pc_removed ` set causes' \<and>
        set (causes @ round_causes fits (length chain) cs) \<subseteq> set causes' \<and>
        hd chain' = hd (chain @ [set ?next]) \<and> last chain' = set cs' \<and> chain' \<noteq> [] \<and> (?next \<noteq> [] \<and> cs' = [] \<longrightarrow> causes' \<noteq> [])"
      by (intro less.hyps [OF _ step]) simp_all
    then have IH: "self_covered fits (set cs')" "\<forall>B. B \<subseteq> set ?next \<longrightarrow> self_covered fits B \<longrightarrow> B \<subseteq> set cs'"
        "\<exists>P. cs' = filter P ?next" "\<forall>pc\<in>set causes'. cause_ok fits chain' pc"
        "set ?next \<subseteq> set cs' \<union> pc_removed ` set causes'"
        "set (causes @ round_causes fits (length chain) cs) \<subseteq> set causes'"
        "hd chain' = hd (chain @ [set ?next])" "last chain' = set cs'" "chain' \<noteq> []"
      by - (elim conjE, assumption)+
    have sub: "B \<subseteq> set ?next" if "B \<subseteq> set cs" "self_covered fits B" for B
      using that by (auto simp: self_covered_def intro: covered_mono)
    obtain P where P: "cs' = filter P ?next" using IH(3) by (rule exE)
    then have "cs' = filter (\<lambda>c. covered fits (set cs) c \<and> P c) cs" by (simp add: conj_commute)
    then have filt: "\<exists>P. cs' = filter P cs" by blast
    have "set cs \<subseteq> set ?next \<union> pc_removed ` set (round_causes fits (length chain) cs)"
      by (rule subsetI) (simp add: round_removed)
    also have "\<dots> \<subseteq> set cs' \<union> pc_removed ` set causes'" using IH(5) image_mono [OF IH(6), of pc_removed] by auto
    finally have all: "set cs \<subseteq> set cs' \<union> pc_removed ` set causes'" .
    have ne: "causes' \<noteq> []"
    proof -
      obtain c where "c \<in> set cs" "\<not> covered fits (set cs) c" using False by blast
      then have "round_causes fits (length chain) cs \<noteq> []" using round_removed [of c fits "length chain" cs] by auto
      then show ?thesis using IH(6) by auto
    qed
    have "\<forall>B. B \<subseteq> set cs \<longrightarrow> self_covered fits B \<longrightarrow> B \<subseteq> set cs'"
      by (intro allI impI) (rule IH(2) [rule_format, OF sub])
    moreover have "hd chain' = hd chain" using IH(7) less.prems(2) by simp
    moreover have "set causes \<subseteq> set causes'" using IH(6) by simp
    ultimately show ?thesis using IH(1,4,8,9) filt all ne by (intro conjI impI)
  qed
qed

section \<open>The candidates are the safe executions\<close>

text \<open>Resolution where every identifier is known.\<close>

fun resolved_from :: "(string \<Rightarrow> string) \<Rightarrow> string set \<Rightarrow> string list \<Rightarrow> trace" where
  "resolved_from cell seen [] = []"
| "resolved_from cell seen (i # w) =
     ResolvedEvent (if cell i \<in> seen then ''alias'' else ''fresh'') i (cell i) # resolved_from cell (insert (cell i) seen) w"

definition cell_of :: "pomset \<Rightarrow> string \<Rightarrow> string" where
  "cell_of p i = (case map_of (by_id p) i of None \<Rightarrow> [] | Some c \<Rightarrow> c)"

definition resolved :: "pomset \<Rightarrow> string list \<Rightarrow> string list \<Rightarrow> trace" where
  "resolved p w receipt_trace = resolved_from (cell_of p) (set receipt_trace) w"

lemma raw_resolved_from: "raw (resolved_from cell seen w) = w"
  by (induction w arbitrary: seen) (simp_all add: raw_def)

lemma raw_resolved [simp]: "raw (resolved p w R) = w"
  by (simp add: resolved_def raw_resolved_from)

lemma resolve_from_total:
  assumes "set w \<subseteq> set (ids p)"
  shows "resolve_from (by_id p) seen w = Inr (resolved_from (cell_of p) seen w)"
  using assms
proof (induction w arbitrary: seen)
  case (Cons i w)
  then have "i \<in> fst ` set (by_id p)" by (simp add: by_id_def ids_def image_image)
  then obtain c where "map_of (by_id p) i = Some c" by (metis domD dom_map_of_conv_image_fst)
  then show ?case using Cons by (simp add: cell_of_def)
qed simp

lemma resolve_enumerated_total:
  "linear_extension p w \<Longrightarrow> resolve_enumerated p w R = Inr (resolved p w R)"
  by (simp add: resolve_enumerated_def resolved_def resolve_from_total extension_ids)

definition safe_word :: "history_state \<Rightarrow> pomset \<Rightarrow> string list \<Rightarrow> bool" where
  "safe_word s p w \<longleftrightarrow> allows (policy s) (receipts s @ auth (resolved p w (receipts s)))"

definition safe_of :: "history_state \<Rightarrow> nat \<Rightarrow> pomset \<Rightarrow> indexed_completion set" where
  "safe_of s i p = (\<lambda>w. IndexedCompletion i (resolved p w (receipts s))) ` {w. linear_extension p w \<and> safe_word s p w}"

lemma candidates_fold:
  assumes "\<forall>w\<in>set ws. linear_extension p w" and "finite C" and "int (card C) \<le> max_safe_executions"
  shows "fold_r (candidate_step s i p) (safe, C, P) ws =
    (let C' = C \<union> (\<lambda>w. IndexedCompletion i (resolved p w (receipts s))) ` set (filter (safe_word s p) ws) in
     if int (card C') \<le> max_safe_executions
     then Inr (safe @ map (\<lambda>w. resolved p w (receipts s)) (filter (safe_word s p) ws), C', P \<union> (\<Union>w\<in>set ws. set (slices w)))
     else Inl (ModelError ''indexed safe executions exceed the cap''))"
  using assms
proof (induction ws arbitrary: safe C P)
  case (Cons w ws)
  let ?x = "IndexedCompletion i (resolved p w (receipts s))"
  let ?new = "(\<lambda>w. IndexedCompletion i (resolved p w (receipts s))) ` set (filter (safe_word s p) ws)"
  have res: "resolve_enumerated p w (receipts s) = Inr (resolved p w (receipts s))"
    using Cons.prems(1) by (simp add: resolve_enumerated_total)
  show ?case
  proof (cases "safe_word s p w")
    case False
    then have "candidate_step s i p (safe, C, P) w = Inr (safe, C, P \<union> set (slices w))"
      using res by (simp add: candidate_step_def safe_word_def Let_def)
    then show ?thesis using False Cons.IH [of C safe "P \<union> set (slices w)"] Cons.prems by (simp add: Let_def Un_assoc)
  next
    case True
    show ?thesis
    proof (cases "int (card (insert ?x C)) \<le> max_safe_executions")
      case le: True
      then have "candidate_step s i p (safe, C, P) w = Inr (safe @ [resolved p w (receipts s)], insert ?x C, P \<union> set (slices w))"
        using res True by (simp add: candidate_step_def safe_word_def Let_def)
      then show ?thesis
        using True le Cons.IH [of "insert ?x C" "safe @ [resolved p w (receipts s)]" "P \<union> set (slices w)"] Cons.prems
        by (simp add: Let_def Un_assoc)
    next
      case big: False
      then have "candidate_step s i p (safe, C, P) w = Inl (ModelError ''indexed safe executions exceed the cap'')"
        using res True by (simp add: candidate_step_def safe_word_def Let_def)
      moreover have "card (insert ?x C) \<le> card (insert ?x (C \<union> ?new))"
        using Cons.prems(2) by (intro card_mono) auto
      then have "\<not> int (card (insert ?x (C \<union> ?new))) \<le> max_safe_executions" using big by linarith
      ultimately show ?thesis using True by (simp add: Let_def)
    qed
  qed
qed simp

definition raw_prefixes_of :: "pomset \<Rightarrow> string list set" where
  "raw_prefixes_of p = (\<Union>w\<in>{w. linear_extension p w}. set (slices w))"

lemma Nil_in_slices: "[] \<in> set (slices tr)"
  unfolding set_slices by (rule range_eqI [of _ _ 0]) simp

lemma raw_prefixes_Nil:
  assumes "pomset_ok p"
  shows "insert [] (raw_prefixes_of p) = raw_prefixes_of p"
proof -
  have "lins (porder p) (sorted_list_of_set (set (ids p))) \<noteq> []"
    using assms by (intro lins_nonempty) (auto simp: pomset_ok_def)
  then obtain w where "w \<in> set (words_of p)" unfolding words_of_def by (metis list.set_intros(1) neq_Nil_conv)
  then have "linear_extension p w" by (simp add: set_words_of)
  then have "[] \<in> raw_prefixes_of p" using Nil_in_slices by (auto simp: raw_prefixes_of_def)
  then show ?thesis by (rule insert_absorb)
qed

lemma outcome_step_eq:
  assumes "pomset_ok p" and "finite C" and "int (card C) \<le> max_safe_executions"
  shows "outcome_step s (results, C, prefixes) (i, p) =
    (if int (card (C \<union> safe_of s i p)) \<le> max_safe_executions
     then Inr (results @ [\<lparr>oe_index = i, oe_outcome = p,
                 oe_safe = map (\<lambda>w. resolved p w (receipts s)) (filter (safe_word s p) (words_of p))\<rparr>],
               C \<union> safe_of s i p, prefixes @ [raw_prefixes_of p])
     else Inl (ModelError ''indexed safe executions exceed the cap''))"
proof -
  have lin: "linearizations p = Inr (words_of p)" by (simp add: linearizations_eq [OF assms(1)] words_of_def)
  have "safe_of s i p = (\<lambda>w. IndexedCompletion i (resolved p w (receipts s))) ` set (filter (safe_word s p) (words_of p))"
    by (simp add: safe_of_def set_words_of)
  moreover have "{[]} \<union> (\<Union>w\<in>set (words_of p). set (slices w)) = raw_prefixes_of p"
    using raw_prefixes_Nil [OF assms(1)] by (simp add: raw_prefixes_of_def set_words_of)
  ultimately show ?thesis
    using candidates_fold [of "words_of p" p C s i "[]" "{[]}"] assms(2,3)
    by (simp add: outcome_step_def lin Let_def set_words_of)
qed

lemma finite_safe_of: "finite (safe_of s i p)"
proof -
  have "{w. linear_extension p w \<and> safe_word s p w} \<subseteq> set (words_of p)" by (auto simp: set_words_of)
  then show ?thesis unfolding safe_of_def by (meson finite_imageI finite_set finite_subset)
qed

lemma outcomes_fold:
  assumes "\<forall>p\<in>set ps. pomset_ok p" and "finite C" and "int (card C) \<le> max_safe_executions"
  shows "fold_r (outcome_step s) (results, C, prefixes) (List.enumerate n ps) =
    (let C' = C \<union> (\<Union>(i, p)\<in>set (List.enumerate n ps). safe_of s i p) in
     if int (card C') \<le> max_safe_executions
     then Inr (results @ map (\<lambda>(i, p). \<lparr>oe_index = i, oe_outcome = p,
                 oe_safe = map (\<lambda>w. resolved p w (receipts s)) (filter (safe_word s p) (words_of p))\<rparr>) (List.enumerate n ps),
               C', prefixes @ map raw_prefixes_of ps)
     else Inl (ModelError ''indexed safe executions exceed the cap''))"
  using assms
proof (induction ps arbitrary: n C results prefixes)
  case (Cons p ps)
  let ?rest = "\<Union>(i, p)\<in>set (List.enumerate (Suc n) ps). safe_of s i p"
  have fin: "finite ?rest" using finite_safe_of by auto
  show ?case
  proof (cases "int (card (C \<union> safe_of s n p)) \<le> max_safe_executions")
    case True
    then show ?thesis
      using Cons.IH [of "C \<union> safe_of s n p" _ _ "Suc n"] Cons.prems outcome_step_eq [of p C s results prefixes n] finite_safe_of
      by (simp add: Un_assoc)
  next
    case False
    have "card (C \<union> safe_of s n p) \<le> card (C \<union> (safe_of s n p \<union> ?rest))"
      using Cons.prems(2) finite_safe_of fin by (intro card_mono) auto
    then have "\<not> int (card (C \<union> (safe_of s n p \<union> ?rest))) \<le> max_safe_executions" using False by linarith
    then show ?thesis using False Cons.prems outcome_step_eq [of p C s results prefixes n] by (simp add: Let_def)
  qed
qed simp

text \<open>The policy-safe executions of a contract, and the outcomes a resolved prefix leaves possible.\<close>

definition safe_executions :: "history_state \<Rightarrow> contract \<Rightarrow> indexed_completion set" where
  "safe_executions s c = {IndexedCompletion i (resolved p w (receipts s)) |i p w.
     i < length (outcomes c) \<and> p = outcomes c ! i \<and> linear_extension p w \<and>
     allows (policy s) (receipts s @ auth (resolved p w (receipts s)))}"

definition compatible :: "contract \<Rightarrow> trace \<Rightarrow> nat \<Rightarrow> bool" where
  "compatible c pre i \<longleftrightarrow> i < length (outcomes c) \<and>
     (\<exists>w. linear_extension (outcomes c ! i) w \<and> (\<exists>n. raw pre = take n w))"

lemma safe_executions_eq:
  "(\<Union>(i, p)\<in>set (List.enumerate 0 (outcomes c)). safe_of s i p) = safe_executions s c"
proof -
  have "(i, p) \<in> set (List.enumerate 0 (outcomes c)) \<longleftrightarrow> i < length (outcomes c) \<and> p = outcomes c ! i" for i p
    by (auto simp: in_set_enumerate_eq)
  then show ?thesis by (auto simp: safe_of_def safe_word_def safe_executions_def)
qed

lemma compatible_outcomes_iff:
  "i \<in> set (compatible_outcomes (map raw_prefixes_of (outcomes c)) pre) \<longleftrightarrow> compatible c pre i"
proof -
  have "raw pre \<in> raw_prefixes_of p \<longleftrightarrow> (\<exists>w. linear_extension p w \<and> (\<exists>n. raw pre = take n w))" for p
    unfolding raw_prefixes_of_def set_slices UN_iff mem_Collect_eq Bex_def image_iff by simp
  then show ?thesis by (simp add: compatible_outcomes_def compatible_def conj_commute cong: conj_cong)
qed

lemma finite_safe_executions: "finite (safe_executions s c)"
proof -
  have "finite (\<Union>(i, p)\<in>set (List.enumerate 0 (outcomes c)). safe_of s i p)" using finite_safe_of by auto
  then show ?thesis unfolding safe_executions_eq .
qed

section \<open>The admission check\<close>

text \<open>
  The specification: a set of safe executions is prefix-robust when at every prefix of every one
  of its members each outcome still compatible with the prefix can be completed inside the set.
\<close>

definition prefix_robust :: "history_state \<Rightarrow> contract \<Rightarrow> indexed_completion set \<Rightarrow> bool" where
  "prefix_robust s c B \<longleftrightarrow> B \<subseteq> safe_executions s c \<and>
     (\<forall>b\<in>B. \<forall>pre\<in>set (slices (trace b)). \<forall>i. compatible c pre i \<longrightarrow> (\<exists>d\<in>B. extends d i pre))"

abbreviation fits_of :: "contract \<Rightarrow> trace \<Rightarrow> nat list" where
  "fits_of c \<equiv> compatible_outcomes (map raw_prefixes_of (outcomes c))"

lemma obligations_iff: "(pre, i) \<in> set (obligations (fits_of c) d) \<longleftrightarrow> pre \<in> set (slices (trace d)) \<and> compatible c pre i"
  by (auto simp: obligations_def simp flip: compatible_outcomes_iff)

lemma prefix_robust_iff:
  "prefix_robust s c B \<longleftrightarrow> B \<subseteq> safe_executions s c \<and> self_covered (fits_of c) B"
proof -
  have "covered (fits_of c) B b \<longleftrightarrow> (\<forall>pre\<in>set (slices (trace b)). \<forall>i. compatible c pre i \<longrightarrow> (\<exists>d\<in>B. extends d i pre))" for b
    unfolding covered_def Ball_def split_paired_All prod.case obligations_iff by meson
  then show ?thesis unfolding prefix_robust_def self_covered_def Ball_def [of B] by presburger
qed

lemma survivors_total:
  assumes "self_covered fits (set cs)"
  shows "map_r (\<lambda>c. map_r (survivor_step (prefix_witness_index cs) c) (obligations fits c)) cs =
    Inr (map (\<lambda>c. map (\<lambda>ob. \<lparr>sw_source = c, sw_prefix = fst ob, sw_outcome = snd ob,
       sw_completion = the (map_of (prefix_witness_index cs) (snd ob, fst ob))\<rparr>) (obligations fits c)) cs)"
proof (intro map_r_total)
  fix c ob assume c: "c \<in> set cs" and ob: "ob \<in> set (obligations fits c)"
  then have "\<exists>d\<in>set cs. extends d (snd ob) (fst ob)"
    using assms unfolding self_covered_def covered_def by fastforce
  then obtain d where "map_of (prefix_witness_index cs) (snd ob, fst ob) = Some d"
    using witness_None [of cs "snd ob" "fst ob"] by blast
  then show "survivor_step (prefix_witness_index cs) c ob = Inr \<lparr>sw_source = c, sw_prefix = fst ob, sw_outcome = snd ob,
       sw_completion = the (map_of (prefix_witness_index cs) (snd ob, fst ob))\<rparr>"
    by (simp add: survivor_step_def)
qed

text \<open>Everything the check returns, when the executions stay within the cap.\<close>

definition executions_of :: "history_state \<Rightarrow> contract \<Rightarrow> outcome_executions list" where
  "executions_of s c = map (\<lambda>(i, p). \<lparr>oe_index = i, oe_outcome = p,
     oe_safe = map (\<lambda>w. resolved p w (receipts s)) (filter (safe_word s p) (words_of p))\<rparr>) (List.enumerate 0 (outcomes c))"

lemma check_admission_returns:
  assumes "contract_ok c" and "int (card (safe_executions s c)) \<le> max_safe_executions"
  obtains cs chain causes r where "check_admission s c = Inr r"
    "prune (fits_of c) 1 (sorted_list_of_set (safe_executions s c)) [safe_executions s c] [] = (cs, chain, causes)"
    "self_covered (fits_of c) (set cs)" "set cs \<subseteq> safe_executions s c"
    "\<And>B. B \<subseteq> safe_executions s c \<Longrightarrow> self_covered (fits_of c) B \<Longrightarrow> B \<subseteq> set cs"
    "\<forall>pc\<in>set causes. cause_ok (fits_of c) chain pc" "safe_executions s c \<subseteq> set cs \<union> pc_removed ` set causes"
    "hd chain = safe_executions s c" "last chain = set cs" "chain \<noteq> []"
    "safe_executions s c \<noteq> {} \<Longrightarrow> cs = [] \<Longrightarrow> causes \<noteq> []"
    "r = \<lparr>admitted = (cs \<noteq> []), ar_outcomes = executions_of s c, candidate_completions = safe_executions s c,
       surviving_indexed_completions = set cs, safe_completions = trace ` set cs,
       language_w = set (concat (map (\<lambda>d. slices (trace d)) cs)), descending_chain = chain, pruning_causes = causes,
       survivor_witnesses = concat (map (\<lambda>d. map (\<lambda>ob. \<lparr>sw_source = d, sw_prefix = fst ob, sw_outcome = snd ob,
         sw_completion = the (map_of (prefix_witness_index cs) (snd ob, fst ob))\<rparr>) (obligations (fits_of c) d)) cs),
       impossibility_witness = (if cs = [] then Some (impossibility (executions_of s c) causes) else None)\<rparr>"
proof -
  let ?C = "safe_executions s c" and ?start = "sorted_list_of_set (safe_executions s c)"
  obtain cs chain causes where p: "prune (fits_of c) 1 ?start [?C] [] = (cs, chain, causes)"
    by (cases "prune (fits_of c) 1 ?start [?C] []")
  have start: "set ?start = ?C" using finite_safe_executions by simp
  have p': "prune (fits_of c) (length [?C]) ?start [?C] [] = (cs, chain, causes)" using p by simp
  have spec: "self_covered (fits_of c) (set cs)" "\<forall>B. B \<subseteq> ?C \<longrightarrow> self_covered (fits_of c) B \<longrightarrow> B \<subseteq> set cs"
    "\<exists>P. cs = filter P ?start" "\<forall>pc\<in>set causes. cause_ok (fits_of c) chain pc"
    "?C \<subseteq> set cs \<union> pc_removed ` set causes" "hd chain = ?C" "last chain = set cs" "chain \<noteq> []"
    "?start \<noteq> [] \<and> cs = [] \<longrightarrow> causes \<noteq> []"
    using prune_spec [OF p'] unfolding start by simp_all
  obtain P where "cs = filter P ?start" using spec(3) by (rule exE)
  then have sub: "set cs \<subseteq> ?C" using start by auto
  have ne: "?start \<noteq> []" if "?C \<noteq> {}" using that start by auto
  have fold: "fold_r (outcome_step s) ([], {}, []) (List.enumerate 0 (outcomes c)) =
      Inr (executions_of s c, ?C, map raw_prefixes_of (outcomes c))"
    using outcomes_fold [of "outcomes c" "{}" s "[]" "[]" 0] contract_okD(1) [OF assms(1)] assms(2)
    by (simp add: Let_def executions_of_def safe_executions_eq max_safe_executions_def)
  show thesis
    using spec sub ne fold p survivors_total [OF spec(1)]
    by (intro that [of _ cs chain causes]) (simp_all add: check_admission_def Let_def)
qed

lemma check_admission_capped:
  assumes "contract_ok c"
  shows "is_ok (check_admission s c) \<longleftrightarrow> card (safe_executions s c) \<le> 100000"
proof (cases "int (card (safe_executions s c)) \<le> max_safe_executions")
  case True
  then show ?thesis
    using check_admission_returns [OF assms True] by (metis is_ok_simps(2) max_safe_executions_def of_nat_le_iff of_nat_numeral)
next
  case False
  then have "fold_r (outcome_step s) ([], {}, []) (List.enumerate 0 (outcomes c)) =
      Inl (ModelError ''indexed safe executions exceed the cap'')"
    using outcomes_fold [of "outcomes c" "{}" s "[]" "[]" 0] contract_okD(1) [OF assms]
    by (simp add: Let_def safe_executions_eq max_safe_executions_def)
  then show ?thesis using False by (simp add: check_admission_def max_safe_executions_def)
qed

text \<open>
  C3. The admission check computes the greatest prefix-robust set. On a valid contract it returns
  a result exactly when the policy-safe executions stay within the cap; the surviving completions
  are then prefix-robust and contain every prefix-robust set, the contract is admitted exactly
  when some nonempty set is prefix-robust, and the language it enables is the prefixes of the
  survivors.
\<close>

theorem check_admission_greatest_robust:
  assumes "contract_ok c"
  shows "(is_ok (check_admission s c) \<longleftrightarrow> card (safe_executions s c) \<le> 100000) \<and>
    (\<forall>r. check_admission s c = Inr r \<longrightarrow>
       prefix_robust s c (surviving_indexed_completions r) \<and>
       surviving_indexed_completions r = \<Union> {B. prefix_robust s c B} \<and>
       (admitted r \<longleftrightarrow> (\<exists>B. prefix_robust s c B \<and> B \<noteq> {})) \<and>
       language_w r = {pre. \<exists>d\<in>surviving_indexed_completions r. \<exists>n. pre = take n (trace d)})"
proof (intro conjI allI impI)
  show cap: "is_ok (check_admission s c) \<longleftrightarrow> card (safe_executions s c) \<le> 100000"
    by (rule check_admission_capped [OF assms])
  fix r assume r: "check_admission s c = Inr r"
  then have "int (card (safe_executions s c)) \<le> max_safe_executions" using cap by (simp add: max_safe_executions_def)
  then obtain cs where cs: "self_covered (fits_of c) (set cs)" "set cs \<subseteq> safe_executions s c"
    "\<And>B. B \<subseteq> safe_executions s c \<Longrightarrow> self_covered (fits_of c) B \<Longrightarrow> B \<subseteq> set cs"
    and res: "surviving_indexed_completions r = set cs" "admitted r = (cs \<noteq> [])"
      "language_w r = set (concat (map (\<lambda>d. slices (trace d)) cs))"
    by (rule check_admission_returns [OF assms]) (use r in simp)
  show robust: "prefix_robust s c (surviving_indexed_completions r)" unfolding prefix_robust_iff res using cs(1,2) by blast
  have sub: "B \<subseteq> set cs" if "prefix_robust s c B" for B using that cs(3) unfolding prefix_robust_iff by blast
  then show "surviving_indexed_completions r = \<Union> {B. prefix_robust s c B}" using robust unfolding res by blast
  show "admitted r \<longleftrightarrow> (\<exists>B. prefix_robust s c B \<and> B \<noteq> {})"
  proof
    assume "admitted r"
    then have "set cs \<noteq> {}" using res(2) by simp
    then show "\<exists>B. prefix_robust s c B \<and> B \<noteq> {}" using robust unfolding res(1) by blast
  next
    assume "\<exists>B. prefix_robust s c B \<and> B \<noteq> {}"
    then obtain B where "B \<subseteq> set cs" "B \<noteq> {}" using sub by blast
    then show "admitted r" unfolding res(2) by auto
  qed
  show "language_w r = {pre. \<exists>d\<in>surviving_indexed_completions r. \<exists>n. pre = take n (trace d)}"
    unfolding res(1,3) by (auto simp: set_slices)
qed

text \<open>
  C36. The certificates of the admission check are right. Every pruning cause names a completion
  that left the chain at its rank and an obligation of it that no completion of the previous set
  covers, and every candidate that does not survive has one; every survivor and each of its
  obligations has a survivor witness, and each witness is a survivor that covers the obligation;
  an impossibility witness is given exactly for a rejected contract.
\<close>

theorem check_admission_certificates:
  assumes "contract_ok c" and "check_admission s c = Inr r"
  shows "(\<forall>pc\<in>set (pruning_causes r). 1 \<le> pc_rank pc \<and> pc_rank pc < length (descending_chain r) \<and>
       pc_removed pc \<in> descending_chain r ! (pc_rank pc - 1) \<and> pc_removed pc \<notin> descending_chain r ! pc_rank pc \<and>
       pc_prefix pc \<in> set (slices (trace (pc_removed pc))) \<and> compatible c (pc_prefix pc) (pc_outcome pc) \<and>
       \<not> (\<exists>d\<in>descending_chain r ! (pc_rank pc - 1). extends d (pc_outcome pc) (pc_prefix pc))) \<and>
    safe_executions s c \<subseteq> surviving_indexed_completions r \<union> pc_removed ` set (pruning_causes r) \<and>
    (\<forall>d\<in>surviving_indexed_completions r. \<forall>pre\<in>set (slices (trace d)). \<forall>i. compatible c pre i \<longrightarrow>
       (\<exists>w\<in>set (survivor_witnesses r). sw_source w = d \<and> sw_prefix w = pre \<and> sw_outcome w = i)) \<and>
    (\<forall>w\<in>set (survivor_witnesses r). sw_completion w \<in> surviving_indexed_completions r \<and>
       extends (sw_completion w) (sw_outcome w) (sw_prefix w)) \<and>
    (admitted r \<longleftrightarrow> impossibility_witness r = None)"
proof -
  have "int (card (safe_executions s c)) \<le> max_safe_executions"
    using check_admission_capped [OF assms(1), of s] assms(2) by (simp add: max_safe_executions_def)
  then obtain cs chain causes where cs: "self_covered (fits_of c) (set cs)"
    and causes: "\<forall>pc\<in>set causes. cause_ok (fits_of c) chain pc" "safe_executions s c \<subseteq> set cs \<union> pc_removed ` set causes"
    and res: "surviving_indexed_completions r = set cs" "admitted r = (cs \<noteq> [])" "descending_chain r = chain"
      "pruning_causes r = causes" "impossibility_witness r = None \<longleftrightarrow> cs \<noteq> []"
      "survivor_witnesses r = concat (map (\<lambda>d. map (\<lambda>ob. \<lparr>sw_source = d, sw_prefix = fst ob, sw_outcome = snd ob,
         sw_completion = the (map_of (prefix_witness_index cs) (snd ob, fst ob))\<rparr>) (obligations (fits_of c) d)) cs)"
    by (rule check_admission_returns [OF assms(1)]) (use assms(2) in \<open>simp split: if_splits\<close>)
  have wit: "the (map_of (prefix_witness_index cs) (i, pre)) \<in> set cs \<and> extends (the (map_of (prefix_witness_index cs) (i, pre))) i pre"
    if d: "d \<in> set cs" and ob: "(pre, i) \<in> set (obligations (fits_of c) d)" for d pre i
  proof -
    have "\<exists>e\<in>set cs. extends e i pre" using cs d ob unfolding self_covered_def covered_def by blast
    then obtain e where "map_of (prefix_witness_index cs) (i, pre) = Some e" using witness_None [of cs i pre] by blast
    then show ?thesis using witness_Some by fastforce
  qed
  have "\<forall>pc\<in>set causes. 1 \<le> pc_rank pc \<and> pc_rank pc < length chain \<and>
       pc_removed pc \<in> chain ! (pc_rank pc - 1) \<and> pc_removed pc \<notin> chain ! pc_rank pc \<and>
       pc_prefix pc \<in> set (slices (trace (pc_removed pc))) \<and> compatible c (pc_prefix pc) (pc_outcome pc) \<and>
       \<not> (\<exists>d\<in>chain ! (pc_rank pc - 1). extends d (pc_outcome pc) (pc_prefix pc))"
    using causes(1) unfolding cause_ok_def obligations_iff by blast
  moreover have "\<exists>w\<in>set (survivor_witnesses r). sw_source w = d \<and> sw_prefix w = pre \<and> sw_outcome w = i"
    if "d \<in> set cs" "pre \<in> set (slices (trace d))" "compatible c pre i" for d pre i
  proof -
    have "(pre, i) \<in> set (obligations (fits_of c) d)" using that(2,3) by (simp add: obligations_iff)
    then show ?thesis using that(1) unfolding res by force
  qed
  moreover have "sw_completion w \<in> set cs \<and> extends (sw_completion w) (sw_outcome w) (sw_prefix w)"
    if "w \<in> set (survivor_witnesses r)" for w
    using that wit unfolding res by auto
  ultimately show ?thesis using causes(2) res(5) unfolding res(1-4) by blast
qed

end
