(* ===== verification/Cuts.thy ===== *)
theory Cuts
  imports Admission
begin

text \<open>
  History operations, cuts and the gate of \<open>artifact/exact_history_realization.py\<close>: the
  derivation of a rewrite from the trusted state, the compilation of a rewrite into a sealed
  cut, its installation, and the commitment of one protected call. A string stands for its UTF-8
  bytes; SHA-256 is a parameter from byte lists to hexadecimal digests.
\<close>

section \<open>Operations\<close>

datatype history_operation =
  ForkChoice string string string
| ForkParallel string string string
| RestoreReplace string string
| RestoreLive string string
| MergeSelect string string string
| MergeJoin string string

fun operation_name :: "history_operation \<Rightarrow> string" where
  "operation_name (ForkChoice _ _ _) = ''ForkChoice''"
| "operation_name (ForkParallel _ _ _) = ''ForkParallel''"
| "operation_name (RestoreReplace _ _) = ''RestoreReplace''"
| "operation_name (RestoreLive _ _) = ''RestoreLive''"
| "operation_name (MergeSelect _ _ _) = ''MergeSelect''"
| "operation_name (MergeJoin _ _) = ''MergeJoin''"

record history_rewrite =
  rw_operation :: string
  rw_contract :: contract
  rw_sources :: "string list"
  rw_targets :: "string list"
  next_state :: history_state

definition stamp :: "history_state \<Rightarrow> history_operation \<Rightarrow> string" where
  "stamp s op = ''v'' @ show_int (view_version s + 1) @ '':'' @ operation_name op"

definition target_owner :: "history_state \<Rightarrow> history_operation \<Rightarrow> string" where
  "target_owner s op = ''gen:'' @ stamp s op"

definition ungrouped_branch :: "history_state \<Rightarrow> string \<Rightarrow> live_branch result" where
  "ungrouped_branch s b =
     (case map_of (branch_map s) b of
        None \<Rightarrow> Inl (ModelError ''unknown live branch'')
      | Some br \<Rightarrow>
          if \<exists>g\<in>set (groups s). b \<in> set (members g)
          then Inl (ModelError ''the bounded flat-frontier model rewrites grouped branches only by Merge'')
          else Inr br)"

definition replace_branches :: "live_branch list \<Rightarrow> string set \<Rightarrow> live_branch list \<Rightarrow> live_branch list" where
  "replace_branches bs retired targets = filter (\<lambda>b. branch_id b \<notin> retired) bs @ targets"

section \<open>What remains of a contract\<close>

definition remaining_keeps :: "string set \<Rightarrow> pomset \<Rightarrow> bool" where
  "remaining_keeps relevant p \<longleftrightarrow> relevant \<subseteq> set (ids p) \<and>
     \<not> (\<exists>(before, after)\<in>porder p. after \<in> relevant \<and> before \<notin> relevant)"

definition remaining_pomset :: "string set \<Rightarrow> pomset \<Rightarrow> pomset result" where
  "remaining_pomset relevant p =
     mk_pomset (filter (\<lambda>n. logical_id n \<notin> relevant) (nodes p))
       (Set.filter (\<lambda>(before, after). before \<notin> relevant \<and> after \<notin> relevant) (porder p))"

definition contract_ids :: "contract \<Rightarrow> string set" where
  "contract_ids c = logical_id ` set (contract_nodes c)"

definition remaining_contract :: "contract \<Rightarrow> string list \<Rightarrow> contract result" where
  "remaining_contract c done_ids =
     (let relevant = set done_ids \<inter> contract_ids c in
      bind_r (map_r (remaining_pomset relevant) (filter (remaining_keeps relevant) (outcomes c))) (\<lambda>os.
      if os = [] then Inl (ModelError ''completed logical occurrences contradict every outcome'')
      else deduplicated_contract os))"

section \<open>Rewrites\<close>

record rewrite_parts =
  part_contract :: contract
  part_branches :: "live_branch list"
  part_groups :: "frontier_group list"
  part_affected :: "string list"
  part_sources :: "string list"
  part_targets :: "string list"

definition fork_parts :: "history_state \<Rightarrow> history_operation \<Rightarrow> group_mode \<Rightarrow> string \<Rightarrow> string \<Rightarrow> string \<Rightarrow> rewrite_parts result" where
  "fork_parts s op mode b left_leaf right_leaf =
     bind_r (ungrouped_branch s b) (\<lambda>source.
     let left_id = stamp s op @ '':left''; right_id = stamp s op @ '':right'' in
     bind_r (leaf s left_leaf) (\<lambda>l0. bind_r (tagged l0 left_id) (\<lambda>left.
     bind_r (leaf s right_leaf) (\<lambda>r0. bind_r (tagged r0 right_id) (\<lambda>right.
     bind_r (if mode = ChoiceMode then choice left right else parallel left right) (\<lambda>c.
     bind_r (mk_live_branch left_id left (target_owner s op)) (\<lambda>lb.
     bind_r (mk_live_branch right_id right (target_owner s op)) (\<lambda>rb.
     bind_r (mk_group (stamp s op @ '':group'') mode [left_id, right_id] None) (\<lambda>g.
     Inr \<lparr>part_contract = c, part_branches = replace_branches (branches s) {branch_id source} [lb, rb],
          part_groups = groups s @ [g], part_affected = [branch_id source], part_sources = [branch_owner source],
          part_targets = [left_id, right_id]\<rparr>)))))))))"

definition restore_replace_parts :: "history_state \<Rightarrow> history_operation \<Rightarrow> string \<Rightarrow> string \<Rightarrow> rewrite_parts result" where
  "restore_replace_parts s op b cp =
     bind_r (ungrouped_branch s b) (\<lambda>source.
     let target_id = stamp s op @ '':clone'' in
     bind_r (checkpoint s cp) (\<lambda>c0. bind_r (tagged c0 target_id) (\<lambda>target.
     bind_r (mk_live_branch target_id target (target_owner s op)) (\<lambda>tb.
     Inr \<lparr>part_contract = target, part_branches = replace_branches (branches s) {branch_id source} [tb],
          part_groups = groups s, part_affected = [branch_id source], part_sources = [branch_owner source],
          part_targets = [target_id]\<rparr>))))"

definition restore_live_parts :: "history_state \<Rightarrow> history_operation \<Rightarrow> string \<Rightarrow> string \<Rightarrow> rewrite_parts result" where
  "restore_live_parts s op b cp =
     bind_r (ungrouped_branch s b) (\<lambda>source.
     let carry_id = stamp s op @ '':carry''; clone_id = stamp s op @ '':clone'' in
     bind_r (remaining_contract (branch_contract source) (completed s)) (\<lambda>carried.
     bind_r (checkpoint s cp) (\<lambda>c0. bind_r (tagged c0 clone_id) (\<lambda>cloned.
     bind_r (parallel carried cloned) (\<lambda>c.
     bind_r (mk_live_branch carry_id carried (target_owner s op)) (\<lambda>cb.
     bind_r (mk_live_branch clone_id cloned (target_owner s op)) (\<lambda>nb.
     bind_r (mk_group (stamp s op @ '':group'') ParallelMode [carry_id, clone_id] None) (\<lambda>g.
     Inr \<lparr>part_contract = c, part_branches = replace_branches (branches s) {branch_id source} [cb, nb],
          part_groups = groups s @ [g], part_affected = [branch_id source], part_sources = [branch_owner source],
          part_targets = [carry_id, clone_id]\<rparr>))))))))"

text \<open>The common end of the two merges: the joined leaf after what remains.\<close>

definition merge_parts :: "history_state \<Rightarrow> history_operation \<Rightarrow> frontier_group \<Rightarrow> contract \<Rightarrow> string \<Rightarrow> rewrite_parts result" where
  "merge_parts s op g remaining join_leaf =
     (let target_id = stamp s op @ '':target'' in
      bind_r (leaf s join_leaf) (\<lambda>j0. bind_r (tagged j0 (target_id @ '':join'')) (\<lambda>joined.
      bind_r (sequence remaining joined) (\<lambda>c.
      bind_r (mk_live_branch target_id c (target_owner s op)) (\<lambda>tb.
      bind_r (map_r (dict_get (branch_map s)) (members g)) (\<lambda>bs.
      Inr \<lparr>part_contract = c, part_branches = replace_branches (branches s) (set (members g)) [tb],
           part_groups = filter (\<lambda>h. h \<noteq> g) (groups s), part_affected = members g,
           part_sources = sorted_list_of_set (set (map branch_owner bs)), part_targets = [target_id]\<rparr>))))))"

definition merge_select_parts :: "history_state \<Rightarrow> history_operation \<Rightarrow> string \<Rightarrow> string \<Rightarrow> string \<Rightarrow> rewrite_parts result" where
  "merge_select_parts s op gid winner join_leaf =
     (case map_of (group_map s) gid of
        None \<Rightarrow> Inl (ModelError ''unknown choice group'')
      | Some g \<Rightarrow>
          if group_mode g \<noteq> ChoiceMode \<or> winner \<notin> set (members g)
          then Inl (ModelError ''MergeSelect requires a member of a choice group'')
          else if selected g \<noteq> None \<and> selected g \<noteq> Some winner
          then Inl (ModelError ''MergeSelect contradicts the resolved choice arm'')
          else bind_r (dict_get (branch_map s) winner) (\<lambda>w.
            bind_r (remaining_contract (branch_contract w) (completed s)) (\<lambda>remaining.
            merge_parts s op g remaining join_leaf)))"

definition merge_join_parts :: "history_state \<Rightarrow> history_operation \<Rightarrow> string \<Rightarrow> string \<Rightarrow> rewrite_parts result" where
  "merge_join_parts s op gid join_leaf =
     (case map_of (group_map s) gid of
        None \<Rightarrow> Inl (ModelError ''unknown parallel group'')
      | Some g \<Rightarrow>
          if group_mode g \<noteq> ParallelMode then Inl (ModelError ''MergeJoin requires a parallel group'')
          else bind_r (map_r (\<lambda>m. bind_r (dict_get (branch_map s) m) (\<lambda>b.
              remaining_contract (branch_contract b) (completed s))) (members g)) (\<lambda>parts.
            bind_r (fold_r parallel (hd parts) (tl parts)) (\<lambda>combined.
            merge_parts s op g combined join_leaf)))"

fun derive_parts :: "history_state \<Rightarrow> history_operation \<Rightarrow> rewrite_parts result" where
  "derive_parts s (ForkChoice b l r) = fork_parts s (ForkChoice b l r) ChoiceMode b l r"
| "derive_parts s (ForkParallel b l r) = fork_parts s (ForkParallel b l r) ParallelMode b l r"
| "derive_parts s (RestoreReplace b cp) = restore_replace_parts s (RestoreReplace b cp) b cp"
| "derive_parts s (RestoreLive b cp) = restore_live_parts s (RestoreLive b cp) b cp"
| "derive_parts s (MergeSelect g w j) = merge_select_parts s (MergeSelect g w j) g w j"
| "derive_parts s (MergeJoin g j) = merge_join_parts s (MergeJoin g j) g j"

definition derive_rewrite :: "history_state \<Rightarrow> history_operation \<Rightarrow> history_rewrite result" where
  "derive_rewrite s op =
     bind_r (derive_parts s op) (\<lambda>parts.
     let edge = \<lparr>edge_operation = operation_name op, affected = part_affected parts, edge_targets = part_targets parts\<rparr> in
     bind_r (mk_history_state (s\<lparr>branches := part_branches parts, groups := part_groups parts,
        provenance := provenance s @ [edge], view_version := view_version s + 1\<rparr>)) (\<lambda>next.
     Inr \<lparr>rw_operation = operation_name op, rw_contract = part_contract parts, rw_sources = part_sources parts,
          rw_targets = part_targets parts, next_state = next\<rparr>))"

section \<open>Cuts\<close>

text \<open>The input of the digest: every identifier after its length in eight bytes.\<close>

definition be64 :: "nat \<Rightarrow> nat list" where
  "be64 n = map (\<lambda>k. n div 256 ^ k mod 256) [7, 6, 5, 4, 3, 2, 1, 0]"

definition frame :: "string \<Rightarrow> nat list" where
  "frame i = be64 (length i) @ map of_char i"

definition logical_frontier_digest :: "(nat list \<Rightarrow> string) \<Rightarrow> string list \<Rightarrow> string" where
  "logical_frontier_digest sha256 done_ids = ''sha256:'' @ sha256 (concat (map frame done_ids))"

type_synonym frontier = "live_branch list \<times> frontier_group list \<times> named_contract list \<times> named_contract list"

definition frontier_signature :: "history_state \<Rightarrow> frontier" where
  "frontier_signature s =
     (sort_key branch_id (branches s), sort_key group_id (groups s), checkpoints s, leaf_registry s)"

record cut_seal =
  seal_operation :: history_operation
  seal_view :: int
  seal_policy :: int
  seal_receipts :: "string list"
  seal_completed :: "string list"
  seal_digest :: string
  seal_frontier :: frontier
  seal_sources :: "string list"
  seal_contract :: contract

record compiled_cut =
  cut_rewrite :: history_rewrite
  cut_admission :: admission_result
  cut_seal_of :: "cut_seal option"

definition compile_cut :: "(nat list \<Rightarrow> string) \<Rightarrow> history_state \<Rightarrow> history_operation \<Rightarrow> compiled_cut result" where
  "compile_cut sha256 s op =
     bind_r (derive_rewrite s op) (\<lambda>rw.
     bind_r (check_admission s (rw_contract rw)) (\<lambda>adm.
     Inr \<lparr>cut_rewrite = rw, cut_admission = adm,
          cut_seal_of = (if admitted adm
            then Some \<lparr>seal_operation = op, seal_view = view_version s, seal_policy = policy_version s,
                   seal_receipts = receipts s, seal_completed = completed s,
                   seal_digest = logical_frontier_digest sha256 (completed s),
                   seal_frontier = frontier_signature s, seal_sources = rw_sources rw,
                   seal_contract = rw_contract rw\<rparr>
            else None)\<rparr>))"

definition install_cut :: "(nat list \<Rightarrow> string) \<Rightarrow> history_state \<Rightarrow> compiled_cut \<Rightarrow> history_state result" where
  "install_cut sha256 current compiled =
     (case cut_seal_of compiled of
        None \<Rightarrow> Inl (ModelError ''a rejected history rewrite is not installable'')
      | Some seal \<Rightarrow>
          if (view_version current, policy_version current, receipts current, completed current,
              logical_frontier_digest sha256 (completed current), frontier_signature current) \<noteq>
             (seal_view seal, seal_policy seal, seal_receipts seal, seal_completed seal, seal_digest seal, seal_frontier seal)
          then Inl (StaleCut ''receipt, logical, policy, view, or frontier state changed'')
          else bind_r (derive_rewrite current (seal_operation seal)) (\<lambda>rw.
            if rw_sources rw \<noteq> seal_sources seal \<or> rw_contract rw \<noteq> seal_contract seal
            then Inl (StaleCut ''trusted rederivation no longer matches the cut seal'')
            else bind_r (check_admission current (rw_contract rw)) (\<lambda>adm.
              if \<not> admitted adm then Inl (StaleCut ''trusted rederivation is no longer policy admissible'')
              else mk_history_state ((next_state rw)\<lparr>closed_owners := closed_owners current \<union> set (rw_sources rw)\<rparr>))))"

section \<open>The gate\<close>

record gate_invocation =
  gate_owner :: string
  gate_id :: string
  gate_cell :: string

definition gate_matches :: "history_state \<Rightarrow> gate_invocation \<Rightarrow> live_branch list" where
  "gate_matches s call =
     concat (map (\<lambda>b. map (\<lambda>_. b) (filter (\<lambda>n. logical_id n = gate_id call \<and> occ_cell n = gate_cell call)
       (contract_nodes (branch_contract b)))) (filter (\<lambda>b. branch_owner b = gate_owner call) (branches s)))"

definition gate_enabled :: "contract \<Rightarrow> string \<Rightarrow> bool" where
  "gate_enabled c i \<longleftrightarrow> (\<exists>p\<in>set (outcomes c). i \<in> set (ids p) \<and> \<not> (\<exists>(_, after)\<in>porder p. after = i))"

definition select_arm :: "string \<Rightarrow> frontier_group \<Rightarrow> frontier_group result" where
  "select_arm b g =
     (if b \<notin> set (members g) \<or> group_mode g \<noteq> ChoiceMode then Inr g
      else if selected g \<noteq> None \<and> selected g \<noteq> Some b
      then Inl (ModelError ''the other choice arm has already been selected'')
      else let g' = g\<lparr>selected := Some b\<rparr> in bind_r (group_post_init g') (\<lambda>_. Inr g'))"

definition commit_gate :: "history_state \<Rightarrow> gate_invocation \<Rightarrow> (history_state \<times> resolved_event option) result" where
  "commit_gate s call =
     (if gate_owner call \<in> closed_owners s then Inl (ClosedGeneration ''controller generation is closed'')
      else case gate_matches s call of
        [] \<Rightarrow> Inl (ModelError ''gate binding is not owned by an active generation'')
      | branch # _ \<Rightarrow>
          if gate_id call \<in> set (completed s) then Inr (s, None)
          else bind_r (remaining_contract (branch_contract branch) (completed s)) (\<lambda>remaining.
            if \<not> gate_enabled remaining (gate_id call)
            then Inl (ModelError ''logical occurrence is not causally enabled'')
            else
              let is_alias = gate_cell call \<in> set (receipts s);
                  event = ResolvedEvent (if is_alias then ''alias'' else ''fresh'') (gate_id call) (gate_cell call);
                  receipts' = (if is_alias then receipts s else receipts s @ [gate_cell call]) in
              if \<not> is_alias \<and> \<not> allows (policy s) receipts'
              then Inl (ModelError ''fresh commitment would violate the authority policy'')
              else bind_r (map_r (select_arm (branch_id branch)) (groups s)) (\<lambda>groups'.
                bind_r (mk_history_state (s\<lparr>groups := groups', receipts := receipts',
                   completed := completed s @ [gate_id call]\<rparr>)) (\<lambda>next. Inr (next, Some event)))))"

end
