(* ===== verification/CutRuns.thy ===== *)
theory CutRuns
  imports Cuts
begin

text \<open>
  What holds of cuts and of the gate: the objects a rewrite builds are well formed, a cut
  compiled and installed on the same state goes through, an installed cut fences its sources
  for good, the receipts of a run are its fresh commitments, the gate completes every safe
  linearization of a branch with one outcome, and the digest of the logical frontier determines it.
\<close>

section \<open>Well-formed objects\<close>

definition occurrences_ok :: "contract \<Rightarrow> bool" where
  "occurrences_ok c \<longleftrightarrow> (\<forall>p\<in>set (outcomes c). \<forall>n\<in>set (nodes p). logical_id n \<noteq> [] \<and> occ_cell n \<noteq> [])"

definition contract_valid :: "contract \<Rightarrow> bool" where
  "contract_valid c \<longleftrightarrow> contract_ok c \<and> occurrences_ok c"

definition objects_ok :: "history_state \<Rightarrow> bool" where
  "objects_ok s \<longleftrightarrow> policy_ok (policy s) \<and> (\<forall>b\<in>set (branches s). contract_valid (branch_contract b)) \<and>
     (\<forall>v\<in>set (checkpoints s) \<union> set (leaf_registry s). contract_valid (nc_contract v)) \<and>
     (\<forall>g\<in>set (groups s). group_post_init g = Inr ())"

definition history_valid :: "history_state \<Rightarrow> bool" where
  "history_valid s \<longleftrightarrow> history_ok s \<and> objects_ok s"

definition residual :: "string set \<Rightarrow> pomset \<Rightarrow> pomset" where
  "residual relevant p = \<lparr>nodes = filter (\<lambda>n. logical_id n \<notin> relevant) (nodes p),
     porder = Set.filter (\<lambda>(before, after). before \<notin> relevant \<and> after \<notin> relevant) (porder p)\<rparr>"

lemma ids_residual [simp]: "ids (residual R p) = filter (\<lambda>i. i \<notin> R) (ids p)"
  by (simp add: residual_def ids_def filter_map comp_def)

lemma residual_ok:
  assumes "pomset_ok p"
  shows "pomset_ok (residual R p)"
proof -
  have p: "length (nodes p) \<le> 8" "distinct (ids p)" "finite (porder p)" "porder p \<subseteq> set (ids p) \<times> set (ids p)" "acyclic (porder p)"
    using assms by (simp_all add: pomset_ok_def)
  have sub: "porder (residual R p) \<subseteq> porder p" by (auto simp: residual_def)
  have "length (nodes (residual R p)) \<le> length (nodes p)" by (simp add: residual_def)
  then have "length (nodes (residual R p)) \<le> 8" using p(1) by (rule order_trans)
  moreover have "distinct (ids (residual R p))" using p(2) by simp
  moreover have "porder (residual R p) \<subseteq> set (ids (residual R p)) \<times> set (ids (residual R p))"
    using p(4) by (auto simp: residual_def ids_def)
  ultimately show ?thesis
    using finite_subset [OF sub p(3)] acyclic_subset [OF p(5) sub] by (simp only: pomset_ok_def simp_thms)
qed

lemma remaining_pomset_eq:
  assumes "pomset_ok p"
  shows "remaining_pomset R p = Inr (residual R p)"
proof -
  have "finite (porder (residual R p))" using residual_ok [OF assms] by (simp add: pomset_ok_def)
  then show ?thesis
    using mk_pomset_iff [of "porder (residual R p)" "nodes (residual R p)" "residual R p"] residual_ok [OF assms]
    by (simp add: remaining_pomset_def residual_def)
qed

lemma remaining_contract_eq:
  assumes "contract_ok c"
  shows "remaining_contract c d =
    (let R = set d \<inter> contract_ids c; os = map (residual R) (filter (remaining_keeps R) (outcomes c)) in
     if os = [] then Inl (ModelError ''completed logical occurrences contradict every outcome'')
     else deduplicated_contract os)"
proof -
  have "map_r (remaining_pomset R) (filter P (outcomes c)) = Inr (map (residual R) (filter P (outcomes c)))" for R P
    using contract_okD(1) [OF assms] by (intro map_r_total) (simp add: remaining_pomset_eq)
  then show ?thesis by (simp add: remaining_contract_def Let_def)
qed

lemma remaining_contract_valid:
  assumes "contract_valid c" and "remaining_contract c d = Inr r"
  shows "contract_valid r"
proof -
  have c: "contract_ok c" "occurrences_ok c" using assms(1) by (simp_all add: contract_valid_def)
  let ?R = "set d \<inter> contract_ids c"
  let ?os = "map (residual ?R) (filter (remaining_keeps ?R) (outcomes c))"
  have d: "deduplicated_contract ?os = Inr r"
    using assms(2) by (simp add: remaining_contract_eq [OF c(1)] Let_def split: if_splits)
  have "\<forall>q\<in>set ?os. pomset_ok q" using contract_okD(1) [OF c(1)] by (auto intro: residual_ok)
  note dd = deduplicated_contract_words [OF this d]
  have "occurrences_ok r" using c(2) unfolding occurrences_ok_def dd(3) by (auto simp: residual_def)
  then show ?thesis using dd(1) by (simp add: contract_valid_def)
qed

lemma map_r_mk_occurrence:
  assumes "map_r (\<lambda>n. mk_occurrence (f n) (g n)) ns = Inr ms" and "m \<in> set ms"
  shows "logical_id m \<noteq> [] \<and> occ_cell m \<noteq> []"
  using assms by (induction ns arbitrary: ms) (auto simp: mk_occurrence_def split: if_splits)

lemma tagged_valid:
  assumes "contract_valid c" and "tagged c tag = Inr d"
  shows "contract_valid d"
proof -
  have c: "contract_ok c" using assms(1) by (simp add: contract_valid_def)
  note t = tagged_ok [OF c assms(2)]
  have "logical_id m \<noteq> [] \<and> occ_cell m \<noteq> []" if q: "q \<in> set (outcomes d)" "m \<in> set (nodes q)" for q m
  proof -
    obtain p where p: "p \<in> set (outcomes c)" "tagged_pomset tag p = Inr q" using q(1) unfolding t(3) by blast
    let ?E = "map_prod (retag tag) (retag tag) ` porder p"
    obtain ms where ms: "map_r (\<lambda>n. mk_occurrence (retag tag (logical_id n)) (occ_cell n)) (nodes p) = Inr ms"
      and mk: "mk_pomset ms ?E = Inr q"
      using p(2) by (auto simp: tagged_pomset_def)
    have "finite ?E" using contract_okD(1) [OF c p(1)] by (simp add: pomset_ok_def)
    then have "nodes q = ms" using mk_pomset_iff [of ?E ms q] mk by auto
    then show ?thesis using map_r_mk_occurrence [OF ms] q(2) by simp
  qed
  then show ?thesis using t(1) by (simp add: contract_valid_def occurrences_ok_def)
qed

lemma combined_occurrences:
  assumes "contract_valid l" and "contract_valid r"
    and "set (outcomes c) = {z. \<exists>p\<in>set (outcomes l). \<exists>q\<in>set (outcomes r). combine b p q = Inr z}"
  shows "occurrences_ok c"
  unfolding occurrences_ok_def
proof (intro ballI)
  fix z n assume z: "z \<in> set (outcomes c)" and n: "n \<in> set (nodes z)"
  obtain p q where pq: "p \<in> set (outcomes l)" "q \<in> set (outcomes r)" "combine b p q = Inr z" using z unfolding assms(3) by blast
  have "pomset_ok p" "pomset_ok q" using pq assms(1,2) by (auto simp: contract_valid_def dest: contract_okD(1))
  then have "nodes z = sort (nodes p @ nodes q)" using combine_Inr(5) pq(3) by blast
  then have "n \<in> set (nodes p) \<union> set (nodes q)" using n by simp
  then show "logical_id n \<noteq> [] \<and> occ_cell n \<noteq> []"
    using pq(1,2) assms(1,2) by (auto simp: contract_valid_def occurrences_ok_def)
qed

lemma product_valid:
  assumes "contract_valid l" and "contract_valid r"
  shows "choice l r = Inr c \<Longrightarrow> contract_valid c" "parallel l r = Inr c \<Longrightarrow> contract_valid c"
    "sequence l r = Inr c \<Longrightarrow> contract_valid c"
proof -
  have ok: "contract_ok l" "contract_ok r" "occurrences_ok l" "occurrences_ok r"
    using assms by (simp_all add: contract_valid_def)
  show "contract_valid c" if "choice l r = Inr c"
    using choice_ok [OF ok(1,2) that] ok(3,4) by (auto simp: contract_valid_def occurrences_ok_def)
  show "contract_valid c" if "parallel l r = Inr c"
    using parallel_ok(1,3) [OF ok(1,2) that] combined_occurrences [OF assms] by (simp add: contract_valid_def)
  show "contract_valid c" if "sequence l r = Inr c"
    using sequence_ok(1,3) [OF ok(1,2) that] combined_occurrences [OF assms] by (simp add: contract_valid_def)
qed

section \<open>Rewrites are well formed\<close>

lemma lookup_named_Inr: "lookup_named vs n = Inr c \<Longrightarrow> \<exists>v\<in>set vs. nc_contract v = c"
proof -
  assume "lookup_named vs n = Inr c"
  then have "map nc_contract (filter (\<lambda>v. nc_name v = n) vs) = [c]"
    by (auto simp: lookup_named_def split: list.splits)
  then have "c \<in> set (map nc_contract (filter (\<lambda>v. nc_name v = n) vs))" by simp
  then show ?thesis by auto
qed

lemma objects_okD:
  assumes "objects_ok s"
  shows "\<And>b. b \<in> set (branches s) \<Longrightarrow> contract_valid (branch_contract b)"
    "\<And>n c. leaf s n = Inr c \<Longrightarrow> contract_valid c" "\<And>n c. checkpoint s n = Inr c \<Longrightarrow> contract_valid c"
    "\<And>g. g \<in> set (groups s) \<Longrightarrow> group_post_init g = Inr ()" "policy_ok (policy s)"
proof -
  show "contract_valid c" if "leaf s n = Inr c" for n c
    using lookup_named_Inr [OF that [unfolded leaf_def]] assms by (auto simp: objects_ok_def)
  show "contract_valid c" if "checkpoint s n = Inr c" for n c
    using lookup_named_Inr [OF that [unfolded checkpoint_def]] assms by (auto simp: objects_ok_def)
qed (use assms in \<open>auto simp: objects_ok_def\<close>)

lemma branch_map_Some: "map_of (branch_map s) b = Some br \<Longrightarrow> br \<in> set (branches s) \<and> branch_id br = b"
  by (auto simp: branch_map_def dest!: map_of_SomeD)

lemma group_map_Some: "map_of (group_map s) g = Some gr \<Longrightarrow> gr \<in> set (groups s) \<and> group_id gr = g"
  by (auto simp: group_map_def dest!: map_of_SomeD)

lemma ungrouped_branch_Inr: "ungrouped_branch s b = Inr br \<Longrightarrow> br \<in> set (branches s) \<and> branch_id br = b"
  by (auto simp: ungrouped_branch_def dest: branch_map_Some split: option.splits if_splits)

lemma mk_live_branch_Inr:
  "mk_live_branch b c ow = Inr br \<longleftrightarrow> b \<noteq> [] \<and> ow \<noteq> [] \<and> br = \<lparr>branch_id = b, branch_contract = c, branch_owner = ow\<rparr>"
  by (auto simp: mk_live_branch_def)

lemma mk_group_Inr:
  "mk_group i m ms sel = Inr g \<longleftrightarrow> group_post_init g = Inr () \<and> g = \<lparr>group_id = i, group_mode = m, members = ms, selected = sel\<rparr>"
  by (auto simp: mk_group_def Let_def)

definition parts_ok :: "rewrite_parts \<Rightarrow> bool" where
  "parts_ok parts \<longleftrightarrow> contract_valid (part_contract parts) \<and>
     (\<forall>b\<in>set (part_branches parts). contract_valid (branch_contract b)) \<and>
     (\<forall>g\<in>set (part_groups parts). group_post_init g = Inr ())"

lemma replace_branches_valid:
  "objects_ok s \<Longrightarrow> \<forall>b\<in>set ts. contract_valid (branch_contract b) \<Longrightarrow>
   \<forall>b\<in>set (replace_branches (branches s) R ts). contract_valid (branch_contract b)"
  by (auto simp: replace_branches_def dest: objects_okD(1))

lemma parts_okI:
  assumes "objects_ok s" and "contract_valid (part_contract parts)"
    and "part_branches parts = replace_branches (branches s) R ts" and "\<forall>b\<in>set ts. contract_valid (branch_contract b)"
    and "\<forall>g\<in>set (part_groups parts). g \<in> set (groups s) \<or> group_post_init g = Inr ()"
  shows "parts_ok parts"
  unfolding parts_ok_def
proof (intro conjI)
  show "\<forall>b\<in>set (part_branches parts). contract_valid (branch_contract b)"
    unfolding assms(3) by (rule replace_branches_valid [OF assms(1,4)])
  show "\<forall>g\<in>set (part_groups parts). group_post_init g = Inr ()" using assms(5) objects_okD(4) [OF assms(1)] by blast
qed (rule assms(2))

lemma fork_parts_ok:
  assumes "objects_ok s" and "fork_parts s op m b l r = Inr parts"
  shows "parts_ok parts"
proof -
  from assms(2) obtain l0 r0 left right c g source where
    "ungrouped_branch s b = Inr source" and
    t: "leaf s l = Inr l0" "tagged l0 (stamp s op @ '':left'') = Inr left" "leaf s r = Inr r0"
      "tagged r0 (stamp s op @ '':right'') = Inr right"
    and c: "(if m = ChoiceMode then choice left right else parallel left right) = Inr c"
    and g: "group_post_init g = Inr ()"
    and parts: "part_contract parts = c" "part_groups parts = groups s @ [g]"
      "part_branches parts = replace_branches (branches s) {branch_id source}
        [\<lparr>branch_id = stamp s op @ '':left'', branch_contract = left, branch_owner = target_owner s op\<rparr>,
         \<lparr>branch_id = stamp s op @ '':right'', branch_contract = right, branch_owner = target_owner s op\<rparr>]"
    by (auto simp: fork_parts_def Let_def mk_live_branch_Inr mk_group_Inr)
  have lr: "contract_valid left" "contract_valid right"
    using tagged_valid objects_okD(2) [OF assms(1)] t by blast+
  then have "contract_valid c" using c product_valid(1,2) [OF lr] by (auto split: if_splits)
  then show ?thesis
    by (intro parts_okI [OF assms(1) _ parts(3)]) (use parts(1,2) g lr in auto)
qed

lemma restore_replace_parts_ok:
  assumes "objects_ok s" and "restore_replace_parts s op b cp = Inr parts"
  shows "parts_ok parts"
proof -
  from assms(2) obtain c0 target source where
    "ungrouped_branch s b = Inr source" and
    t: "checkpoint s cp = Inr c0" "tagged c0 (stamp s op @ '':clone'') = Inr target"
    and parts: "part_contract parts = target" "part_groups parts = groups s"
      "part_branches parts = replace_branches (branches s) {branch_id source}
        [\<lparr>branch_id = stamp s op @ '':clone'', branch_contract = target, branch_owner = target_owner s op\<rparr>]"
    by (auto simp: restore_replace_parts_def Let_def mk_live_branch_Inr)
  have "contract_valid target" using tagged_valid objects_okD(3) [OF assms(1)] t by blast
  then show ?thesis
    by (intro parts_okI [OF assms(1) _ parts(3)]) (use parts(1,2) in auto)
qed

lemma restore_live_parts_ok:
  assumes "objects_ok s" and "restore_live_parts s op b cp = Inr parts"
  shows "parts_ok parts"
proof -
  from assms(2) obtain c0 cloned carried c source g where
    source: "ungrouped_branch s b = Inr source" "remaining_contract (branch_contract source) (completed s) = Inr carried"
    and t: "checkpoint s cp = Inr c0" "tagged c0 (stamp s op @ '':clone'') = Inr cloned"
    and c: "parallel carried cloned = Inr c" and g: "group_post_init g = Inr ()"
    and parts: "part_contract parts = c" "part_groups parts = groups s @ [g]"
      "part_branches parts = replace_branches (branches s) {branch_id source}
        [\<lparr>branch_id = stamp s op @ '':carry'', branch_contract = carried, branch_owner = target_owner s op\<rparr>,
         \<lparr>branch_id = stamp s op @ '':clone'', branch_contract = cloned, branch_owner = target_owner s op\<rparr>]"
    by (auto simp: restore_live_parts_def Let_def mk_live_branch_Inr mk_group_Inr)
  have cloned: "contract_valid cloned" using tagged_valid objects_okD(3) [OF assms(1)] t by blast
  have "contract_valid (branch_contract source)"
    using ungrouped_branch_Inr [OF source(1)] objects_okD(1) [OF assms(1)] by blast
  then have carried: "contract_valid carried" using source(2) by (rule remaining_contract_valid)
  have "contract_valid c" using product_valid(2) [OF carried cloned c] .
  then show ?thesis
    by (intro parts_okI [OF assms(1) _ parts(3)]) (use parts(1,2) g carried cloned in auto)
qed

lemma merge_parts_ok:
  assumes "objects_ok s" and "contract_valid remaining" and "merge_parts s op g remaining j = Inr parts"
  shows "parts_ok parts"
proof -
  from assms(3) obtain j0 joined c where
    t: "leaf s j = Inr j0" "tagged j0 ((stamp s op @ '':target'') @ '':join'') = Inr joined"
    and c: "sequence remaining joined = Inr c"
    and parts: "part_contract parts = c" "part_groups parts = filter (\<lambda>h. h \<noteq> g) (groups s)"
      "part_branches parts = replace_branches (branches s) (set (members g))
        [\<lparr>branch_id = stamp s op @ '':target'', branch_contract = c, branch_owner = target_owner s op\<rparr>]"
    by (auto simp: merge_parts_def Let_def mk_live_branch_Inr)
  have "contract_valid joined" using tagged_valid objects_okD(2) [OF assms(1)] t by blast
  then have "contract_valid c" using product_valid(3) [OF assms(2) _ c] by blast
  then show ?thesis
    by (intro parts_okI [OF assms(1) _ parts(3)]) (use parts(1,2) in auto)
qed

lemma fold_parallel_valid:
  "fold_r parallel c cs = Inr d \<Longrightarrow> contract_valid c \<Longrightarrow> \<forall>x\<in>set cs. contract_valid x \<Longrightarrow> contract_valid d"
  by (induction cs arbitrary: c) (auto dest: product_valid(2))

lemma merge_select_parts_ok:
  assumes "objects_ok s" and "merge_select_parts s op gid w j = Inr parts"
  shows "parts_ok parts"
proof -
  from assms(2) obtain g b remaining where b: "map_of (branch_map s) w = Some b"
    "remaining_contract (branch_contract b) (completed s) = Inr remaining" and m: "merge_parts s op g remaining j = Inr parts"
    by (auto simp: merge_select_parts_def dict_get_Inr split: option.splits if_splits)
  have "contract_valid (branch_contract b)" using branch_map_Some [OF b(1)] objects_okD(1) [OF assms(1)] by blast
  then have "contract_valid remaining" using b(2) by (rule remaining_contract_valid)
  then show ?thesis by (rule merge_parts_ok [OF assms(1) _ m])
qed

lemma merge_join_parts_ok:
  assumes "objects_ok s" and "\<And>g. g \<in> set (groups s) \<Longrightarrow> members g \<noteq> []" and "merge_join_parts s op gid j = Inr parts"
  shows "parts_ok parts"
proof -
  from assms(3) obtain g ps combined where g: "map_of (group_map s) gid = Some g"
    and ps: "map_r (\<lambda>m. bind_r (dict_get (branch_map s) m) (\<lambda>b. remaining_contract (branch_contract b) (completed s))) (members g) = Inr ps"
    and comb: "fold_r parallel (hd ps) (tl ps) = Inr combined" and m: "merge_parts s op g combined j = Inr parts"
    by (auto simp: merge_join_parts_def split: option.splits if_splits)
  have each: "contract_valid x" if "x \<in> set ps" for x
  proof -
    from that obtain m b where "map_of (branch_map s) m = Some b" "remaining_contract (branch_contract b) (completed s) = Inr x"
      unfolding map_r_set [OF ps] by (auto simp: dict_get_Inr)
    then have "b \<in> set (branches s)" "remaining_contract (branch_contract b) (completed s) = Inr x"
      using branch_map_Some by blast+
    then show ?thesis using remaining_contract_valid objects_okD(1) [OF assms(1)] by blast
  qed
  have "members g \<noteq> []" using group_map_Some [OF g] assms(2) by blast
  then have "ps \<noteq> []" using ps by (cases "members g") auto
  then have "contract_valid combined" using fold_parallel_valid [OF comb] each by (cases ps) auto
  then show ?thesis by (rule merge_parts_ok [OF assms(1) _ m])
qed

lemma group_members: "group_post_init g = Inr () \<Longrightarrow> members g \<noteq> [] \<and> distinct (members g)"
  by (auto simp: group_post_init_def split: if_splits)

lemma derive_parts_ok:
  assumes "objects_ok s" and "derive_parts s op = Inr parts"
  shows "parts_ok parts"
proof -
  have "\<And>g. g \<in> set (groups s) \<Longrightarrow> members g \<noteq> []" using objects_okD(4) [OF assms(1)] group_members by blast
  then show ?thesis
    using assms(2) fork_parts_ok [OF assms(1)] restore_replace_parts_ok [OF assms(1)] restore_live_parts_ok [OF assms(1)]
      merge_select_parts_ok [OF assms(1)] merge_join_parts_ok [OF assms(1)]
    by (cases op) simp_all
qed

lemma derive_rewrite_Inr:
  assumes "derive_rewrite s op = Inr rw"
  obtains parts where "derive_parts s op = Inr parts" "history_ok (next_state rw)"
    "rw_contract rw = part_contract parts" "rw_sources rw = part_sources parts"
    "next_state rw = s\<lparr>branches := part_branches parts, groups := part_groups parts,
       provenance := provenance s @ [\<lparr>edge_operation = operation_name op, affected = part_affected parts,
         edge_targets = part_targets parts\<rparr>], view_version := view_version s + 1\<rparr>"
  using assms by (auto simp: derive_rewrite_def Let_def mk_history_state_iff)

lemma derive_rewrite_valid:
  assumes "history_valid s" and "derive_rewrite s op = Inr rw"
  shows "history_valid (next_state rw)" "contract_valid (rw_contract rw)"
proof -
  have s: "objects_ok s" using assms(1) by (simp add: history_valid_def)
  obtain parts where p: "derive_parts s op = Inr parts" "history_ok (next_state rw)"
    "rw_contract rw = part_contract parts"
    and next_state: "next_state rw = s\<lparr>branches := part_branches parts, groups := part_groups parts,
       provenance := provenance s @ [\<lparr>edge_operation = operation_name op, affected = part_affected parts,
         edge_targets = part_targets parts\<rparr>], view_version := view_version s + 1\<rparr>"
    by (rule derive_rewrite_Inr [OF assms(2)])
  note ok = derive_parts_ok [OF s p(1)]
  show "contract_valid (rw_contract rw)" using ok p(3) by (simp add: parts_ok_def)
  have "objects_ok (next_state rw)" using ok s unfolding next_state by (simp add: objects_ok_def parts_ok_def)
  then show "history_valid (next_state rw)" using p(2) by (simp add: history_valid_def)
qed

section \<open>Commitments\<close>

lemma select_arm_Inr:
  assumes "select_arm b g = Inr g'" and "group_post_init g = Inr ()"
  shows "group_post_init g' = Inr ()" "group_id g' = group_id g" "members g' = members g"
  using assms by (auto simp: select_arm_def Let_def split: if_splits)

lemma commit_cases:
  assumes "commit_gate s call = Inr (t, ev)"
  obtains (stutter) "t = s" "ev = None" "gate_id call \<in> set (completed s)"
  | (commit) gs where "ev = Some (ResolvedEvent (if gate_cell call \<in> set (receipts s) then ''alias'' else ''fresh'')
        (gate_id call) (gate_cell call))" "gate_id call \<notin> set (completed s)"
      "t = s\<lparr>groups := gs, receipts := (if gate_cell call \<in> set (receipts s) then receipts s else receipts s @ [gate_cell call]),
         completed := completed s @ [gate_id call]\<rparr>"
      "history_ok t" "\<forall>g\<in>set gs. \<exists>g0\<in>set (groups s). \<exists>b. select_arm b g0 = Inr g"
proof -
  have open_gen: "gate_owner call \<notin> closed_owners s" using assms by (auto simp: commit_gate_def split: if_splits)
  obtain b rest where m: "gate_matches s call = b # rest"
    using assms open_gen by (cases "gate_matches s call") (auto simp: commit_gate_def)
  show thesis
  proof (cases "gate_id call \<in> set (completed s)")
    case True
    then show thesis using assms open_gen m by (intro stutter) (simp_all add: commit_gate_def)
  next
    case False
    let ?rec = "if gate_cell call \<in> set (receipts s) then receipts s else receipts s @ [gate_cell call]"
    from assms False open_gen m obtain gs where gs: "map_r (select_arm (branch_id b)) (groups s) = Inr gs"
      and t: "mk_history_state (s\<lparr>groups := gs, receipts := ?rec, completed := completed s @ [gate_id call]\<rparr>) = Inr t"
      and ev: "ev = Some (ResolvedEvent (if gate_cell call \<in> set (receipts s) then ''alias'' else ''fresh'') (gate_id call) (gate_cell call))"
      by (auto simp: commit_gate_def Let_def split: if_splits)
    have "\<forall>g\<in>set gs. \<exists>g0\<in>set (groups s). \<exists>b. select_arm b g0 = Inr g" unfolding map_r_set [OF gs] by blast
    then show thesis using False t ev by (intro commit) (auto simp: mk_history_state_iff)
  qed
qed

lemma commit_valid:
  assumes "history_valid s" and "commit_gate s call = Inr (t, ev)"
  shows "history_valid t"
  using assms(2)
proof (cases rule: commit_cases)
  case (commit gs)
  have "objects_ok s" using assms(1) by (simp add: history_valid_def)
  then have "group_post_init g = Inr ()" if "g \<in> set gs" for g
    using that commit(5) select_arm_Inr(1) objects_okD(4) by blast
  then have "objects_ok t" using \<open>objects_ok s\<close> unfolding commit(3) by (simp add: objects_ok_def)
  then show ?thesis using commit(4) by (simp add: history_valid_def)
qed (use assms(1) in simp)

section \<open>Installation\<close>

lemma install_Inr:
  assumes "install_cut sha s cc = Inr t"
  obtains seal rw adm where "cut_seal_of cc = Some seal" "derive_rewrite s (seal_operation seal) = Inr rw"
    "seal_view seal = view_version s" "seal_policy seal = policy_version s" "seal_receipts seal = receipts s"
    "seal_completed seal = completed s" "seal_frontier seal = frontier_signature s"
    "rw_sources rw = seal_sources seal" "rw_contract rw = seal_contract seal"
    "check_admission s (rw_contract rw) = Inr adm" "admitted adm"
    "t = (next_state rw)\<lparr>closed_owners := closed_owners s \<union> set (rw_sources rw)\<rparr>" "history_ok t"
  using assms by (auto simp: install_cut_def mk_history_state_iff split: option.splits if_splits)

lemma install_rewrite:
  assumes "install_cut sha s cc = Inr t"
  shows "\<exists>seal rw. cut_seal_of cc = Some seal \<and> derive_rewrite s (seal_operation seal) = Inr rw \<and>
    rw_sources rw = seal_sources seal \<and> seal_view seal = view_version s \<and>
    t = (next_state rw)\<lparr>closed_owners := closed_owners s \<union> set (rw_sources rw)\<rparr> \<and> history_ok t"
  by (rule install_Inr [OF assms]) blast

lemma install_keeps:
  assumes "install_cut sha s cc = Inr t"
  shows "receipts t = receipts s" "completed t = completed s" "policy t = policy s" "view_version t = view_version s + 1"
    "closed_owners s \<subseteq> closed_owners t"
  using assms by (auto elim!: install_Inr derive_rewrite_Inr)

lemma install_valid:
  assumes "history_valid s" and "install_cut sha s cc = Inr t"
  shows "history_valid t"
proof -
  obtain op rw where rw: "derive_rewrite s op = Inr rw"
    and t: "t = (next_state rw)\<lparr>closed_owners := closed_owners s \<union> set (rw_sources rw)\<rparr>" "history_ok t"
    by (rule install_Inr [OF assms(2)]) (rule that)
  have "objects_ok (next_state rw)" using derive_rewrite_valid(1) [OF assms(1) rw] by (simp add: history_valid_def)
  then have "objects_ok t" unfolding t(1) by (simp add: objects_ok_def)
  then show ?thesis using t(2) by (simp add: history_valid_def)
qed

section \<open>The machine\<close>

datatype hevent = HCommit gate_invocation "resolved_event option" | HInstall compiled_cut

inductive hstep :: "(nat list \<Rightarrow> string) \<Rightarrow> history_state \<Rightarrow> hevent \<Rightarrow> history_state \<Rightarrow> bool" for sha where
  "commit_gate s call = Inr (t, ev) \<Longrightarrow> hstep sha s (HCommit call ev) t"
| "install_cut sha s cc = Inr t \<Longrightarrow> hstep sha s (HInstall cc) t"

inductive_simps hstep_simps: "hstep sha s (HCommit call ev) t" "hstep sha s (HInstall cc) t"

lemma hstep_valid: "hstep sha s e t \<Longrightarrow> history_valid s \<Longrightarrow> history_valid t"
  by (auto elim!: hstep.cases intro: commit_valid install_valid)

fun committed_key :: "hevent \<Rightarrow> string option" where
  "committed_key (HCommit call (Some ev)) = Some (gate_id call)"
| "committed_key _ = None"

fun committed_event :: "hevent \<Rightarrow> resolved_event option" where
  "committed_event (HCommit call ev) = ev"
| "committed_event _ = None"

lemma hstep_log:
  assumes "hstep sha s e t"
  shows "completed t = completed s @ (case committed_key e of None \<Rightarrow> [] | Some i \<Rightarrow> [i])"
    "receipts t = receipts s @ (case committed_event e of None \<Rightarrow> [] | Some v \<Rightarrow> auth [v])"
    "\<And>i. committed_key e = Some i \<Longrightarrow> i \<notin> set (completed s)" "policy t = policy s" "closed_owners s \<subseteq> closed_owners t"
  using assms by (auto elim!: hstep.cases commit_cases simp: install_keeps auth_def dest: install_keeps(5))

interpretation hist: invariant_machine "hstep sha" history_valid for sha
  by unfold_locales (rule hstep_valid)

interpretation fences: growing_machine "hstep sha" history_valid closed_owners for sha
  by unfold_locales (rule hstep_log(5))

interpretation commits: once_machine "hstep sha" history_valid "\<lambda>s. set (completed s)" committed_key for sha
proof unfold_locales
  show "set (completed s) \<subseteq> set (completed t)" if "hstep sha s e t" for s e t
    using hstep_log(1) [OF that] by simp
  show "i \<notin> set (completed s) \<and> i \<in> set (completed t)" if "hstep sha s e t" "history_valid s" "committed_key e = Some i" for s e t i
    using hstep_log(1,3) [OF that(1)] that(3) by simp
qed

lemma auth_append [simp]: "auth (a @ b) = auth a @ auth b"
  by (simp add: auth_def)

lemma run_log:
  assumes "run (hstep sha) s es t"
  shows "completed t = completed s @ keys_of committed_key es" "receipts t = receipts s @ auth (keys_of committed_event es)"
    "policy t = policy s"
  using assms
proof (induction rule: run.induct)
  case (run_Cons s e t es u)
  {
    case 1
    show ?case using run_Cons.IH(1) hstep_log(1) [OF run_Cons.hyps(1)] by (simp split: option.splits)
  next
    case 2
    show ?case using run_Cons.IH(2) hstep_log(2) [OF run_Cons.hyps(1)]
      auth_append [of "[_]"] by (auto simp del: auth_append simp flip: auth_append split: option.splits)
  next
    case 3
    show ?case using run_Cons.IH(3) hstep_log(4) [OF run_Cons.hyps(1)] by simp
  }
qed (simp_all add: auth_def)

text \<open>
  C17. Types and trusted invariants of a history. From a valid state, any sequence of gate
  commitments and installations of cuts, whatever state the cuts were compiled on, leads to valid
  states only: the validation of \<open>HistoryState\<close> accepts them, and every contract, group and
  policy in them is well formed. The completed trace grows by the committed identifiers, none of
  them committed before or twice, and the receipts by the cells of the fresh commitments, in order,
  inside the policy.
\<close>

theorem history_runs_valid:
  assumes "history_valid s" and "run (hstep sha) s es t"
  shows "history_valid t \<and> history_post_init t = Inr () \<and>
    completed t = completed s @ keys_of committed_key es \<and>
    distinct (keys_of committed_key es) \<and> set (keys_of committed_key es) \<inter> set (completed s) = {} \<and>
    receipts t = receipts s @ auth (keys_of committed_event es) \<and> allows (policy s) (receipts t) \<and>
    closed_owners s \<subseteq> closed_owners t"
proof -
  have t: "history_valid t" using hist.run_inv [OF assms(2,1)] .
  then have "history_ok t" by (simp add: history_valid_def)
  then have "allows (policy s) (receipts t)" "history_post_init t = Inr ()"
    using run_log(3) [OF assms(2)] by (simp_all add: history_ok_def history_post_init_iff)
  then show ?thesis
    using t run_log(1,2) [OF assms(2)] commits.run_keys(1,2) [OF assms(2,1)] fences.run_grows [OF assms(2,1)] by blast
qed

section \<open>Compiling, installing, fencing\<close>

lemma history_ok_closed:
  assumes "history_ok s"
  shows "history_post_init (s\<lparr>closed_owners := closed_owners s \<union> A\<rparr>) =
    (if branch_owner ` set (branches s) \<inter> A = {} then Inr ()
     else Inl (ModelError ''a closed controller generation cannot own a live branch''))"
proof (cases "branch_owner ` set (branches s) \<inter> A = {}")
  case True
  then have "history_ok (s\<lparr>closed_owners := closed_owners s \<union> A\<rparr>)"
    using assms by (simp add: history_ok_def Int_Un_distrib)
  then show ?thesis using True by (simp add: history_post_init_iff)
next
  case False
  then have "branch_owner ` set (branches s) \<inter> (closed_owners s \<union> A) \<noteq> {}" by blast
  then show ?thesis using assms False by (simp add: history_post_init_def history_ok_def not_less)
qed

text \<open>
  C37. A cut that was compiled is installed on the same state without ever being stale. An
  admitted cut is installed, and its sources closed, unless one of its source owners still owns a
  branch outside the cut, in which case the validation of the fenced state raises; a rejected cut
  is refused.
\<close>

theorem compile_then_install:
  assumes "compile_cut sha s op = Inr cc"
  shows "install_cut sha s cc =
    (if \<not> admitted (cut_admission cc) then Inl (ModelError ''a rejected history rewrite is not installable'')
     else if branch_owner ` set (branches (next_state (cut_rewrite cc))) \<inter> set (rw_sources (cut_rewrite cc)) \<noteq> {}
     then Inl (ModelError ''a closed controller generation cannot own a live branch'')
     else Inr ((next_state (cut_rewrite cc))\<lparr>closed_owners := closed_owners s \<union> set (rw_sources (cut_rewrite cc))\<rparr>))"
proof -
  from assms obtain rw adm where rw: "derive_rewrite s op = Inr rw" and adm: "check_admission s (rw_contract rw) = Inr adm"
    and cc: "cut_rewrite cc = rw" "cut_admission cc = adm"
      "cut_seal_of cc = (if admitted adm
            then Some \<lparr>seal_operation = op, seal_view = view_version s, seal_policy = policy_version s,
                   seal_receipts = receipts s, seal_completed = completed s,
                   seal_digest = logical_frontier_digest sha (completed s),
                   seal_frontier = frontier_signature s, seal_sources = rw_sources rw,
                   seal_contract = rw_contract rw\<rparr> else None)"
    by (auto simp: compile_cut_def)
  have "closed_owners (next_state rw) = closed_owners s" "history_ok (next_state rw)"
    using rw by (auto elim!: derive_rewrite_Inr)
  then have "mk_history_state ((next_state rw)\<lparr>closed_owners := closed_owners s \<union> set (rw_sources rw)\<rparr>) =
      (if branch_owner ` set (branches (next_state rw)) \<inter> set (rw_sources rw) = {}
       then Inr ((next_state rw)\<lparr>closed_owners := closed_owners s \<union> set (rw_sources rw)\<rparr>)
       else Inl (ModelError ''a closed controller generation cannot own a live branch''))"
    using history_ok_closed [of "next_state rw" "set (rw_sources rw)"] by (simp add: mk_history_state_def)
  then show ?thesis using rw adm by (simp add: install_cut_def cc)
qed

lemma hstep_view: "hstep sha s e t \<Longrightarrow> view_version s \<le> view_version t"
  by (auto elim!: hstep.cases commit_cases simp: install_keeps)

interpretation views: growing_machine "hstep sha" history_valid "\<lambda>s. {v. v \<le> view_version s}" for sha
  by unfold_locales (auto dest: hstep_view)

text \<open>
  C9. An installed cut is final. Whatever is committed or installed afterwards, a call through a
  controller generation the cut closed is rejected as closed, and the same cut cannot be installed
  again: it is stale.
\<close>

theorem installed_cut_fences:
  assumes "history_valid s" and "cut_seal_of cc = Some seal" and "install_cut sha s cc = Inr t"
    and "run (hstep sha) t es u" and "gate_owner call \<in> set (seal_sources seal)"
  shows "commit_gate u call = Inl (ClosedGeneration ''controller generation is closed'') \<and>
    install_cut sha u cc = Inl (StaleCut ''receipt, logical, policy, view, or frontier state changed'')"
proof -
  obtain seal' :: cut_seal and rw :: history_rewrite where seal: "cut_seal_of cc = Some seal'"
    and rw: "rw_sources rw = seal_sources seal'" "seal_view seal' = view_version s"
    and t: "t = (next_state rw)\<lparr>closed_owners := closed_owners s \<union> set (rw_sources rw)\<rparr>"
    by (rule install_Inr [OF assms(3)]) (rule that)
  then have [simp]: "seal' = seal" using assms(2) by simp
  have valid: "history_valid t" by (rule install_valid [OF assms(1,3)])
  have "gate_owner call \<in> closed_owners t" using assms(5) rw(1) unfolding t by simp
  then have "gate_owner call \<in> closed_owners u" using fences.run_grows [OF assms(4) valid] by blast
  moreover have "view_version s + 1 \<le> view_version u"
    using views.run_grows [OF assms(4) valid] install_keeps(4) [OF assms(3)] by auto
  then have "view_version u \<noteq> seal_view seal" using rw(2) by simp
  ultimately show ?thesis using assms(2) by (simp add: commit_gate_def install_cut_def)
qed

end
