(* ===== verification/Gate.thy ===== *)
theory Gate
  imports CutRuns
begin

text \<open>
  Progress of the gate and the digest of the logical frontier: a branch with one outcome is
  driven through any of its policy-safe linearizations, one commitment at a time; a branch whose
  outcomes disagree on the order of their common occurrences is not held to the observed order;
  the framed digest determines the completed trace.
\<close>

section \<open>Progress\<close>

definition arms_free :: "history_state \<Rightarrow> live_branch \<Rightarrow> bool" where
  "arms_free s b \<longleftrightarrow> (\<forall>g\<in>set (groups s). branch_id b \<in> set (members g) \<longrightarrow> group_mode g = ChoiceMode \<longrightarrow>
     selected g = None \<or> selected g = Some (branch_id b))"

lemma sorted_wrt_disjoint:
  assumes "sorted_wrt (\<lambda>x y. f x \<inter> f y = {}) xs" and "x \<in> set xs" and "y \<in> set xs" and "i \<in> f x" and "i \<in> f y"
  shows "x = y"
  using assms by (induction xs) auto

lemma branch_of_id:
  assumes "history_ok s" and "b \<in> set (branches s)" and "d \<in> set (branches s)"
    and "i \<in> contract_ids (branch_contract b)" and "i \<in> contract_ids (branch_contract d)"
  shows "b = d"
  using assms(1,4,5) unfolding history_ok_def disjoint_branches_def contract_ids_def
  by (elim conjE) (rule sorted_wrt_disjoint [OF _ assms(2,3)])

lemma gate_matches_iff:
  "d \<in> set (gate_matches s call) \<longleftrightarrow> d \<in> set (branches s) \<and> branch_owner d = gate_owner call \<and>
     (\<exists>n\<in>set (contract_nodes (branch_contract d)). logical_id n = gate_id call \<and> occ_cell n = gate_cell call)"
  unfolding gate_matches_def by auto

lemma gate_matches_hd:
  assumes "history_ok s" and "b \<in> set (branches s)" and "n \<in> set (contract_nodes (branch_contract b))"
    and "gate_owner call = branch_owner b" "gate_id call = logical_id n" "gate_cell call = occ_cell n"
  shows "\<exists>rest. gate_matches s call = b # rest"
proof -
  have b: "b \<in> set (gate_matches s call)" unfolding gate_matches_iff assms(4-6) using assms(2,3) by blast
  have ids: "gate_id call \<in> contract_ids (branch_contract d)" if "d \<in> set (gate_matches s call)" for d
    using that unfolding gate_matches_iff contract_ids_def by (elim conjE bexE) (rule image_eqI [OF sym])
  have ne: "gate_matches s call \<noteq> []" using b by auto
  then have "hd (gate_matches s call) \<in> set (gate_matches s call)" by simp
  then have "hd (gate_matches s call) = b"
    by (intro branch_of_id [OF assms(1) _ assms(2) ids ids [OF b]]) (simp_all only: gate_matches_iff simp_thms)
  then show ?thesis using ne by (cases "gate_matches s call") simp_all
qed

lemma words_same_length: "linear_extension p u \<Longrightarrow> linear_extension p w \<Longrightarrow> length u = length w"
  by (metis distinct_card linear_extension_def)

lemma one_outcome_ok: "pomset_ok p \<Longrightarrow> deduplicated_contract [p] = Inr \<lparr>outcomes = [p]\<rparr>"
proof -
  assume p: "pomset_ok p"
  have "contract_ok \<lparr>outcomes = [p]\<rparr>"
    using p by (auto simp: contract_ok_def contract_words_def strict_prefix_of_def dest: words_same_length)
  then show ?thesis using p mk_contract_iff [of "[p]"] by (simp add: deduplicated_contract_def first_occurrences_def)
qed

lemma obeys_append: "obeys E (u @ w) \<longleftrightarrow> obeys E u \<and> obeys E w \<and> (\<forall>x\<in>set w. \<forall>y\<in>set u. (x, y) \<notin> E)"
  by (induction u) auto

lemma remaining_one_outcome:
  assumes "contract_ok c" and "outcomes c = [p]" and "linear_extension p (u @ w)"
    and "set d \<inter> set (ids p) = set u"
  shows "remaining_contract c d = Inr \<lparr>outcomes = [residual (set u) p]\<rparr>"
proof -
  have p: "pomset_ok p" using contract_okD(1) [OF assms(1)] assms(2) by simp
  have R: "set d \<inter> contract_ids c = set u"
    using assms(2,4) by (simp add: contract_ids_def contract_nodes_def ids_def)
  have w: "obeys (porder p) (u @ w)" "set (u @ w) = set (ids p)" using assms(3) by (simp_all add: linear_extension_obeys)
  have "before \<in> set u" if e: "(before, after) \<in> porder p" "after \<in> set u" for before after
  proof -
    have "before \<in> set (u @ w)" using e(1) p unfolding w(2) by (auto simp: pomset_ok_def)
    then show ?thesis using w(1) e by (auto simp: obeys_append)
  qed
  then have "remaining_keeps (set u) p" using w(2) by (auto simp: remaining_keeps_def)
  then show ?thesis
    using one_outcome_ok [OF residual_ok [OF p]] by (simp add: remaining_contract_eq [OF assms(1)] R assms(2))
qed

lemma next_enabled:
  assumes "pomset_ok p" and "linear_extension p (u @ i # v)"
  shows "gate_enabled \<lparr>outcomes = [residual (set u) p]\<rparr> i"
proof -
  have w: "distinct (u @ i # v)" "set (u @ i # v) = set (ids p)" "obeys (porder p) (u @ i # v)"
    using assms(2) by (simp_all add: linear_extension_obeys)
  have "i \<in> set (ids p)" unfolding w(2) [symmetric] by simp
  moreover have "(x, i) \<notin> porder p" if "x \<notin> set u" for x
  proof
    assume e: "(x, i) \<in> porder p"
    then have "x \<in> set (u @ i # v)" using assms(1) unfolding w(2) by (auto simp: pomset_ok_def)
    then show False using that e w(3) by (auto simp: obeys_append)
  qed
  ultimately show ?thesis using w(1) by (auto simp: gate_enabled_def residual_def ids_def)
qed

lemma select_arms_total:
  assumes "\<forall>g\<in>set gs. group_post_init g = Inr ()"
    and "\<forall>g\<in>set gs. b \<in> set (members g) \<longrightarrow> group_mode g = ChoiceMode \<longrightarrow> selected g = None \<or> selected g = Some b"
  shows "\<exists>gs'. map_r (select_arm b) gs = Inr gs' \<and> map group_id gs' = map group_id gs \<and> map members gs' = map members gs \<and>
    (\<forall>g\<in>set gs'. b \<in> set (members g) \<longrightarrow> group_mode g = ChoiceMode \<longrightarrow> selected g = None \<or> selected g = Some b)"
  using assms
proof (induction gs)
  case (Cons g gs)
  have "\<exists>g'. select_arm b g = Inr g' \<and> group_id g' = group_id g \<and> members g' = members g \<and>
      (b \<in> set (members g') \<longrightarrow> group_mode g' = ChoiceMode \<longrightarrow> selected g' = None \<or> selected g' = Some b)"
  proof (cases "b \<in> set (members g) \<and> group_mode g = ChoiceMode")
    case True
    then have "group_post_init (g\<lparr>selected := Some b\<rparr>) = Inr ()"
      using Cons.prems(1) by (auto simp: group_post_init_def split: if_splits)
    then show ?thesis using True Cons.prems(2) by (auto simp: select_arm_def)
  qed (auto simp: select_arm_def)
  then show ?case using Cons by auto
qed simp

lemma flat_groups_cong:
  assumes "map group_id gs = map group_id hs" and "map members gs = map members hs"
  shows "flat_groups known gs \<longleftrightarrow> flat_groups known hs"
proof -
  have flat: "flat_groups known gs \<longleftrightarrow> distinct (map group_id gs) \<and> (\<forall>m\<in>set (map members gs). set m \<subseteq> known) \<and>
      sorted_wrt (\<lambda>m k. set m \<inter> set k = {}) (map members gs)" for gs :: "frontier_group list"
    by (simp add: flat_groups_def sorted_wrt_map)
  show ?thesis unfolding flat assms ..
qed

text \<open>One commitment along a linearization of the single outcome of a branch.\<close>

definition gate_call :: "live_branch \<Rightarrow> resolved_event \<Rightarrow> gate_invocation" where
  "gate_call b e = \<lparr>gate_owner = branch_owner b, gate_id = ev_id e, gate_cell = ev_cell e\<rparr>"

lemma cell_of_node:
  assumes "pomset_ok p" and "i \<in> set (ids p)"
  shows "\<exists>n\<in>set (nodes p). logical_id n = i \<and> occ_cell n = cell_of p i"
proof -
  obtain n where n: "n \<in> set (nodes p)" "logical_id n = i" using assms(2) by (auto simp: ids_def)
  have "map fst (by_id p) = ids p" by (simp add: by_id_def ids_def)
  then have "distinct (map fst (by_id p))" using assms(1) by (simp add: pomset_ok_def)
  moreover have "(i, occ_cell n) \<in> set (by_id p)" using n by (auto simp: by_id_def)
  ultimately have "cell_of p i = occ_cell n" by (simp add: cell_of_def)
  then show ?thesis using n by auto
qed

lemma commit_next:
  assumes "history_valid s" and "b \<in> set (branches s)" and "outcomes (branch_contract b) = [p]"
    and "linear_extension p (u @ i # v)" and "set (completed s) \<inter> set (ids p) = set u" and "arms_free s b"
    and "allows (policy s) (receipts s @ auth [e])"
    and "e = ResolvedEvent (if cell_of p i \<in> set (receipts s) then ''alias'' else ''fresh'') i (cell_of p i)"
  shows "\<exists>t. commit_gate s (gate_call b e) = Inr (t, Some e) \<and> branches t = branches s \<and> arms_free t b"
proof -
  let ?c = "cell_of p i"
  let ?rec = "if ?c \<in> set (receipts s) then receipts s else receipts s @ [?c]"
  have s: "history_ok s" "objects_ok s" using assms(1) by (simp_all add: history_valid_def)
  have c: "contract_ok (branch_contract b)" "occurrences_ok (branch_contract b)"
    using objects_okD(1) [OF s(2) assms(2)] by (simp_all add: contract_valid_def)
  have p: "pomset_ok p" using contract_okD(1) [OF c(1)] assms(3) by simp
  have w: "distinct (u @ i # v)" "set (u @ i # v) = set (ids p)" using assms(4) by (simp_all add: linear_extension_obeys)
  have i: "i \<in> set (ids p)" unfolding w(2) [symmetric] by simp
  then have fresh: "i \<notin> set (completed s)" using assms(5) w(1) by auto
  obtain n where n: "n \<in> set (nodes p)" "logical_id n = i" "occ_cell n = ?c" using cell_of_node [OF p i] by blast
  have sel: "gate_owner (gate_call b e) = branch_owner b" "gate_id (gate_call b e) = i" "gate_cell (gate_call b e) = ?c"
    by (simp_all add: gate_call_def assms(8))
  have "n \<in> set (contract_nodes (branch_contract b))" using n(1) assms(3) by (simp add: contract_nodes_def)
  then obtain rest where m: "gate_matches s (gate_call b e) = b # rest" using gate_matches_hd [OF s(1) assms(2)] sel n(2,3) by metis
  have "branch_owner b \<notin> closed_owners s" using s(1) assms(2) by (auto simp: history_ok_def)
  moreover have ne: "i \<noteq> []" using c(2) assms(3) n(1,2) by (auto simp: occurrences_ok_def)
  moreover obtain gs where gs: "map_r (select_arm (branch_id b)) (groups s) = Inr gs" "map group_id gs = map group_id (groups s)"
      "map members gs = map members (groups s)"
      "\<forall>g\<in>set gs. branch_id b \<in> set (members g) \<longrightarrow> group_mode g = ChoiceMode \<longrightarrow> selected g = None \<or> selected g = Some (branch_id b)"
    using select_arms_total [of "groups s" "branch_id b"] assms(6) objects_okD(4) [OF s(2)] unfolding arms_free_def by blast
  let ?t = "s\<lparr>groups := gs, receipts := ?rec, completed := completed s @ [i]\<rparr>"
  have rec: "?rec = receipts s @ auth [e]" by (simp add: assms(8) auth_def)
  then have pol: "allows (policy s) ?rec" using assms(7) by simp
  have "history_ok ?t"
    using s(1) pol fresh ne flat_groups_cong [OF gs(2,3), of "set (map branch_id (branches s))"] by (simp add: history_ok_def)
  then have "mk_history_state ?t = Inr ?t" by (simp add: mk_history_state_iff)
  then have "commit_gate s (gate_call b e) = Inr (?t, Some e)"
    using remaining_one_outcome [OF c(1) assms(3,4,5)] next_enabled [OF p assms(4)] m fresh gs(1) pol
      \<open>branch_owner b \<notin> closed_owners s\<close>
    unfolding commit_gate_def Let_def sel m list.case assms(8) [symmetric] by (simp split del: if_split)
  then show ?thesis using gs(4) by (auto simp: arms_free_def)
qed

lemma allows_prefix: "policy_ok pol \<Longrightarrow> allows pol (xs @ ys) \<Longrightarrow> allows pol xs"
  unfolding policy_ok_def allows_def by (metis append_eq_conv_conj)

lemma auth_Cons: "auth (e # es) = auth [e] @ auth es"
  by (simp add: auth_def)

lemma commits_along:
  assumes "history_valid s" and "b \<in> set (branches s)" and "outcomes (branch_contract b) = [p]"
    and "linear_extension p (u @ v)" and "set (completed s) \<inter> set (ids p) = set u" and "arms_free s b"
    and "es = resolved_from (cell_of p) (set (receipts s)) v" and "allows (policy s) (receipts s @ auth es)"
  shows "\<exists>t. run (hstep sha) s (map (\<lambda>e. HCommit (gate_call b e) (Some e)) es) t"
  using assms
proof (induction v arbitrary: s u es)
  case Nil
  have "es = []" using Nil.prems(7) by simp
  then show ?case by auto
next
  case (Cons i v)
  let ?e = "ResolvedEvent (if cell_of p i \<in> set (receipts s) then ''alias'' else ''fresh'') i (cell_of p i)"
  let ?es = "resolved_from (cell_of p) (insert (cell_of p i) (set (receipts s))) v"
  have es: "es = ?e # ?es" using Cons.prems(7) by simp
  have "policy_ok (policy s)" using Cons.prems(1) by (simp add: history_valid_def objects_ok_def)
  then have "allows (policy s) (receipts s @ auth [?e])"
    using Cons.prems(8) allows_prefix [of "policy s" "receipts s @ auth [?e]" "auth ?es"] unfolding es auth_Cons [of ?e ?es] by simp
  from commit_next [OF Cons.prems(1-6) this refl]
  obtain t where t: "commit_gate s (gate_call b ?e) = Inr (t, Some ?e)" "branches t = branches s" "arms_free t b" by blast
  have step: "hstep sha s (HCommit (gate_call b ?e) (Some ?e)) t" using t(1) by (simp add: hstep_simps)
  note log = hstep_log [OF step]
  have "set (u @ i # v) = set (ids p)" using Cons.prems(4) unfolding linear_extension_def by (elim conjE)
  then have i: "i \<in> set (ids p)" by auto
  have rec: "receipts t = receipts s @ auth [?e]" using log(2) by simp
  then have seen: "set (receipts t) = insert (cell_of p i) (set (receipts s))" by (simp add: auth_def insert_absorb)
  have comp: "set (completed t) \<inter> set (ids p) = set (u @ [i])"
    using log(1) Cons.prems(5) i by (simp add: gate_call_def Int_insert_left Int_Un_distrib2)
  have ext: "linear_extension p ((u @ [i]) @ v)" using Cons.prems(4) by simp
  have al: "allows (policy t) (receipts t @ auth ?es)"
    using Cons.prems(8) unfolding es auth_Cons [of ?e ?es] rec log(4) by simp
  have "b \<in> set (branches t)" using Cons.prems(2) t(2) by simp
  then have "\<exists>r. run (hstep sha) t (map (\<lambda>e. HCommit (gate_call b e) (Some e)) ?es) r"
    by (rule Cons.IH [OF hstep_valid [OF step Cons.prems(1)] _ Cons.prems(3) ext comp t(3) _ al]) (simp only: seen)
  then show ?case unfolding es list.map by (elim exE) (rule exI, rule run_Cons [of "hstep sha", OF step])
qed

text \<open>
  C10. The gate does not get stuck on a safe completion. In a valid state, take a live branch with
  one outcome none of whose occurrences is completed and whose choice groups have not selected
  another arm, and any linearization of it whose fresh cells the policy allows after the receipts.
  The gate commits the whole linearization, occurrence by occurrence, reporting its resolved
  events, and ends in a valid state whose completed trace and receipts are the ones before followed
  by the linearization and its fresh cells.
\<close>

theorem gate_completes_safe_linearization:
  assumes "history_valid s" and "b \<in> set (branches s)" and "outcomes (branch_contract b) = [p]"
    and "linear_extension p w" and "set w \<inter> set (completed s) = {}" and "arms_free s b"
    and "allows (policy s) (receipts s @ auth (resolved p w (receipts s)))"
  shows "\<exists>t. run (hstep sha) s (map (\<lambda>e. HCommit (gate_call b e) (Some e)) (resolved p w (receipts s))) t \<and>
    history_valid t \<and> completed t = completed s @ w \<and> receipts t = receipts s @ auth (resolved p w (receipts s))"
proof -
  let ?es = "resolved p w (receipts s)"
  let ?calls = "map (\<lambda>e. HCommit (gate_call b e) (Some e)) ?es"
  have "set (completed s) \<inter> set (ids p) = set []" using assms(4,5) by (auto simp: linear_extension_def)
  then obtain t where t: "run (hstep sha) s ?calls t"
    using commits_along [OF assms(1-3), of "[]" w ?es sha] assms(4,6,7) by (auto simp: resolved_def)
  have keys: "keys_of committed_key (map (\<lambda>e. HCommit (gate_call b e) (Some e)) es) = raw es"
    "keys_of committed_event (map (\<lambda>e. HCommit (gate_call b e) (Some e)) es) = es" for es
    by (induction es) (simp_all add: gate_call_def raw_def)
  show ?thesis using t hist.run_inv [OF t assms(1)] run_log(1,2) [OF t] by (auto simp: keys)
qed

section \<open>Outcomes that disagree on an order\<close>

text \<open>Two outcomes that share the occurrences a and b and order them in opposite ways.\<close>

definition ab_then_c :: pomset where
  "ab_then_c = \<lparr>nodes = [Occurrence ''a'' ''x'', Occurrence ''b'' ''y'', Occurrence ''c'' ''z''],
     porder = {(''a'', ''b''), (''b'', ''c'')}\<rparr>"

definition ba_then_d :: pomset where
  "ba_then_d = \<lparr>nodes = [Occurrence ''a'' ''x'', Occurrence ''b'' ''y'', Occurrence ''d'' ''u''],
     porder = {(''b'', ''a''), (''a'', ''d'')}\<rparr>"

definition crossed :: contract where
  "crossed = \<lparr>outcomes = [ab_then_c, ba_then_d]\<rparr>"

definition crossed_state :: history_state where
  "crossed_state = \<lparr>branches = [\<lparr>branch_id = ''m'', branch_contract = crossed, branch_owner = ''o''\<rparr>],
     groups = [], checkpoints = [], leaf_registry = [], provenance = [], receipts = [], completed = [],
     policy = \<lparr>allowed = {[], [''x''], [''x'', ''y''], [''x'', ''y'', ''z''], [''x'', ''y'', ''u''],
       [''y''], [''y'', ''x''], [''y'', ''x'', ''u'']}\<rparr>,
     policy_version = 0, view_version = 0, closed_owners = {}\<rparr>"

definition gate_word :: "string \<Rightarrow> (string \<times> string) list \<Rightarrow> history_state \<Rightarrow> history_state result" where
  "gate_word ow calls s = fold_r (\<lambda>s (i, c). bind_r (commit_gate s \<lparr>gate_owner = ow, gate_id = i, gate_cell = c\<rparr>)
     (\<lambda>(t, _). Inr t)) s calls"

lemma crossed_accepted:
  "mk_contract [ab_then_c, ba_then_d] = Inr crossed" "mk_history_state crossed_state = Inr crossed_state"
  "policy_post_init (policy crossed_state) = Inr ()"
  subgoal by code_simp
  subgoal by code_simp
  subgoal by code_simp
  done

lemma crossed_admitted: "map_sum id admitted (check_admission crossed_state crossed) = Inr True"
  by code_simp

lemma crossed_committed:
  "map_sum id completed (gate_word ''o'' [(''a'', ''x''), (''b'', ''y''), (''d'', ''u'')] crossed_state) =
     Inr [''a'', ''b'', ''d'']"
  by code_simp

lemma ab_then_c_words: "words_of ab_then_c = [[''a'', ''b'', ''c'']]"
  by code_simp

lemma ba_then_d_words: "words_of ba_then_d = [[''b'', ''a'', ''d'']]"
  by code_simp

lemma crossed_words: "contract_words crossed = {[''a'', ''b'', ''c''], [''b'', ''a'', ''d'']}"
  unfolding crossed_def contract_words_eq
  by (simp only: list.map ab_then_c_words ba_then_d_words concat.simps append.simps list.set)

lemma crossed_not_begun: "\<nexists>w n. w \<in> contract_words crossed \<and> take n w = [''a'', ''b'', ''d'']"
  unfolding crossed_words by (auto simp: take_Cons split: nat.splits)


section \<open>The digest of the logical frontier\<close>

lemma length_be64 [simp]: "length (be64 n) = 8"
  by (simp add: be64_def)

lemma be64_value:
  assumes "n < 2 ^ 64"
  shows "foldl (\<lambda>acc d. acc * 256 + d) 0 (be64 n) = n"
proof -
  define D where "D k = n div 256 ^ k" for k :: nat
  have "D (k + 1) * 256 + D k mod 256 = D k" for k
    using div_mult_mod_eq [of "D k" 256] unfolding D_def power_add power_one_right div_mult2_eq .
  then have digit: "m = k + 1 \<Longrightarrow> D m * 256 + D k mod 256 = D k" for m k by simp
  have "n div 256 ^ 7 < 256" using assms by (simp add: less_mult_imp_div_less)
  then have top: "D 7 mod 256 = D 7" by (simp add: D_def)
  have D: "D 7 * 256 + D 6 mod 256 = D 6" "D 6 * 256 + D 5 mod 256 = D 5" "D 5 * 256 + D 4 mod 256 = D 4"
    "D 4 * 256 + D 3 mod 256 = D 3" "D 3 * 256 + D 2 mod 256 = D 2" "D 2 * 256 + D 1 mod 256 = D 1"
    "D 1 * 256 + D 0 mod 256 = D 0"
    by (rule digit, simp)+
  have "be64 n = map (\<lambda>k. D k mod 256) [7, 6, 5, 4, 3, 2, 1, 0]" by (simp add: be64_def D_def)
  then have "foldl (\<lambda>acc d. acc * 256 + d) 0 (be64 n) = D 0"
    by (simp only: list.map foldl.simps mult_zero_left add_0 top D)
  then show ?thesis by (simp add: D_def)
qed

lemma be64_inj:
  assumes "be64 m = be64 n" and "m < 2 ^ 64" and "n < 2 ^ 64"
  shows "m = n"
  using be64_value [OF assms(2)] unfolding assms(1) be64_value [OF assms(3)] by (rule sym)

lemma frame_prefix_free:
  assumes "frame i @ xs = frame j @ ys" and "length i < 2 ^ 64" and "length j < 2 ^ 64"
  shows "i = j \<and> xs = ys"
proof -
  have bytes: "be64 (length i) = be64 (length j)" "map of_char i @ xs = map of_char j @ ys"
    using assms(1) append_eq_append_conv [of "be64 (length i)" "be64 (length j)"]
    by (simp_all add: frame_def)
  have len: "length i = length j" by (rule be64_inj [OF bytes(1) assms(2,3)])
  then have "map (of_char :: char \<Rightarrow> nat) i = map of_char j" "xs = ys"
    using bytes(2) by simp_all
  moreover have "inj (of_char :: char \<Rightarrow> nat)" by (simp add: inj_on_def)
  ultimately show ?thesis using inj_map_eq_map by blast
qed

lemma frames_injective:
  assumes "concat (map frame xs) = concat (map frame ys)"
    and "\<forall>i\<in>set xs. length i < 2 ^ 64" and "\<forall>i\<in>set ys. length i < 2 ^ 64"
  shows "xs = ys"
  using assms
proof (induction xs arbitrary: ys)
  case Nil
  then show ?case by (cases ys) (auto simp: frame_def dest: arg_cong [of _ _ length])
next
  case (Cons i xs)
  then obtain j ys' where ys: "ys = j # ys'" by (cases ys) (auto simp: frame_def dest: arg_cong [of _ _ length])
  then have "i = j" "concat (map frame xs) = concat (map frame ys')"
    using Cons.prems frame_prefix_free [of i "concat (map frame xs)" j "concat (map frame ys')"] by simp_all
  then show ?case using Cons.IH [of ys'] Cons.prems ys by simp
qed

text \<open>
  C39. The digest of the logical frontier determines it. When SHA-256 does not collide on the two
  framed inputs, two completed traces with the same digest are the same trace, in the same order,
  with every identifier shorter than two to the sixty-four bytes, the length the frame can hold.
\<close>

theorem frontier_digest_determines_trace:
  assumes "\<forall>i\<in>set xs. length i < 2 ^ 64" and "\<forall>i\<in>set ys. length i < 2 ^ 64"
    and "sha256 (concat (map frame xs)) = sha256 (concat (map frame ys)) \<Longrightarrow>
      concat (map frame xs) = concat (map frame ys)"
  shows "logical_frontier_digest sha256 xs = logical_frontier_digest sha256 ys \<longleftrightarrow> xs = ys"
  using assms frames_injective [of xs ys] by (auto simp: logical_frontier_digest_def)

end
