(* ===== verification/HistoryExamples.thy ===== *)
theory HistoryExamples
  imports Gate
begin

text \<open>
  A concrete history: one live branch that completes a before b, two registered leaves, a policy
  that allows the two cells in any order. The properties of the exact history realization are
  instantiated on it.
\<close>

section \<open>The example\<close>

definition main_pomset :: pomset where
  "main_pomset = \<lparr>nodes = [Occurrence ''a'' ''x'', Occurrence ''b'' ''y''], porder = {(''a'', ''b'')}\<rparr>"

definition leaf_x :: pomset where
  "leaf_x = \<lparr>nodes = [Occurrence ''p'' ''x''], porder = {}\<rparr>"

definition leaf_y :: pomset where
  "leaf_y = \<lparr>nodes = [Occurrence ''q'' ''y''], porder = {}\<rparr>"

definition main_contract :: contract where "main_contract = \<lparr>outcomes = [main_pomset]\<rparr>"
definition x_contract :: contract where "x_contract = \<lparr>outcomes = [leaf_x]\<rparr>"
definition y_contract :: contract where "y_contract = \<lparr>outcomes = [leaf_y]\<rparr>"

definition main_branch :: live_branch where
  "main_branch = \<lparr>branch_id = ''main'', branch_contract = main_contract, branch_owner = ''gen:0''\<rparr>"

definition example_history :: history_state where
  "example_history = \<lparr>branches = [main_branch], groups = [], checkpoints = [],
     leaf_registry = [\<lparr>nc_name = ''l'', nc_contract = x_contract\<rparr>, \<lparr>nc_name = ''r'', nc_contract = y_contract\<rparr>],
     provenance = [], receipts = [], completed = [],
     policy = \<lparr>allowed = {[], [''x''], [''y''], [''x'', ''y''], [''y'', ''x'']}\<rparr>,
     policy_version = 0, view_version = 0, closed_owners = {}\<rparr>"

definition no_hash :: "nat list \<Rightarrow> string" where
  "no_hash bytes = ''0''"

definition fork :: history_operation where
  "fork = ForkChoice ''main'' ''l'' ''r''"

definition fork_cut :: compiled_cut where
  "fork_cut = projr (compile_cut no_hash example_history fork)"

definition forked :: history_state where
  "forked = projr (install_cut no_hash example_history fork_cut)"

lemma pomset_built: "finite (porder p) \<Longrightarrow> mk_pomset (nodes p) (porder p) = Inr p \<Longrightarrow> pomset_ok p"
  by (cases p) (simp add: mk_pomset_iff)

lemma example_pomsets_built:
  "mk_pomset (nodes main_pomset) (porder main_pomset) = Inr main_pomset"
  "mk_pomset (nodes leaf_x) (porder leaf_x) = Inr leaf_x" "mk_pomset (nodes leaf_y) (porder leaf_y) = Inr leaf_y"
  subgoal by code_simp
  subgoal by code_simp
  subgoal by code_simp
  done

lemma example_pomsets_finite: "finite (porder main_pomset)" "finite (porder leaf_x)" "finite (porder leaf_y)"
  by (simp_all add: main_pomset_def leaf_x_def leaf_y_def)

lemma example_pomsets_ok: "pomset_ok main_pomset" "pomset_ok leaf_x" "pomset_ok leaf_y"
  using pomset_built example_pomsets_finite example_pomsets_built by blast+

lemma one_outcome_contract_ok: "pomset_ok p \<Longrightarrow> contract_ok \<lparr>outcomes = [p]\<rparr>"
  using one_outcome_ok [of p] deduplicated_contract_words(1) [of "[p]"] by simp

lemma example_contracts_ok: "contract_ok main_contract" "contract_ok x_contract" "contract_ok y_contract"
  unfolding main_contract_def x_contract_def y_contract_def by (intro one_outcome_contract_ok example_pomsets_ok)+

lemma example_occurrences_ok: "occurrences_ok main_contract" "occurrences_ok x_contract" "occurrences_ok y_contract"
  by (simp_all add: occurrences_ok_def main_contract_def x_contract_def y_contract_def main_pomset_def leaf_x_def leaf_y_def)

lemma example_accepted: "history_post_init example_history = Inr ()"
  by code_simp

lemma example_policy: "policy_post_init (policy example_history) = Inr ()"
  by code_simp

lemma example_valid: "history_valid example_history"
proof -
  have "policy_ok (policy example_history)" using example_policy by (simp only: policy_post_init_iff)
  moreover have "history_ok example_history" using example_accepted by (simp only: history_post_init_iff)
  ultimately show ?thesis using example_contracts_ok example_occurrences_ok
    by (simp add: history_valid_def objects_ok_def contract_valid_def example_history_def main_branch_def)
qed

lemma fork_compiles: "is_ok (compile_cut no_hash example_history fork)"
  by code_simp

lemma fork_compiled: "compile_cut no_hash example_history fork = Inr fork_cut"
  using fork_compiles by (auto simp: is_ok_iff fork_cut_def)

lemma fork_admitted: "admitted (cut_admission fork_cut)"
  by code_simp

lemma fork_installs: "is_ok (install_cut no_hash example_history fork_cut)"
  by code_simp

lemma fork_installed: "install_cut no_hash example_history fork_cut = Inr forked"
  using fork_installs by (auto simp: is_ok_iff forked_def)

lemma forked_owners: "branch_owner ` set (branches (next_state (cut_rewrite fork_cut))) \<inter> set (rw_sources (cut_rewrite fork_cut)) = {}"
  by code_simp

lemma fork_sources: "map_option seal_sources (cut_seal_of fork_cut) = Some [''gen:0'']"
  by code_simp

section \<open>Instances of the properties\<close>

theorem is_acyclic_decides_witness:
  "acyclic {(''a'', ''b''), (''b'', ''c'')} \<and> \<not> acyclic {(''a'', ''b''), (''b'', ''a'')}"
proof -
  have "is_acyclic {''a'', ''b'', ''c''} {(''a'', ''b''), (''b'', ''c'')} = Inr True" by code_simp
  moreover have "is_acyclic {''a'', ''b''} {(''a'', ''b''), (''b'', ''a'')} = Inr False" by code_simp
  ultimately show ?thesis
    using is_acyclic_decides [of "{''a'', ''b'', ''c''}" "{(''a'', ''b''), (''b'', ''c'')}"]
      is_acyclic_decides [of "{''a'', ''b''}" "{(''a'', ''b''), (''b'', ''a'')}"] by simp
qed

lemma main_linearizations: "linearizations main_pomset = Inr [[''a'', ''b'']]"
  by code_simp

theorem linearizations_are_linear_extensions_witness:
  "{w. linear_extension main_pomset w} = {[''a'', ''b'']}"
  using linearizations_are_linear_extensions [OF example_pomsets_finite(1) example_pomsets_built(1)] main_linearizations
  by auto

lemma example_products_total:
  "is_ok (choice x_contract y_contract)" "is_ok (sequence x_contract y_contract)"
  "is_ok (parallel x_contract y_contract)" "is_ok (tagged x_contract ''t'')"
  subgoal by code_simp
  subgoal by code_simp
  subgoal by code_simp
  subgoal by code_simp
  done

lemma is_ok_projr: "is_ok r \<Longrightarrow> r = Inr (projr r)"
  by (auto simp: is_ok_iff)

theorem contract_operations_denote_witness:
  "contract_words (projr (choice x_contract y_contract)) = contract_words x_contract \<union> contract_words y_contract \<and>
   contract_words (projr (sequence x_contract y_contract)) =
     {u @ v |u v. u \<in> contract_words x_contract \<and> v \<in> contract_words y_contract} \<and>
   contract_ok (projr (parallel x_contract y_contract)) \<and>
   contract_words (projr (tagged x_contract ''t'')) = map (retag ''t'') ` contract_words x_contract"
proof -
  note den = contract_operations_denote [OF example_contracts_ok(2,3)] and total = example_products_total [THEN is_ok_projr]
  note words = den [THEN conjunct1, rule_format, OF total(1)] den [THEN conjunct2, THEN conjunct1, rule_format, OF total(2)]
    den [THEN conjunct2, THEN conjunct2, THEN conjunct1, rule_format, OF total(3)]
    den [THEN conjunct2, THEN conjunct2, THEN conjunct2, rule_format, OF total(4)]
  show ?thesis
    by (intro conjI words(1) [THEN conjunct2] words(2) [THEN conjunct2] words(3) [THEN conjunct1] words(4) [THEN conjunct2])
qed

definition main_admission :: admission_result where
  "main_admission = projr (check_admission example_history main_contract)"

lemma main_checked: "is_ok (check_admission example_history main_contract)" "admitted main_admission"
  subgoal by code_simp
  subgoal by code_simp
  done

theorem check_admission_greatest_robust_witness:
  "(\<exists>B. prefix_robust example_history main_contract B \<and> B \<noteq> {}) \<and>
   prefix_robust example_history main_contract (surviving_indexed_completions main_admission)"
  using check_admission_greatest_robust [OF example_contracts_ok(1), of example_history]
    main_checked(1) [THEN is_ok_projr, folded main_admission_def] main_checked(2) by blast

text \<open>Under a policy that refuses one outcome from the start, the other one is pruned.\<close>

definition narrow_state :: history_state where
  "narrow_state = crossed_state\<lparr>policy := \<lparr>allowed = {[], [''x''], [''x'', ''y''], [''x'', ''y'', ''z'']}\<rparr>\<rparr>"

definition narrow_admission :: admission_result where
  "narrow_admission = projr (check_admission narrow_state crossed)"

lemma narrow_checked:
  "is_ok (check_admission narrow_state crossed)" "\<not> admitted narrow_admission" "length (pruning_causes narrow_admission) = 1"
  subgoal by code_simp
  subgoal by code_simp
  subgoal by code_simp
  done

lemma crossed_pomsets_built:
  "mk_pomset (nodes ab_then_c) (porder ab_then_c) = Inr ab_then_c" "mk_pomset (nodes ba_then_d) (porder ba_then_d) = Inr ba_then_d"
  subgoal by code_simp
  subgoal by code_simp
  done

lemma crossed_ok: "contract_ok crossed"
proof -
  have "finite (porder ab_then_c)" "finite (porder ba_then_d)" by (simp_all add: ab_then_c_def ba_then_d_def)
  then have "\<forall>p\<in>set [ab_then_c, ba_then_d]. pomset_ok p" using pomset_built crossed_pomsets_built by simp
  from mk_contract_iff [OF this, of crossed] crossed_accepted(1) show ?thesis by (simp only: simp_thms crossed_def)
qed

theorem check_admission_certificates_witness:
  "impossibility_witness narrow_admission \<noteq> None \<and>
   (\<exists>pc\<in>set (pruning_causes narrow_admission). compatible crossed (pc_prefix pc) (pc_outcome pc) \<and>
     \<not> (\<exists>d\<in>descending_chain narrow_admission ! (pc_rank pc - 1). extends d (pc_outcome pc) (pc_prefix pc)))"
proof -
  obtain pc where pc: "pc \<in> set (pruning_causes narrow_admission)"
    using narrow_checked(3) by (cases "pruning_causes narrow_admission") auto
  note cert = check_admission_certificates [OF crossed_ok narrow_checked(1) [THEN is_ok_projr, folded narrow_admission_def]]
  note cause = cert [THEN conjunct1, THEN bspec, OF pc]
  have "impossibility_witness narrow_admission \<noteq> None"
    using cert [THEN conjunct2, THEN conjunct2, THEN conjunct2, THEN conjunct2] narrow_checked(2) by (simp only: simp_thms)
  moreover have "compatible crossed (pc_prefix pc) (pc_outcome pc) \<and>
     \<not> (\<exists>d\<in>descending_chain narrow_admission ! (pc_rank pc - 1). extends d (pc_outcome pc) (pc_prefix pc))"
    using cause by (elim conjE) (intro conjI)
  ultimately show ?thesis using pc by - (rule conjI, assumption, rule bexI, assumption+)
qed

lemma fork_run: "run (hstep no_hash) example_history [HInstall fork_cut] forked"
  using fork_installed by (auto simp: run_Cons_iff hstep_simps)

theorem history_runs_valid_witness:
  "history_valid forked \<and> completed forked = [] \<and> allows (policy example_history) (receipts forked)"
proof -
  have "completed example_history = []" by (simp add: example_history_def)
  then show ?thesis using history_runs_valid [OF example_valid fork_run] by auto
qed

theorem compile_then_install_witness:
  "install_cut no_hash example_history fork_cut =
     Inr ((next_state (cut_rewrite fork_cut))\<lparr>closed_owners := closed_owners example_history \<union> set (rw_sources (cut_rewrite fork_cut))\<rparr>)"
  using compile_then_install [OF fork_compiled] fork_admitted forked_owners by simp

theorem installed_cut_fences_witness:
  "commit_gate forked \<lparr>gate_owner = ''gen:0'', gate_id = ''a'', gate_cell = ''x''\<rparr> =
     Inl (ClosedGeneration ''controller generation is closed'') \<and>
   install_cut no_hash forked fork_cut = Inl (StaleCut ''receipt, logical, policy, view, or frontier state changed'')"
proof -
  obtain seal where seal: "cut_seal_of fork_cut = Some seal" "seal_sources seal = [''gen:0'']"
    using fork_sources by auto
  show ?thesis
    using installed_cut_fences [OF example_valid seal(1) fork_installed run_Nil,
        of "\<lparr>gate_owner = ''gen:0'', gate_id = ''a'', gate_cell = ''x''\<rparr>"] seal(2) by simp
qed

lemma main_resolved: "resolved main_pomset [''a'', ''b''] (receipts example_history) =
  [ResolvedEvent ''fresh'' ''a'' ''x'', ResolvedEvent ''fresh'' ''b'' ''y'']"
  by code_simp

theorem gate_completes_safe_linearization_witness:
  "\<exists>t. run (hstep no_hash) example_history
     [HCommit \<lparr>gate_owner = ''gen:0'', gate_id = ''a'', gate_cell = ''x''\<rparr> (Some (ResolvedEvent ''fresh'' ''a'' ''x'')),
      HCommit \<lparr>gate_owner = ''gen:0'', gate_id = ''b'', gate_cell = ''y''\<rparr> (Some (ResolvedEvent ''fresh'' ''b'' ''y''))] t \<and>
   receipts t = [''x'', ''y'']"
proof -
  have b: "main_branch \<in> set (branches example_history)" by (simp add: example_history_def)
  have p: "outcomes (branch_contract main_branch) = [main_pomset]" by (simp add: main_branch_def main_contract_def)
  have w: "linear_extension main_pomset [''a'', ''b'']" by (auto simp: linear_extension_obeys main_pomset_def ids_def)
  have new: "set [''a'', ''b''] \<inter> set (completed example_history) = {}" by (simp add: example_history_def)
  have arms: "arms_free example_history main_branch" by (simp add: arms_free_def example_history_def)
  have rec: "receipts example_history @ auth (resolved main_pomset [''a'', ''b''] (receipts example_history)) = [''x'', ''y'']"
    unfolding main_resolved by (simp add: auth_def example_history_def)
  have al: "allows (policy example_history) (receipts example_history @ auth (resolved main_pomset [''a'', ''b''] (receipts example_history)))"
    unfolding rec by (simp add: allows_def example_history_def)
  have calls: "gate_call main_branch e = \<lparr>gate_owner = ''gen:0'', gate_id = ev_id e, gate_cell = ev_cell e\<rparr>" for e
    by (simp add: gate_call_def main_branch_def)
  show ?thesis
    using gate_completes_safe_linearization [OF example_valid b p w new arms al, of no_hash]
    unfolding main_resolved by (auto simp: calls rec [unfolded main_resolved])
qed

definition last_byte :: "nat list \<Rightarrow> string" where
  "last_byte bytes = (if last bytes = of_char (CHR ''a'') then ''a'' else ''b'')"

lemma last_bytes_differ: "last_byte (concat (map frame [''a'', ''b''])) \<noteq> last_byte (concat (map frame [''b'', ''a'']))"
  by (simp add: last_byte_def frame_def)

theorem frontier_digest_determines_trace_witness:
  "logical_frontier_digest last_byte [''a'', ''b''] \<noteq> logical_frontier_digest last_byte [''b'', ''a'']"
proof -
  have "logical_frontier_digest last_byte [''a'', ''b''] = logical_frontier_digest last_byte [''b'', ''a''] \<longleftrightarrow>
      [''a'', ''b''] = [''b'', ''a'']"
    by (rule frontier_digest_determines_trace) (simp, simp, erule notE [OF last_bytes_differ])
  then show ?thesis by simp
qed

end
