(* ===== verification/Families.thy ===== *)
theory Families
  imports Machines
begin

text \<open>
  Configurations and families of \<open>artifact/history_admission/compiler.py\<close>: a configuration is a
  frozen set of names, a family a frozen set of configurations. The families of a parsed request
  are nonempty, finite and downward closed; such a family is called a complex here. The loops that
  build a family only add to it, so the cap is exceeded on the way exactly when it is at the end.
\<close>

type_synonym config = "string set"
type_synonym family = "string set set"

definition max_expanded_configurations :: int where "max_expanded_configurations = 4096"
definition max_product_states :: int where "max_product_states = 200000"

section \<open>Operations\<close>

text \<open>The order of \<open>_sorted_configs\<close>: by size, then by the sorted members.\<close>

definition config_key :: "config \<Rightarrow> nat \<times> string list" where
  "config_key c = (card c, sorted_list_of_set c)"

definition sorted_configs :: "family \<Rightarrow> config list" where
  "sorted_configs F = map (\<lambda>k. set (snd k)) (sorted_list_of_set (config_key ` F))"

definition maxima :: "family \<Rightarrow> string list list" where
  "maxima F = map sorted_list_of_set (sorted_configs {c \<in> F. \<not> (\<exists>d\<in>F. c \<subset> d)})"

definition downward_closure :: "config list \<Rightarrow> family result" where
  "downward_closure ms =
     bind_r (fold_r (\<lambda>acc m. let acc' = acc \<union> Pow m in
        if int (card acc') > max_expanded_configurations
        then Inl (SchemaError ''expands past the configuration cap'') else Inr acc') {} ms) (\<lambda>res.
     if res = {} then Inl (SchemaError ''must contain at least one maximal configuration'') else Inr res)"

definition family_choice :: "family \<Rightarrow> family \<Rightarrow> family" where
  "family_choice left right = left \<union> right"

definition family_tensor :: "family \<Rightarrow> family \<Rightarrow> family result" where
  "family_tensor left right =
     (let res = (\<lambda>(l, r). l \<union> r) ` (left \<times> right) in
      if int (card res) > max_expanded_configurations
      then Inl (SchemaError ''expands past the configuration cap'') else Inr res)"

definition support :: "family \<Rightarrow> config" where
  "support F = \<Union> F"

definition remap_config :: "(string \<times> string) list \<Rightarrow> config \<Rightarrow> config result" where
  "remap_config mapping c = bind_r (map_r (dict_get mapping) (sorted_list_of_set c)) (\<lambda>cs. Inr (set cs))"

definition remap_family :: "family \<Rightarrow> (string \<times> string) list \<Rightarrow> family result" where
  "remap_family F mapping = bind_r (map_r (remap_config mapping) (sorted_configs F)) (\<lambda>cs. Inr (set cs))"

section \<open>Complexes\<close>

definition complex :: "family \<Rightarrow> bool" where
  "complex F \<longleftrightarrow> F \<noteq> {} \<and> finite F \<and> (\<forall>c\<in>F. finite c) \<and> (\<forall>c\<in>F. \<forall>d. d \<subseteq> c \<longrightarrow> d \<in> F)"

lemma complexD:
  assumes "complex F"
  shows "finite F" "\<And>c. c \<in> F \<Longrightarrow> finite c" "\<And>c d. c \<in> F \<Longrightarrow> d \<subseteq> c \<Longrightarrow> d \<in> F" "{} \<in> F"
  using assms by (auto simp: complex_def)

lemma finite_support: "complex F \<Longrightarrow> finite (support F)"
  by (auto simp: complex_def support_def)

lemma singleton_in_complex: "complex F \<Longrightarrow> {x} \<in> F \<longleftrightarrow> x \<in> support F"
  by (auto simp: complex_def support_def)

lemma inj_config_key: "inj_on config_key {c. finite c}"
  by (rule inj_onI) (auto simp: config_key_def dest: arg_cong [where f = set])

lemma set_config_key: "finite c \<Longrightarrow> set (snd (config_key c)) = c"
  by (simp add: config_key_def)

lemma set_sorted_configs [simp]:
  assumes "finite F" and "\<forall>c\<in>F. finite c"
  shows "set (sorted_configs F) = F"
proof -
  have "set (sorted_configs F) = (\<lambda>k. set (snd k)) ` config_key ` F"
    using assms(1) by (simp add: sorted_configs_def)
  also have "\<dots> = F" using assms(2) by (force simp: image_image set_config_key)
  finally show ?thesis .
qed

lemma distinct_sorted_configs:
  assumes "finite F" and "\<forall>c\<in>F. finite c"
  shows "distinct (sorted_configs F)"
proof -
  have "inj_on (\<lambda>k. set (snd k)) (config_key ` F)"
    using assms(2) by (auto simp: inj_on_def set_config_key)
  then show ?thesis using assms(1) by (simp add: sorted_configs_def distinct_map)
qed

lemma downward_closure_step:
  assumes "\<forall>m\<in>set ms. finite m" and "finite A"
  shows "fold_r (\<lambda>acc m. let acc' = acc \<union> Pow m in
      if int (card acc') > max_expanded_configurations
      then Inl (SchemaError ''expands past the configuration cap'') else Inr acc') A ms = Inr F \<Longrightarrow>
    F = A \<union> (\<Union>m\<in>set ms. Pow m)"
  using assms by (induction ms arbitrary: A) (auto simp: Let_def split: if_splits)

lemma downward_closure_complex:
  assumes "downward_closure ms = Inr F" and "\<forall>m\<in>set ms. finite m"
  shows "complex F" "F = (\<Union>m\<in>set ms. Pow m)"
proof -
  show F: "F = (\<Union>m\<in>set ms. Pow m)"
    using assms downward_closure_step [of ms "{}" F] by (auto simp: downward_closure_def)
  have "F \<noteq> {}" using assms(1) by (auto simp: downward_closure_def)
  moreover have "finite F" "\<forall>c\<in>F. finite c" using assms(2) unfolding F by (auto intro: finite_subset)
  moreover have "d \<in> F" if "c \<in> F" "d \<subseteq> c" for c d using that unfolding F by blast
  ultimately show "complex F" unfolding complex_def by blast
qed

lemma complex_choice: "complex l \<Longrightarrow> complex r \<Longrightarrow> complex (family_choice l r)"
  by (auto simp: complex_def family_choice_def)

lemma complex_tensor:
  assumes "complex l" and "complex r" and "family_tensor l r = Inr F"
  shows "complex F" "F = {a \<union> b |a b. a \<in> l \<and> b \<in> r}"
proof -
  have img: "F = (\<lambda>(a, b). a \<union> b) ` (l \<times> r)"
    using assms(3) by (simp add: family_tensor_def Let_def split: if_splits)
  show F: "F = {a \<union> b |a b. a \<in> l \<and> b \<in> r}" unfolding img image_def by auto
  have "finite F" unfolding img by (intro finite_imageI finite_cartesian_product complexD(1) assms(1,2))
  moreover have "d \<in> F" if cd: "c \<in> F" "d \<subseteq> c" for c d
  proof -
    obtain a b where ab: "c = a \<union> b" "a \<in> l" "b \<in> r" using cd(1) unfolding F by blast
    have "d = (a \<inter> d) \<union> (b \<inter> d)" using cd(2) ab(1) by blast
    moreover have "a \<inter> d \<in> l" using complexD(3) [OF assms(1) ab(2)] by simp
    moreover have "b \<inter> d \<in> r" using complexD(3) [OF assms(2) ab(3)] by simp
    ultimately show ?thesis unfolding F by blast
  qed
  moreover have "finite c" if "c \<in> F" for c
    using that complexD(2) [OF assms(1)] complexD(2) [OF assms(2)] unfolding F by auto
  moreover have "{} \<in> F" using complexD(4) [OF assms(1)] complexD(4) [OF assms(2)] unfolding F by blast
  ultimately show "complex F" unfolding complex_def by blast
qed

lemma remap_config_image:
  assumes "finite c" and "remap_config mapping c = Inr d"
  shows "d = (\<lambda>x. the (map_of mapping x)) ` c"
proof -
  obtain cs where cs: "map_r (dict_get mapping) (sorted_list_of_set c) = Inr cs" "d = set cs"
    using assms(2) by (auto simp: remap_config_def)
  have "map_r (dict_get mapping) xs = Inr ys \<Longrightarrow> ys = map (\<lambda>x. the (map_of mapping x)) xs" for xs ys
    by (induction xs arbitrary: ys) (auto simp: dict_get_def split: option.splits)
  from this [OF cs(1)] show ?thesis using assms(1) unfolding cs(2) by simp
qed

lemma map_r_images: "map_r f xs = Inr ys \<Longrightarrow> (\<And>x y. x \<in> set xs \<Longrightarrow> f x = Inr y \<Longrightarrow> y = g x) \<Longrightarrow> ys = map g xs"
  by (induction xs arbitrary: ys) auto

lemma complex_image:
  assumes "complex F"
  shows "complex ((`) f ` F)"
proof -
  have "d \<in> (`) f ` F" if "c \<in> F" "d \<subseteq> f ` c" for c d
  proof -
    have "d = f ` (c \<inter> f -` d)" using that(2) by blast
    moreover have "c \<inter> f -` d \<in> F" using that(1) complexD(3) [OF assms] by blast
    ultimately show ?thesis by blast
  qed
  then show ?thesis using assms unfolding complex_def by (auto simp del: image_eqI)
qed

lemma complex_remap:
  assumes "complex F" and "remap_family F mapping = Inr G"
  shows "complex G" "G = (`) (\<lambda>x. the (map_of mapping x)) ` F"
proof -
  obtain cs where cs: "map_r (remap_config mapping) (sorted_configs F) = Inr cs" "G = set cs"
    using assms(2) by (auto simp: remap_family_def)
  have F: "set (sorted_configs F) = F" using complexD [OF assms(1)] by simp
  have "cs = map ((`) (\<lambda>x. the (map_of mapping x))) (sorted_configs F)"
    using cs(1) by (rule map_r_images) (simp only: F, rule remap_config_image [OF complexD(2) [OF assms(1)]])
  then show G: "G = (`) (\<lambda>x. the (map_of mapping x)) ` F" using cs(2) F by simp
  show "complex G" unfolding G by (rule complex_image [OF assms(1)])
qed

end
