(* ===== verification/Schema.thy ===== *)
theory Schema
  imports Machines
begin

text \<open>
  The document helpers of \<open>artifact/history_admission/schema.py\<close>: JSON values, the checks that a
  value has an expected shape, the canonical text and its digest. A string stands for its UTF-8
  bytes, so the number of code points is the number of bytes that do not continue a character, and
  the order of Python strings is the order of the bytes. Unicode normalization and SHA-256 are
  parameters. Reading a text into a value is left to the standard library; the hook that refuses
  repeated keys is modelled on the pairs it is given.
\<close>

section \<open>JSON values\<close>

datatype json = JNull | JBool bool | JInt int | JString string | JList "json list" | JObject "(string \<times> json) list"
  | JOther string

definition max_raw_list_items :: int where "max_raw_list_items = 4096"
definition max_string_codepoints :: int where "max_string_codepoints = 4096"

definition object_without_duplicates :: "(string \<times> json) list \<Rightarrow> json result" where
  "object_without_duplicates pairs =
     bind_r (fold_r (\<lambda>res (k, v). if k \<in> set (map fst res) then Inl (SchemaError ''duplicate JSON object key'')
        else Inr (res @ [(k, v)])) [] pairs) (\<lambda>res. Inr (JObject res))"

lemma each_r_cong [fundef_cong]:
  assumes "xs = ys" and "\<And>x. x \<in> set ys \<Longrightarrow> f x = g x"
  shows "each_r f xs = each_r g ys"
  unfolding assms(1) using assms(2) by (induction ys) auto

fun validate_json_tree :: "(string \<Rightarrow> string) \<Rightarrow> json \<Rightarrow> unit result" where
  "validate_json_tree nfc JNull = Inr ()"
| "validate_json_tree nfc (JBool b) = Inr ()"
| "validate_json_tree nfc (JInt n) = Inr ()"
| "validate_json_tree nfc (JString s) = (if nfc s \<noteq> s then Inl (SchemaError ''non-NFC string'') else Inr ())"
| "validate_json_tree nfc (JList vs) = each_r (validate_json_tree nfc) vs"
| "validate_json_tree nfc (JObject ps) =
     each_r (\<lambda>(k, v). bind_r (if nfc k \<noteq> k then Inl (SchemaError ''non-NFC string'') else Inr ())
       (\<lambda>_. validate_json_tree nfc v)) ps"
| "validate_json_tree nfc (JOther t) = Inl (SchemaError ''unsupported JSON value'')"

section \<open>Canonical text\<close>

definition hex_digit :: "nat \<Rightarrow> char" where
  "hex_digit d = (if d < 10 then char_of (48 + d) else char_of (87 + d))"

definition escape_char :: "char \<Rightarrow> string" where
  "escape_char c =
     (let n = (of_char c :: nat) in
      if n = 34 then [char_of (92 :: nat), char_of (34 :: nat)]
      else if n = 92 then [char_of (92 :: nat), char_of (92 :: nat)]
      else if n = 8 then [char_of (92 :: nat), CHR ''b'']
      else if n = 9 then [char_of (92 :: nat), CHR ''t'']
      else if n = 10 then [char_of (92 :: nat), CHR ''n'']
      else if n = 12 then [char_of (92 :: nat), CHR ''f'']
      else if n = 13 then [char_of (92 :: nat), CHR ''r'']
      else if n < 32 then [char_of (92 :: nat), CHR ''u'', CHR ''0'', CHR ''0'', hex_digit (n div 16), hex_digit (n mod 16)]
      else [c])"

definition quote_string :: "string \<Rightarrow> string" where
  "quote_string s = [char_of (34 :: nat)] @ concat (map escape_char s) @ [char_of (34 :: nat)]"

fun join :: "string \<Rightarrow> string list \<Rightarrow> string" where
  "join sep [] = []"
| "join sep [x] = x"
| "join sep (x # y # ys) = x @ sep @ join sep (y # ys)"

text \<open>Objects are printed with their keys in order.\<close>

fun dumps :: "json \<Rightarrow> string" where
  "dumps JNull = ''null''"
| "dumps (JBool b) = (if b then ''true'' else ''false'')"
| "dumps (JInt n) = show_int n"
| "dumps (JString s) = quote_string s"
| "dumps (JList vs) = ''['' @ join '','' (map dumps vs) @ '']''"
| "dumps (JObject ps) = ''{'' @ join '','' (map snd (sort_key fst
     (map (\<lambda>(k, v). (k, quote_string k @ '':'' @ dumps v)) ps))) @ ''}''"
| "dumps (JOther t) = t"

definition canonical_json :: "(string \<Rightarrow> string) \<Rightarrow> json \<Rightarrow> string result" where
  "canonical_json nfc v = bind_r (validate_json_tree nfc v) (\<lambda>_. Inr (dumps v))"

definition digest_json :: "(string \<Rightarrow> string) \<Rightarrow> (string \<Rightarrow> string) \<Rightarrow> json \<Rightarrow> string result" where
  "digest_json nfc sha256 v = bind_r (canonical_json nfc v) (\<lambda>payload. Inr (''sha256:'' @ sha256 payload))"

section \<open>Expected shapes\<close>

fun expect_object :: "json \<Rightarrow> (string \<times> json) list result" where
  "expect_object (JObject ps) = Inr ps"
| "expect_object _ = Inl (SchemaError ''must be an object'')"

definition expect_exact_keys :: "(string \<times> json) list \<Rightarrow> string list \<Rightarrow> string list \<Rightarrow> unit result" where
  "expect_exact_keys obj required optional =
     (let actual = set (map fst obj) in
      if set required - actual \<noteq> {} then Inl (SchemaError ''is missing fields'')
      else if actual - set required - set optional \<noteq> {} then Inl (SchemaError ''has unknown fields'')
      else Inr ())"

fun expect_list :: "json \<Rightarrow> json list result" where
  "expect_list (JList vs) =
     (if int (length vs) > max_raw_list_items then Inl (SchemaError ''has too many items'') else Inr vs)"
| "expect_list _ = Inl (SchemaError ''must be a list'')"

definition code_points :: "string \<Rightarrow> nat" where
  "code_points s = length (filter (\<lambda>c. \<not> (128 \<le> (of_char c :: nat) \<and> (of_char c :: nat) < 192)) s)"

fun expect_text :: "bool \<Rightarrow> json \<Rightarrow> string result" where
  "expect_text allow_empty (JString s) =
     (if \<not> allow_empty \<and> s = [] then Inl (SchemaError ''must be nonempty'')
      else if int (code_points s) > max_string_codepoints then Inl (SchemaError ''has too many code points'')
      else Inr s)"
| "expect_text allow_empty _ = Inl (SchemaError ''must be a string'')"

abbreviation expect_string :: "json \<Rightarrow> string result" where
  "expect_string \<equiv> expect_text False"

fun expect_optional_string :: "json \<Rightarrow> string option result" where
  "expect_optional_string JNull = Inr None"
| "expect_optional_string v = bind_r (expect_string v) (\<lambda>s. Inr (Some s))"

fun expect_nonnegative_int :: "json \<Rightarrow> int result" where
  "expect_nonnegative_int (JInt n) = (if n < 0 then Inl (SchemaError ''must be a nonnegative integer'') else Inr n)"
| "expect_nonnegative_int _ = Inl (SchemaError ''must be a nonnegative integer'')"

fun expect_bool :: "json \<Rightarrow> bool result" where
  "expect_bool (JBool b) = Inr b"
| "expect_bool _ = Inl (SchemaError ''must be a boolean'')"

definition unique_strings :: "bool \<Rightarrow> json \<Rightarrow> string list result" where
  "unique_strings allow_empty v =
     bind_r (expect_list v) (\<lambda>items.
     bind_r (map_r expect_string items) (\<lambda>parsed.
     if \<not> allow_empty \<and> parsed = [] then Inl (SchemaError ''must be nonempty'')
     else if \<not> distinct parsed then Inl (SchemaError ''contains duplicates'')
     else Inr parsed))"

lemma unique_strings_Inr: "unique_strings e v = Inr xs \<Longrightarrow> distinct xs \<and> (e \<or> xs \<noteq> [])"
  by (auto simp: unique_strings_def split: if_splits)

end
