(* ===== verification/Requests.thy ===== *)
theory Requests
  imports Families Schema
begin

text \<open>
  The parsed request of \<open>artifact/history_admission/compiler.py\<close> and the semantic part of its
  compilation: the family an operator derives, the obstructions of a configuration, the safe future
  and the inheritance of the source envelope. A dictionary is an association list in insertion
  order; \<open>sorted(d.items())\<close> is the list sorted by key.
\<close>

section \<open>Parsed requests\<close>

record ledger_receipt =
  receipt_id :: string
  receipt_authority :: string
  receipt_atom :: string
  receipt_anchor :: string
  receipt_epoch :: string
  receipt_operation :: string
  receipt_effect :: string
  receipt_phase :: string

definition immutable_binding :: "ledger_receipt \<Rightarrow> string list" where
  "immutable_binding r = [receipt_authority r, receipt_atom r, receipt_anchor r, receipt_epoch r,
     receipt_operation r, receipt_effect r]"

record source_cell =
  source_id :: string
  source_atom :: string
  source_anchor :: string

record lease_binding =
  lease_id :: string
  issued_version :: int
  lease_cell :: string
  lease_atom :: string

type_synonym occurrence_ref = "string \<times> string"

record arm_occurrence =
  occ_role :: string
  occ_local :: string
  occ_atom :: string
  occ_key :: string
  occ_effect :: string
  occ_anchor :: string
  occ_parent :: "string option"
  occ_lease :: "string option"

definition occ_ref :: "arm_occurrence \<Rightarrow> occurrence_ref" where
  "occ_ref oc = (occ_role oc, occ_local oc)"

record normalized_cell =
  norm_id :: string
  norm_atom :: string
  norm_key :: string
  norm_effect :: string
  norm_anchor :: string
  norm_parent :: "string option"
  parent_candidates :: "string list"
  has_unparented :: bool
  norm_lease :: "string option"
  lease_candidates :: "string list"
  has_unleased :: bool
  norm_occurrences :: "occurrence_ref list"

record controller =
  ctl_anchor :: string
  gate_origin :: string
  ctl_version :: int
  local_family :: family
  gate_use_ids :: "string list"

record parsed_request =
  raw_request :: "(string \<times> json) list"
  request_id :: string
  authority_id :: string
  atoms :: "string list"
  authority :: family
  source_version :: int
  source_cells :: "(string \<times> source_cell) list"
  source_future :: family
  source_receipts :: "(string \<times> ledger_receipt) list"
  current_receipts :: "(string \<times> ledger_receipt) list"
  source_durable :: config
  current_durable :: config
  source_leases :: "(string \<times> lease_binding) list"
  operator_kind :: string
  target_version :: int
  role_coverage :: "(string \<times> string) list"
  role_may :: "(string \<times> family) list"
  role_required :: "(string \<times> family) list"
  normalized_cells :: "(string \<times> normalized_cell) list"
  occurrence_to_cell :: "(occurrence_ref \<times> string) list"
  alias_groups :: "json list"
  controllers :: "(string \<times> controller) list"
  controller_future :: family
  controller_future_coverage :: string

definition operator_roles :: "(string \<times> string list) list" where
  "operator_roles =
     [(''ForkChoice'', [''left'', ''right'']), (''ForkParallel'', [''left'', ''right'']),
      (''RestoreReplace'', [''checkpoint'']), (''RestoreLive'', [''current'', ''checkpoint'']),
      (''MergeSelect'', [''left'', ''right'']), (''MergeJoin'', [''left'', ''right''])]"

definition choice_operators :: "string list" where
  "choice_operators = [''ForkChoice'', ''MergeSelect'']"

definition tensor_operators :: "string list" where
  "tensor_operators = [''ForkParallel'', ''RestoreLive'', ''MergeJoin'']"

section \<open>Operator families\<close>

definition derive_operator_family :: "parsed_request \<Rightarrow> bool \<Rightarrow> family result" where
  "derive_operator_family p required =
     (let families = (if required then role_required p else role_may p) in
      bind_r (dict_get operator_roles (operator_kind p)) (\<lambda>roles.
      if operator_kind p = ''RestoreReplace'' then dict_get families ''checkpoint''
      else bind_r (dict_get families (roles ! 0)) (\<lambda>left. bind_r (dict_get families (roles ! 1)) (\<lambda>right.
        if operator_kind p \<in> set choice_operators then Inr (family_choice left right)
        else if operator_kind p \<in> set tensor_operators then family_tensor left right
        else Inl (AssertionError (operator_kind p))))))"

section \<open>Obstructions\<close>

datatype obstruction =
  PrefixReplay string
| LineageCollision string "string list"
| ForbiddenUnion "string list" "string list" "string list"

type_synonym lineage = "(string \<times> string) list"

definition config_obstructions :: "family \<Rightarrow> config \<Rightarrow> config \<Rightarrow> lineage \<Rightarrow> obstruction list result" where
  "config_obstructions allowed_family durable c lin =
     bind_r (map_r (dict_get lin) (sorted_list_of_set c)) (\<lambda>images.
     let by_atom = zip images (sorted_list_of_set c);
         cells = (\<lambda>a. map snd (filter (\<lambda>(b, _). b = a) by_atom));
         image = sorted_list_of_set (set images);
         combined = durable \<union> set images in
     Inr (map PrefixReplay (filter (\<lambda>a. a \<in> durable) image) @
          map (\<lambda>a. LineageCollision a (sort (cells a))) (filter (\<lambda>a. length (cells a) > 1) image) @
          (if combined \<notin> allowed_family
           then [ForbiddenUnion (sorted_list_of_set durable) image (sorted_list_of_set combined)] else [])))"

definition safe_future :: "family \<Rightarrow> config \<Rightarrow> family \<Rightarrow> lineage \<Rightarrow> (family \<times> (config \<times> obstruction list) list) result" where
  "safe_future allowed_family durable candidate lin =
     bind_r (map_r (\<lambda>c. bind_r (config_obstructions allowed_family durable c lin) (\<lambda>reasons. Inr (c, reasons)))
       (sorted_configs candidate)) (\<lambda>rows.
     Inr (set (map fst (filter (\<lambda>(_, reasons). reasons = []) rows)), filter (\<lambda>(_, reasons). reasons \<noteq> []) rows))"

section \<open>Inheritance\<close>

datatype inherit_reason =
  PrefixGrew "string list" "string list"
| VersionNotMonotone int int
| ParentAmbiguous string "string list" bool
| ParentMissing string "string list"
| LineageDoesNotCommute string string string string
| ParentCollision "string list" "string list"
| ParentImageForbidden "string list" "string list"

datatype inheritance =
  Unavailable inherit_reason
| Available int int "string list" "(string \<times> string) list"

text \<open>The loop over the normalized cells: it builds the map to the parents or stops at a reason.\<close>

fun inherit_parents ::
    "parsed_request \<Rightarrow> (string \<times> normalized_cell) list \<Rightarrow> (string \<times> string) list \<Rightarrow>
     (inherit_reason + (string \<times> string) list) result" where
  "inherit_parents p [] parent_map = Inr (Inr parent_map)"
| "inherit_parents p ((cell_id, cell) # rest) parent_map =
     (case norm_parent cell of
        None \<Rightarrow> Inr (Inl (if length (parent_candidates cell) > 1
          then ParentAmbiguous cell_id (parent_candidates cell) (has_unparented cell)
          else ParentMissing cell_id (parent_candidates cell)))
      | Some parent \<Rightarrow> bind_r (dict_get (source_cells p) parent) (\<lambda>source.
          if source_atom source \<noteq> norm_atom cell
          then Inr (Inl (LineageDoesNotCommute cell_id (norm_atom cell) parent (source_atom source)))
          else inherit_parents p rest (AList.update cell_id parent parent_map)))"

text \<open>The loop over the candidate configurations.\<close>

fun inherit_configs :: "parsed_request \<Rightarrow> (string \<times> string) list \<Rightarrow> config list \<Rightarrow> inherit_reason option result" where
  "inherit_configs p parent_map [] = Inr None"
| "inherit_configs p parent_map (c # cs) =
     bind_r (map_r (dict_get parent_map) (sorted_list_of_set c)) (\<lambda>parents.
     if \<not> distinct parents then Inr (Some (ParentCollision (sorted_list_of_set c) (sort parents)))
     else if set parents \<notin> source_future p
     then Inr (Some (ParentImageForbidden (sorted_list_of_set c) (sorted_list_of_set (set parents))))
     else inherit_configs p parent_map cs)"

definition inheritance_of :: "parsed_request \<Rightarrow> family \<Rightarrow> (bool \<times> inheritance) result" where
  "inheritance_of p candidate =
     (if current_durable p \<noteq> source_durable p
      then Inr (False, Unavailable (PrefixGrew (sorted_list_of_set (source_durable p)) (sorted_list_of_set (current_durable p))))
      else if target_version p < source_version p
      then Inr (False, Unavailable (VersionNotMonotone (source_version p) (target_version p)))
      else bind_r (inherit_parents p (sort_key fst (normalized_cells p)) []) (\<lambda>outcome.
        case outcome of
          Inl reason \<Rightarrow> Inr (False, Unavailable reason)
        | Inr parent_map \<Rightarrow> bind_r (inherit_configs p parent_map (sorted_configs candidate)) (\<lambda>reason.
            case reason of
              Some r \<Rightarrow> Inr (False, Unavailable r)
            | None \<Rightarrow> Inr (True, Available (source_version p) (target_version p)
                (sorted_list_of_set (current_durable p)) (sort_key fst parent_map)))))"

end
