(* ===== verification/Coordination.thy ===== *)
theory Coordination
  imports Requests
begin

text \<open>
  The coordination part of \<open>artifact/history_admission/compiler.py\<close>: minimal nonfaces, the
  co-liveness arity, coordination components by union-find, the product of the declared
  controllers with its witnesses and its greatest safe co-live filter, the repair proposal, and
  the coordination result with its scope. The search for a root is given fuel: one step per cell
  is enough, since every parent is smaller than its cell.
\<close>

section \<open>Nonfaces and arity\<close>

definition minimal_nonfaces :: "family \<Rightarrow> config list" where
  "minimal_nonfaces F =
     sorted_configs {c \<in> Pow (support F). \<not> card c < 2 \<and> c \<notin> F \<and> (\<forall>cell\<in>c. c - {cell} \<in> F)}"

definition largest :: "config list \<Rightarrow> nat" where
  "largest cs = fold max (map card cs) 0"

definition required_coliveness_arity :: "family \<Rightarrow> family \<Rightarrow> string list \<Rightarrow> nat" where
  "required_coliveness_arity required admitted universe =
     (let required_arity = largest (sorted_configs required);
          obstruction_arity = largest (minimal_nonfaces admitted);
          outside_arity = (if set universe - support admitted \<noteq> {} then 1 else 0) in
      max (max required_arity obstruction_arity) outside_arity)"

definition validate_exact_projection :: "parsed_request \<Rightarrow> nat \<Rightarrow> unit result" where
  "validate_exact_projection p arity =
     (if controller_future_coverage p \<noteq> ''exact_projection_through_r'' then Inr ()
      else if controllers p \<noteq> [] \<and> arity = 0
      then Inl (SchemaError ''exact_projection_through_r has r=0 but declares controllers'')
      else if \<exists>c\<in>controller_future p. card c > arity
      then Inl (SchemaError ''controller_future_maxima is not a projection through derived r'')
      else Inr ())"

section \<open>Components\<close>

fun find_root :: "nat \<Rightarrow> (string \<times> string) list \<Rightarrow> string \<Rightarrow> ((string \<times> string) list \<times> string) result" where
  "find_root 0 parent cell = Inl (AssertionError ''the search for a root does not end'')"
| "find_root (Suc fuel) parent cell =
     bind_r (dict_get parent cell) (\<lambda>p.
     if p = cell then Inr (parent, cell)
     else bind_r (dict_get parent p) (\<lambda>g. find_root fuel (AList.update cell g parent) g))"

definition find_cell :: "(string \<times> string) list \<Rightarrow> string \<Rightarrow> ((string \<times> string) list \<times> string) result" where
  "find_cell parent cell = find_root (length parent) parent cell"

definition union_cells :: "(string \<times> string) list \<Rightarrow> string \<Rightarrow> string \<Rightarrow> (string \<times> string) list result" where
  "union_cells parent left right =
     bind_r (find_cell parent left) (\<lambda>(parent1, left_root).
     bind_r (find_cell parent1 right) (\<lambda>(parent2, right_root).
     Inr (if left_root \<noteq> right_root then AList.update (max left_root right_root) (min left_root right_root) parent2
          else parent2)))"

definition union_nonface :: "(string \<times> string) list \<Rightarrow> config \<Rightarrow> (string \<times> string) list result" where
  "union_nonface parent nonface =
     (let ordered = sorted_list_of_set nonface in
      fold_r (\<lambda>par cell. union_cells par (hd ordered) cell) parent (tl ordered))"

definition group_cell ::
    "(string \<times> string) list \<times> (string \<times> string list) list \<Rightarrow> string \<Rightarrow>
     ((string \<times> string) list \<times> (string \<times> string list) list) result" where
  "group_cell acc cell =
     bind_r (find_cell (fst acc) cell) (\<lambda>(parent, root).
     Inr (parent, AList.map_default root [cell] (\<lambda>cells. cells @ [cell]) (snd acc)))"

definition coordination_components :: "family \<Rightarrow> string list list result" where
  "coordination_components F =
     (let cells = sorted_list_of_set (support F) in
      bind_r (fold_r union_nonface (map (\<lambda>c. (c, c)) cells) (minimal_nonfaces F)) (\<lambda>parent.
      bind_r (fold_r group_cell (parent, []) cells) (\<lambda>(_, gs).
      Inr (sort_key (\<lambda>g. (hd g, length g)) (map (\<lambda>(_, g). sort g) gs)))))"

section \<open>The product of the controllers\<close>

type_synonym choices = "(string \<times> config) list"

record product_witness =
  co_live :: "string list"
  local_choices :: "(string \<times> string list) list"

record product_analysis =
  physical :: family
  witnesses :: "(config \<times> product_witness) list"
  safe_controller_future :: family
  safe_physical :: family

definition product_local ::
    "config \<Rightarrow> choices \<Rightarrow> string \<Rightarrow> (config \<times> choices) list \<times> int \<Rightarrow> config \<Rightarrow> ((config \<times> choices) list \<times> int) result" where
  "product_local accumulated choices anchor st loc =
     (let n = snd st + 1 in
      if n > max_product_states then Inl (SchemaError ''controller product exceeds the state cap'')
      else Inr (setdefault (accumulated \<union> loc) (AList.update anchor loc choices) (fst st), n))"

definition product_anchor ::
    "(string \<times> controller) list \<Rightarrow> (config \<times> choices) list \<times> int \<Rightarrow> string \<Rightarrow> ((config \<times> choices) list \<times> int) result" where
  "product_anchor ctls st anchor =
     bind_r (dict_get ctls anchor) (\<lambda>ctl.
     fold_r (\<lambda>st' (accumulated, choices). fold_r (product_local accumulated choices anchor) st' (sorted_configs (local_family ctl)))
       ([], snd st) (sort_key (\<lambda>row. config_key (fst row)) (fst st)))"

definition controller_product ::
    "(string \<times> controller) list \<Rightarrow> config \<Rightarrow> int \<Rightarrow> ((config \<times> choices) list \<times> int) result" where
  "controller_product ctls c n = fold_r (product_anchor ctls) ([({}, [])], n) (sorted_list_of_set c)"

definition witness_of :: "config \<Rightarrow> choices \<Rightarrow> product_witness" where
  "witness_of c choices = \<lparr>co_live = sorted_list_of_set c,
     local_choices = map (\<lambda>(anchor, loc). (anchor, sorted_list_of_set loc)) (sort_key fst choices)\<rparr>"

definition record_physical ::
    "config \<Rightarrow> family \<times> (config \<times> product_witness) list \<Rightarrow> config \<times> choices \<Rightarrow>
     (family \<times> (config \<times> product_witness) list) result" where
  "record_physical c st row =
     (let phys = insert (fst row) (fst st) in
      if int (card phys) > max_expanded_configurations
      then Inl (SchemaError ''physical controller family exceeds finite configuration cap'')
      else Inr (phys, setdefault (fst row) (witness_of c (snd row)) (snd st)))"

definition product_config ::
    "(string \<times> controller) list \<Rightarrow> family \<Rightarrow> product_analysis \<times> int \<Rightarrow> config \<Rightarrow> (product_analysis \<times> int) result" where
  "product_config ctls admitted st c =
     bind_r (controller_product ctls c (snd st)) (\<lambda>(partial, n).
     let a = fst st;
         controller_product = set (map fst partial);
         safe = controller_product \<subseteq> admitted in
     bind_r (fold_r (record_physical c) (physical a, witnesses a) partial) (\<lambda>(phys, wits).
     Inr (\<lparr>physical = phys, witnesses = wits,
           safe_controller_future = (if safe then insert c (safe_controller_future a) else safe_controller_future a),
           safe_physical = (if safe then safe_physical a \<union> controller_product else safe_physical a)\<rparr>, n)))"

definition controller_product_analysis ::
    "(string \<times> controller) list \<Rightarrow> family \<Rightarrow> family \<Rightarrow> product_analysis result" where
  "controller_product_analysis ctls future admitted =
     bind_r (fold_r (product_config ctls admitted)
       (\<lparr>physical = {}, witnesses = [], safe_controller_future = {}, safe_physical = {}\<rparr>, 0) (sorted_configs future))
     (\<lambda>st. Inr (fst st))"

end
