(* ===== verification/Deployment.thy ===== *)
theory Deployment
  imports Coordination
begin

text \<open>
  The end of \<open>artifact/history_admission/compiler.py\<close>: the repair proposal, the coordination
  result with its witnesses and scope, the lease decisions, and the compilation of a parsed request
  into its semantic class, admitted family and deployment readiness. The result document repeats
  parts of the parsed request; the model keeps the request itself in that place.
\<close>

section \<open>Repair\<close>

record coliveness_repair =
  repair_kind :: string
  repair_status :: string
  declared_product_status :: string
  restriction_maxima :: "string list list"
  declared_coverage :: string
  coverage_scope :: string
  covered :: "bool option"
  declared_product_covered :: bool
  covered_maxima :: "string list list"
  missing_required :: "string list list"
  installation_required :: bool
  effect_authorizes :: bool

definition coliveness_repair_of :: "parsed_request \<Rightarrow> family \<Rightarrow> family \<Rightarrow> family \<Rightarrow> coliveness_repair result" where
  "coliveness_repair_of p required repaired_future repaired_physical =
     (if {} \<notin> repaired_future
      then Inl (SchemaError ''internal error: empty controller configuration is not repair-safe'')
      else if \<exists>c\<in>repaired_future. \<exists>d\<in>Pow c. d \<notin> repaired_future
      then Inl (SchemaError ''internal error: canonical co-liveness repair is not downward closed'')
      else
        let missing = required - repaired_physical;
            declared = (if missing \<noteq> {} then ''infeasible''
              else if repaired_future \<noteq> controller_future p then ''feasible'' else ''not_needed'');
            coverage = controller_future_coverage p;
            repair = (\<lambda>kind status scope cov installation.
              \<lparr>repair_kind = kind, repair_status = status, declared_product_status = declared,
                restriction_maxima = maxima repaired_future, declared_coverage = coverage, coverage_scope = scope,
                covered = cov, declared_product_covered = (missing = {}),
                covered_maxima = maxima (required \<inter> repaired_physical),
                missing_required = map sorted_list_of_set (sorted_configs missing),
                installation_required = installation, effect_authorizes = False\<rparr>) in
        if coverage = ''exact''
        then Inr (repair ''co_liveness_only'' declared ''declared_controller_product'' (Some (missing = {})) (declared = ''feasible''))
        else if coverage = ''exact_projection_through_r''
        then Inr (repair ''co_liveness_projection_only'' declared ''restricted_exact_projection'' (Some (missing = {})) (declared = ''feasible''))
        else if coverage = ''sound_overapprox''
        then Inr (repair ''co_liveness_upper_bound_only'' ''diagnostic_upper_bound'' ''declared_upper_bound_product''
               (if missing \<noteq> {} then Some False else None) False)
        else Inl (SchemaError ''internal error: unsupported coverage mode''))"

section \<open>The coordination result\<close>

definition minimal_covering_controllers :: "config \<Rightarrow> (string \<times> string list) list \<Rightarrow> string list" where
  "minimal_covering_controllers target choices =
     (let chosen = sort (map fst (filter (\<lambda>(_, loc). set loc \<inter> target \<noteq> {}) choices)) in
      fold (\<lambda>anchor current.
          let without = filter (\<lambda>a. a \<noteq> anchor) current;
              covered = (\<Union>a\<in>set without. set (the (map_of choices a)) \<inter> target) in
          if target \<subseteq> covered then remove1 anchor current else current)
        (rev chosen) chosen)"

datatype coordination_witness =
  OptionalBehaviorRestricted "string list"
| OutsideSupport string string string
| ControllerOverpermit "string list" string string
| CorrelationCut string "string list" "string list" "(string \<times> string list) list" "(string \<times> string) list"
| MissingRequiredBehavior "string list"

record coordination =
  co_status :: string
  required_covered :: "bool option"
  admitted_respected :: "bool option"
  exact_fidelity :: "bool option"
  target_maxima :: "string list list option"
  physical_maxima :: "string list list"
  co_nonfaces :: "string list list"
  co_components :: "string list list"
  co_witness :: "coordination_witness option"
  physical_scope :: string
  declared_required_covered :: "bool option"
  required_coverage_accepted :: "bool option"

definition scope_coordination_result :: "string \<Rightarrow> coordination \<Rightarrow> coordination result" where
  "scope_coordination_result coverage r =
     (if co_status r = ''not_applicable''
      then Inr (r\<lparr>physical_scope := ''not_applicable'', declared_required_covered := None, required_coverage_accepted := None\<rparr>)
      else
        let declared = required_covered r;
            r1 = r\<lparr>declared_required_covered := declared\<rparr> in
        if coverage = ''exact''
        then Inr (r1\<lparr>physical_scope := ''declared_full_product'', required_coverage_accepted := declared\<rparr>)
        else if coverage = ''exact_projection_through_r''
        then let r2 = r1\<lparr>physical_scope := ''exact_projection_lower_bound'', required_coverage_accepted := declared\<rparr> in
             Inr (if co_status r2 = ''safe_restriction''
                  then r2\<lparr>co_status := ''ready_fidelity_unknown'', exact_fidelity := None, co_witness := None\<rparr> else r2)
        else if coverage \<noteq> ''sound_overapprox'' then Inl (SchemaError ''internal error: unsupported coverage mode'')
        else
          let r2 = r1\<lparr>physical_scope := ''declared_upper_bound_product'', required_coverage_accepted := Some False,
                     exact_fidelity := None, required_covered := (if declared = Some True then None else declared)\<rparr> in
          Inr (if co_status r2 \<in> {''exact'', ''safe_restriction''}
               then r2\<lparr>co_status := ''safety_upper_bound'', co_witness := None\<rparr>
               else if co_status r2 = ''unsafe_overapprox'' then r2\<lparr>co_status := ''upper_bound_not_safe''\<rparr>
               else if co_status r2 = ''unsafe_and_incomplete'' then r2\<lparr>co_status := ''upper_bound_not_safe_and_missing_required''\<rparr>
               else r2))"

definition coordination_base :: "family \<Rightarrow> family \<Rightarrow> string list list \<Rightarrow> coordination" where
  "coordination_base admitted phys components =
     \<lparr>co_status = [], required_covered = None, admitted_respected = None, exact_fidelity = None,
      target_maxima = Some (maxima admitted), physical_maxima = maxima phys,
      co_nonfaces = map sorted_list_of_set (minimal_nonfaces admitted), co_components = components, co_witness = None,
      physical_scope = [], declared_required_covered = None, required_coverage_accepted = None\<rparr>"

definition gate_origins_of :: "parsed_request \<Rightarrow> string list \<Rightarrow> (string \<times> string) list result" where
  "gate_origins_of p anchors =
     map_r (\<lambda>a. bind_r (dict_get (controllers p) a) (\<lambda>ctl. Inr (a, gate_origin ctl))) anchors"

text \<open>The witness for a configuration of the product outside the admitted family.\<close>

definition extra_witness :: "parsed_request \<Rightarrow> family \<Rightarrow> config \<Rightarrow> product_witness \<Rightarrow> coordination_witness result" where
  "extra_witness p admitted c w =
     (let outside = c - support admitted; nonfaces = minimal_nonfaces admitted; choices = local_choices w in
      if outside \<noteq> {} then
        let cell = hd (sorted_list_of_set outside) in
        (case List.find (\<lambda>(_, loc). cell \<in> set loc) (sort_key fst choices) of
           None \<Rightarrow> Inl (AssertionError ''StopIteration'')
         | Some (anchor, _) \<Rightarrow> bind_r (dict_get (controllers p) anchor) (\<lambda>ctl.
             Inr (OutsideSupport cell anchor (gate_origin ctl))))
      else case filter (\<lambda>nonface. nonface \<subseteq> c) nonfaces of
          [] \<Rightarrow> Inl (SchemaError ''internal error: no outside-support cell and no minimal nonface'')
        | minimal # _ \<Rightarrow>
          (case filter (\<lambda>(_, loc). set loc \<notin> admitted) (sort_key fst choices) of
             (anchor, loc) # _ \<Rightarrow>
               (case filter (\<lambda>nonface. nonface \<subseteq> set loc) nonfaces of
                  [] \<Rightarrow> Inl (SchemaError ''internal error: locally unsafe controller choice has no minimal nonface'')
                | local_minimal # _ \<Rightarrow> bind_r (dict_get (controllers p) anchor) (\<lambda>ctl.
                    Inr (ControllerOverpermit (sorted_list_of_set local_minimal) anchor (gate_origin ctl))))
           | [] \<Rightarrow>
               let used = minimal_covering_controllers minimal choices in
               bind_r (gate_origins_of p used) (\<lambda>origins.
               if length used < 2
               then Inl (SchemaError ''internal error: a locally sound product minimal nonface is not split across controllers'')
               else Inr (CorrelationCut (if card (snd ` set origins) = 1 then ''GateClone'' else ''GateCut'')
                      (sorted_list_of_set minimal) used
                      (map (\<lambda>a. (a, sorted_list_of_set (set (the (map_of choices a)) \<inter> minimal))) used) origins))))"

definition coordination_result ::
    "parsed_request \<Rightarrow> family option \<Rightarrow> family \<Rightarrow> product_analysis option \<Rightarrow> coordination result" where
  "coordination_result p admitted_option required analysis =
     (case admitted_option of
        None \<Rightarrow> scope_coordination_result (controller_future_coverage p)
          \<lparr>co_status = ''not_applicable'', required_covered = None, admitted_respected = None, exact_fidelity = None,
           target_maxima = None, physical_maxima = maxima {{}}, co_nonfaces = [], co_components = [], co_witness = None,
           physical_scope = [], declared_required_covered = None, required_coverage_accepted = None\<rparr>
      | Some admitted \<Rightarrow>
        (case analysis of
           None \<Rightarrow> Inl (SchemaError ''internal error: missing controller product analysis'')
         | Some a \<Rightarrow>
           bind_r (coordination_components admitted) (\<lambda>components.
           let base = coordination_base admitted (physical a) components;
               extra = physical a - admitted;
               missing = admitted - physical a;
               missing_req = required - physical a;
               scoped = scope_coordination_result (controller_future_coverage p) in
           if extra = {} \<and> missing = {}
           then scoped (base\<lparr>co_status := ''exact'', required_covered := Some True, admitted_respected := Some True,
                  exact_fidelity := Some True\<rparr>)
           else if extra = {} \<and> missing_req = {}
           then scoped (base\<lparr>co_status := ''safe_restriction'', required_covered := Some True, admitted_respected := Some True,
                  exact_fidelity := Some False,
                  co_witness := Some (OptionalBehaviorRestricted (sorted_list_of_set (hd (sorted_configs missing))))\<rparr>)
           else
             bind_r (if extra \<noteq> {}
               then let c = hd (sorted_configs extra) in
                 bind_r (dict_get (witnesses a) c) (\<lambda>w. extra_witness p admitted c w)
               else Inr (MissingRequiredBehavior (sorted_list_of_set (hd (sorted_configs missing_req))))) (\<lambda>w.
             scoped (base\<lparr>co_status := (if extra \<noteq> {} \<and> missing_req \<noteq> {} then ''unsafe_and_incomplete''
                    else if extra \<noteq> {} then ''unsafe_overapprox'' else ''missing_required''),
                  required_covered := Some (missing_req = {}), admitted_respected := Some (extra = {}),
                  exact_fidelity := Some False, co_witness := Some w\<rparr>)))))"

section \<open>Leases\<close>

record lease_result =
  lease_ref :: string
  lease_issued :: int
  lease_source :: string
  lease_result_atom :: string
  decision :: string
  target_cells :: "string list"

definition lease_results :: "parsed_request \<Rightarrow> string \<Rightarrow> lease_result list" where
  "lease_results p semantic_class =
     map (\<lambda>(i, lease).
       let targets = sort (map fst (filter (\<lambda>(_, cell). norm_lease cell = Some i \<and>
             norm_parent cell = Some (lease_cell lease) \<and> norm_atom cell = lease_atom lease) (normalized_cells p))) in
       \<lparr>lease_ref = i, lease_issued = issued_version lease, lease_source = lease_cell lease,
        lease_result_atom = lease_atom lease,
        decision = (if semantic_class = ''Inherit'' \<and> targets \<noteq> [] then ''inherited'' else ''revalidate''),
        target_cells = targets\<rparr>) (sort_key fst (source_leases p))"

section \<open>Compilation\<close>

record pruned =
  pruned_kind :: string
  pruned_config :: "string list"
  pruned_reasons :: "obstruction list"

record compile_result =
  res_request :: parsed_request
  candidate_family :: family
  required_family :: family
  safe_family :: family
  semantic_class :: string
  family_name :: "string option"
  admitted_family :: "family option"
  res_inheritance :: inheritance
  pruning_witness :: "pruned option"
  rejection_witness :: "pruned option"
  res_coordination :: coordination
  coliveness_arity :: "nat option"
  res_repair :: "coliveness_repair option"
  restriction :: string
  readiness :: string
  structurally_eligible :: bool
  external_obligations :: "string list"
  res_leases :: "lease_result list"

text \<open>The semantic class with the admitted family, its name and the witnesses of pruning and rejection.\<close>

definition classify ::
    "bool \<Rightarrow> family \<Rightarrow> family \<Rightarrow> family \<Rightarrow> (config \<times> obstruction list) list \<Rightarrow>
     (string \<times> family option \<times> string option \<times> pruned option \<times> pruned option) result" where
  "classify can_inherit candidate required safe obstructions =
     (if can_inherit then Inr (''Inherit'', Some candidate, Some ''candidate'', None, None)
      else if safe = candidate then Inr (''ReadmitOK'', Some candidate, Some ''candidate'', None, None)
      else if required \<subseteq> safe
      then let c = hd (sorted_configs (candidate - safe)) in
        bind_r (dict_get obstructions c) (\<lambda>reasons.
        Inr (''NeedsMechanism'', Some safe, Some ''safeFuture'',
             Some \<lparr>pruned_kind = ''OptionalConfigurationPruned'', pruned_config = sorted_list_of_set c, pruned_reasons = reasons\<rparr>, None))
      else let c = hd (sorted_configs (required - safe)) in
        bind_r (dict_get obstructions c) (\<lambda>reasons.
        Inr (''Reject'', None, None, None,
             Some \<lparr>pruned_kind = ''RequiredConfigurationRejected'', pruned_config = sorted_list_of_set c, pruned_reasons = reasons\<rparr>)))"

definition coordination_ready :: "string \<Rightarrow> coordination \<Rightarrow> bool" where
  "coordination_ready coverage co \<longleftrightarrow> coverage \<in> {''exact'', ''exact_projection_through_r''} \<and>
     required_coverage_accepted co = Some True \<and> admitted_respected co = Some True"

definition readiness_of :: "string \<Rightarrow> string \<Rightarrow> coordination \<Rightarrow> string" where
  "readiness_of cls coverage co =
     (let restriction_required = (cls = ''NeedsMechanism'') in
      if cls = ''Reject'' then ''NotApplicable''
      else if coverage = ''sound_overapprox'' \<and> declared_required_covered co = Some False
      then (if restriction_required then ''NeedsRestrictionAndCoordination'' else ''NeedsCoordination'')
      else if coverage = ''sound_overapprox'' then ''RequiresExactCoverage''
      else if restriction_required \<and> coordination_ready coverage co then ''ReadyWithRestriction''
      else if restriction_required then ''NeedsRestrictionAndCoordination''
      else if coordination_ready coverage co then ''Ready''
      else ''NeedsCoordination'')"

definition obligations_of :: "string \<Rightarrow> string \<Rightarrow> lease_result list \<Rightarrow> string list" where
  "obligations_of cls coverage leases =
     [''atomic_redemption'', ''complete_mediation'', ''controller_coliveness_coverage_attestation'',
      ''controller_installation_and_freshness'', ''manifest_ledger_and_receipt_authenticity'', ''runtime_required_coverage''] @
     (if coverage = ''exact_projection_through_r''
      then [''controller_projection_exactness_attestation'', ''hidden_coliveness_downward_closure'',
            ''runtime_soundness_against_attested_full_controller_family'']
      else [''runtime_soundness_against_declared_physical_family'']) @
     (if cls \<in> {''ReadmitOK'', ''NeedsMechanism''} then [''fresh_authority_issuance''] else []) @
     (if \<exists>item\<in>set leases. decision item = ''revalidate'' then [''lease_revalidation''] else [])"

text \<open>The analysis of the controllers, only done for an admitted family.\<close>

definition coordinate ::
    "parsed_request \<Rightarrow> family \<Rightarrow> family option \<Rightarrow> (coordination \<times> nat option \<times> coliveness_repair option) result" where
  "coordinate p required admitted_option =
     (case admitted_option of
        None \<Rightarrow> bind_r (coordination_result p None required None) (\<lambda>co. Inr (co, None, None))
      | Some admitted \<Rightarrow>
          let arity = required_coliveness_arity required admitted (map fst (normalized_cells p)) in
          bind_r (validate_exact_projection p arity) (\<lambda>_.
          bind_r (controller_product_analysis (controllers p) (controller_future p) admitted) (\<lambda>a.
          bind_r (coordination_result p (Some admitted) required (Some a)) (\<lambda>co.
          bind_r (coliveness_repair_of p required (safe_controller_future a) (safe_physical a)) (\<lambda>rep.
          Inr (co, Some arity, Some rep))))))"

definition compile_parsed :: "parsed_request \<Rightarrow> compile_result result" where
  "compile_parsed p =
     bind_r (derive_operator_family p False) (\<lambda>candidate.
     bind_r (derive_operator_family p True) (\<lambda>required.
     if \<not> required \<subseteq> candidate then Inl (SchemaError ''generated required family is not a subset of candidate'')
     else
       let lineage = map (\<lambda>(i, cell). (i, norm_atom cell)) (normalized_cells p) in
       bind_r (safe_future (authority p) (current_durable p) candidate lineage) (\<lambda>(safe, obstructions).
       bind_r (inheritance_of p candidate) (\<lambda>(can_inherit, inh).
       bind_r (classify can_inherit candidate required safe obstructions) (\<lambda>(cls, admitted, name, pruning, rejection).
       bind_r (coordinate p required admitted) (\<lambda>(co, arity, rep).
       let coverage = controller_future_coverage p;
           leases = lease_results p cls;
           restriction_required = (cls = ''NeedsMechanism'');
           declared_sandwich = (declared_required_covered co = Some True \<and> admitted_respected co = Some True) in
       Inr \<lparr>res_request = p, candidate_family = candidate, required_family = required, safe_family = safe,
            semantic_class = cls, family_name = name, admitted_family = admitted, res_inheritance = inh,
            pruning_witness = pruning, rejection_witness = rejection, res_coordination = co, coliveness_arity = arity,
            res_repair = rep,
            restriction = (if restriction_required \<and> declared_sandwich then ''manifest_supplied''
              else if restriction_required then ''required'' else ''not_required''),
            readiness = readiness_of cls coverage co,
            structurally_eligible = (cls \<noteq> ''Reject'' \<and> coordination_ready coverage co),
            external_obligations = obligations_of cls coverage leases, res_leases = leases\<rparr>))))))"

end
