(* ===== verification/Products.thy ===== *)
theory Products
  imports Deployment
begin

text \<open>
  What the product analysis computes: the physical family is the union of the independent products
  of the co-live controllers, the witnesses are choices that produce their configuration, the safe
  co-live configurations are the greatest downward closed family whose product respects the admitted
  family, and co-liveness up to the derived arity decides coverage and safety.
\<close>

section \<open>Independent products\<close>

definition product_family :: "(string \<Rightarrow> family) \<Rightarrow> config \<Rightarrow> family" where
  "product_family L C = {(\<Union>a\<in>C. f a) |f. \<forall>a\<in>C. f a \<in> L a}"

definition physical_family :: "(string \<Rightarrow> family) \<Rightarrow> family \<Rightarrow> family" where
  "physical_family L \<Gamma> = (\<Union>C\<in>\<Gamma>. product_family L C)"

definition families_of :: "(string \<times> controller) list \<Rightarrow> string \<Rightarrow> family" where
  "families_of ctls a = (case map_of ctls a of None \<Rightarrow> {} | Some ctl \<Rightarrow> local_family ctl)"

definition controllers_ok :: "(string \<times> controller) list \<Rightarrow> family \<Rightarrow> bool" where
  "controllers_ok ctls \<Gamma> \<longleftrightarrow> complex \<Gamma> \<and> support \<Gamma> \<subseteq> fst ` set ctls \<and> (\<forall>a\<in>fst ` set ctls. complex (families_of ctls a))"

lemma product_family_empty [simp]: "product_family L {} = {{}}"
  by (auto simp: product_family_def)

lemma product_familyI: "(\<And>a. a \<in> C \<Longrightarrow> f a \<in> L a) \<Longrightarrow> (\<Union>a\<in>C. f a) \<in> product_family L C"
  by (auto simp: product_family_def)

lemma product_familyE:
  assumes "x \<in> product_family L C"
  obtains f where "x = (\<Union>a\<in>C. f a)" "\<And>a. a \<in> C \<Longrightarrow> f a \<in> L a"
  using assms by (auto simp: product_family_def)

lemma product_family_insert:
  assumes "a \<notin> C"
  shows "product_family L (insert a C) = {x \<union> l |x l. x \<in> product_family L C \<and> l \<in> L a}"
proof
  show "product_family L (insert a C) \<subseteq> {x \<union> l |x l. x \<in> product_family L C \<and> l \<in> L a}"
  proof
    fix y assume "y \<in> product_family L (insert a C)"
    then obtain f where f: "y = (\<Union>b\<in>insert a C. f b)" "\<And>b. b \<in> insert a C \<Longrightarrow> f b \<in> L b" by (rule product_familyE) blast
    then have "y = (\<Union>b\<in>C. f b) \<union> f a" by blast
    moreover have "(\<Union>b\<in>C. f b) \<in> product_family L C" using f(2) by (intro product_familyI) simp
    ultimately show "y \<in> {x \<union> l |x l. x \<in> product_family L C \<and> l \<in> L a}" using f(2) [of a] by blast
  qed
  show "{x \<union> l |x l. x \<in> product_family L C \<and> l \<in> L a} \<subseteq> product_family L (insert a C)"
  proof clarify
    fix x l assume x: "x \<in> product_family L C" and l: "l \<in> L a"
    obtain f where f: "x = (\<Union>b\<in>C. f b)" "\<And>b. b \<in> C \<Longrightarrow> f b \<in> L b" using x by (rule product_familyE) blast
    let ?g = "f(a := l)"
    have "x = (\<Union>b\<in>C. ?g b)" using f(1) assms by auto
    then have "x \<union> l = (\<Union>b\<in>insert a C. ?g b)" by auto
    moreover have "(\<Union>b\<in>insert a C. ?g b) \<in> product_family L (insert a C)"
      using f(2) l by (intro product_familyI) auto
    ultimately show "x \<union> l \<in> product_family L (insert a C)" by simp
  qed
qed

lemma product_family_mono:
  assumes "D \<subseteq> C" and "\<And>a. a \<in> C \<Longrightarrow> {} \<in> L a"
  shows "product_family L D \<subseteq> product_family L C"
proof
  fix x assume "x \<in> product_family L D"
  then obtain f where f: "x = (\<Union>b\<in>D. f b)" "\<And>b. b \<in> D \<Longrightarrow> f b \<in> L b" by (rule product_familyE) blast
  have "x = (\<Union>b\<in>C. if b \<in> D then f b else {})" using f(1) assms(1) by auto
  moreover have "(\<Union>b\<in>C. if b \<in> D then f b else {}) \<in> product_family L C"
    using f(2) assms(2) by (intro product_familyI) auto
  ultimately show "x \<in> product_family L C" by simp
qed

lemma product_family_closed:
  assumes "\<And>a. a \<in> C \<Longrightarrow> complex (L a)" and "x \<in> product_family L C" and "y \<subseteq> x"
  shows "y \<in> product_family L C"
proof -
  obtain f where f: "x = (\<Union>b\<in>C. f b)" "\<And>b. b \<in> C \<Longrightarrow> f b \<in> L b" using assms(2) by (rule product_familyE) blast
  have "y = (\<Union>b\<in>C. f b \<inter> y)" using f(1) assms(3) by auto
  moreover have "(\<Union>b\<in>C. f b \<inter> y) \<in> product_family L C"
    using f(2) complexD(3) [OF assms(1)] by (intro product_familyI) blast
  ultimately show ?thesis by simp
qed

section \<open>The loops\<close>

text \<open>A row of the product so far: a configuration with one choice per anchor that produces it.\<close>

definition row_ok :: "(string \<Rightarrow> family) \<Rightarrow> string list \<Rightarrow> config \<times> choices \<Rightarrow> bool" where
  "row_ok L xs row \<longleftrightarrow> map fst (snd row) = xs \<and> (\<forall>(a, l)\<in>set (snd row). l \<in> L a) \<and> fst row = \<Union> (snd ` set (snd row))"

lemma setdefault_keys: "fst ` set (setdefault k v d) = insert k (fst ` set d)"
  by (auto simp: setdefault_def split: option.splits dest!: map_of_SomeD intro: rev_image_eqI)

lemma setdefault_set: "set (setdefault k v d) \<subseteq> insert (k, v) (set d)"
  by (auto simp: setdefault_def split: option.splits)

lemma distinct_setdefault: "distinct (map fst d) \<Longrightarrow> distinct (map fst (setdefault k v d))"
  by (auto simp: setdefault_def map_of_eq_None_iff split: option.splits)

lemma product_local_Inr:
  "product_local acc ch a st l = Inr st' \<Longrightarrow> st' = (setdefault (acc \<union> l) (AList.update a l ch) (fst st), snd st + 1)"
  by (simp add: product_local_def Let_def split: if_splits)

lemma product_locals:
  assumes "fold_r (product_local acc ch a) st locs = Inr st'"
  shows "fst ` set (fst st') = fst ` set (fst st) \<union> (\<lambda>l. acc \<union> l) ` set locs"
    "set (fst st') \<subseteq> set (fst st) \<union> (\<lambda>l. (acc \<union> l, AList.update a l ch)) ` set locs"
proof -
  have "fst ` set (fst st') = fst ` set (fst st) \<union> (\<lambda>l. acc \<union> l) ` set locs \<and>
    set (fst st') \<subseteq> set (fst st) \<union> (\<lambda>l. (acc \<union> l, AList.update a l ch)) ` set locs"
    using assms
  proof (induction locs arbitrary: st)
    case (Cons l locs)
    then obtain st1 where st1: "product_local acc ch a st l = Inr st1" and rest: "fold_r (product_local acc ch a) st1 locs = Inr st'"
      by auto
    have eq: "fst st1 = setdefault (acc \<union> l) (AList.update a l ch) (fst st)" using product_local_Inr [OF st1] by simp
    show ?case using Cons.IH [OF rest] setdefault_set [of "acc \<union> l" "AList.update a l ch" "fst st"]
      by (auto simp: eq setdefault_keys)
  qed auto
  then show "fst ` set (fst st') = fst ` set (fst st) \<union> (\<lambda>l. acc \<union> l) ` set locs"
    "set (fst st') \<subseteq> set (fst st) \<union> (\<lambda>l. (acc \<union> l, AList.update a l ch)) ` set locs" by blast+
qed

lemma product_rows:
  assumes "fold_r (\<lambda>st' (acc, ch). fold_r (product_local acc ch a) st' locs) st rows = Inr st'"
  shows "fst ` set (fst st') = fst ` set (fst st) \<union> (\<Union>row\<in>set rows. (\<lambda>l. fst row \<union> l) ` set locs)"
    "set (fst st') \<subseteq> set (fst st) \<union> (\<Union>row\<in>set rows. (\<lambda>l. (fst row \<union> l, AList.update a l (snd row))) ` set locs)"
  using assms
proof (induction rows arbitrary: st)
  case (Cons row rows)
  obtain acc ch where row: "row = (acc, ch)" by (cases row)
  {
    case 1
    then obtain st1 where st1: "fold_r (product_local acc ch a) st locs = Inr st1"
      and rest: "fold_r (\<lambda>st' (acc, ch). fold_r (product_local acc ch a) st' locs) st1 rows = Inr st'" by (auto simp: row)
    show ?case using Cons.IH(1) [OF rest] product_locals(1) [OF st1] by (auto simp: row)
  next
    case 2
    then obtain st1 where st1: "fold_r (product_local acc ch a) st locs = Inr st1"
      and rest: "fold_r (\<lambda>st' (acc, ch). fold_r (product_local acc ch a) st' locs) st1 rows = Inr st'" by (auto simp: row)
    show ?case using Cons.IH(2) [OF rest] product_locals(2) [OF st1] by (simp add: row) blast
  }
qed auto

lemma product_anchor_ok:
  assumes "product_anchor ctls st a = Inr st'" and "complex (families_of ctls a)" and "a \<notin> set xs"
    and "fst ` set (fst st) = product_family (families_of ctls) (set xs)" and "\<forall>row\<in>set (fst st). row_ok (families_of ctls) xs row"
  shows "fst ` set (fst st') = product_family (families_of ctls) (set (xs @ [a]))"
    "\<forall>row\<in>set (fst st'). row_ok (families_of ctls) (xs @ [a]) row"
proof -
  let ?L = "families_of ctls"
  let ?rows = "sort_key (\<lambda>row. config_key (fst row)) (fst st)"
  obtain ctl where ctl: "map_of ctls a = Some ctl"
    and fold: "fold_r (\<lambda>st' (acc, ch). fold_r (product_local acc ch a) st' (sorted_configs (local_family ctl))) ([], snd st) ?rows = Inr st'"
    using assms(1) by (auto simp: product_anchor_def dict_get_def split: option.splits)
  have L: "?L a = local_family ctl" by (simp add: families_of_def ctl)
  have locs: "set (sorted_configs (local_family ctl)) = ?L a"
    using complexD(1,2) [OF assms(2)] unfolding L by (intro set_sorted_configs) auto
  have "fst ` set (fst st') = (\<Union>row\<in>set (fst st). (\<lambda>l. fst row \<union> l) ` ?L a)"
    using product_rows(1) [OF fold] by (simp add: locs)
  also have "\<dots> = {x \<union> l |x l. x \<in> fst ` set (fst st) \<and> l \<in> ?L a}" by auto
  also have "\<dots> = product_family ?L (set (xs @ [a]))"
    unfolding assms(4) product_family_insert [OF assms(3), symmetric] by simp
  finally show "fst ` set (fst st') = product_family ?L (set (xs @ [a]))" .
  show "\<forall>row\<in>set (fst st'). row_ok ?L (xs @ [a]) row"
  proof
    fix row assume "row \<in> set (fst st')"
    then obtain r l where r: "r \<in> set (fst st)" "l \<in> ?L a" "row = (fst r \<union> l, AList.update a l (snd r))"
      using product_rows(2) [OF fold] by (auto simp: locs)
    have ok: "map fst (snd r) = xs" "\<forall>(b, l)\<in>set (snd r). l \<in> ?L b" "fst r = \<Union> (snd ` set (snd r))"
      using assms(5) r(1) by (auto simp: row_ok_def)
    have "a \<notin> fst ` set (snd r)" using assms(3) unfolding ok(1) [symmetric] by simp
    then have "AList.update a l (snd r) = snd r @ [(a, l)]" by (rule update_fresh)
    then show "row_ok ?L (xs @ [a]) row" using ok r(2,3) by (auto simp: row_ok_def)
  qed
qed

lemma product_anchors_ok:
  assumes "fold_r (product_anchor ctls) st ys = Inr st'" and "\<forall>a\<in>set ys. complex (families_of ctls a)" and "distinct (xs @ ys)"
    and "fst ` set (fst st) = product_family (families_of ctls) (set xs)" and "\<forall>row\<in>set (fst st). row_ok (families_of ctls) xs row"
  shows "fst ` set (fst st') = product_family (families_of ctls) (set (xs @ ys))"
    "\<forall>row\<in>set (fst st'). row_ok (families_of ctls) (xs @ ys) row"
proof -
  have "fst ` set (fst st') = product_family (families_of ctls) (set (xs @ ys)) \<and>
    (\<forall>row\<in>set (fst st'). row_ok (families_of ctls) (xs @ ys) row)"
    using assms
  proof (induction ys arbitrary: st xs)
    case (Cons a ys)
    then obtain st1 where st1: "product_anchor ctls st a = Inr st1" and rest: "fold_r (product_anchor ctls) st1 ys = Inr st'" by auto
    have a: "complex (families_of ctls a)" "a \<notin> set xs" using Cons.prems(2,3) by auto
    note step = product_anchor_ok [OF st1 a Cons.prems(4,5)]
    have "distinct ((xs @ [a]) @ ys)" "\<forall>a\<in>set ys. complex (families_of ctls a)" using Cons.prems(2,3) by auto
    from Cons.IH [OF rest this(2,1) step] show ?case by simp
  qed auto
  then show "fst ` set (fst st') = product_family (families_of ctls) (set (xs @ ys))"
    "\<forall>row\<in>set (fst st'). row_ok (families_of ctls) (xs @ ys) row" by blast+
qed

lemma controller_product_ok:
  assumes "controller_product ctls C n = Inr (rows, m)" and "finite C" and "\<forall>a\<in>C. complex (families_of ctls a)"
  shows "fst ` set rows = product_family (families_of ctls) C" "\<forall>row\<in>set rows. row_ok (families_of ctls) (sorted_list_of_set C) row"
proof -
  have start: "fst ` set (fst ([({}, [] :: choices)], n)) = product_family (families_of ctls) (set [])"
    "\<forall>row\<in>set (fst ([({}, [] :: choices)], n)). row_ok (families_of ctls) [] row" by (simp_all add: row_ok_def)
  note res = product_anchors_ok [OF assms(1) [unfolded controller_product_def] _ _ start]
  show "fst ` set rows = product_family (families_of ctls) C" "\<forall>row\<in>set rows. row_ok (families_of ctls) (sorted_list_of_set C) row"
    using res assms(2,3) by simp_all
qed

definition witness_ok :: "(string \<Rightarrow> family) \<Rightarrow> family \<Rightarrow> config \<times> product_witness \<Rightarrow> bool" where
  "witness_ok L \<Gamma> row \<longleftrightarrow> (\<exists>C\<in>\<Gamma>. co_live (snd row) = sorted_list_of_set C \<and>
     map fst (local_choices (snd row)) = sorted_list_of_set C \<and>
     (\<forall>(a, l)\<in>set (local_choices (snd row)). set l \<in> L a) \<and> fst row = (\<Union>(a, l)\<in>set (local_choices (snd row)). set l))"

lemma witness_of_row:
  assumes "row_ok L (sorted_list_of_set C) row" and "C \<in> \<Gamma>" and "\<forall>a\<in>C. complex (L a)" and "finite C"
  shows "witness_ok L \<Gamma> (fst row, witness_of C (snd row))"
proof -
  have ok: "map fst (snd row) = sorted_list_of_set C" "\<forall>(a, l)\<in>set (snd row). l \<in> L a" "fst row = \<Union> (snd ` set (snd row))"
    using assms(1) by (auto simp: row_ok_def)
  have "sorted (map fst (snd row))" unfolding ok(1) by simp
  then have sorted: "sort_key fst (snd row) = snd row" by (rule sort_key_id_if_sorted)
  have fin: "finite l" if "(a, l) \<in> set (snd row)" for a l
  proof -
    have "a \<in> fst ` set (snd row)" using that by (rule rev_image_eqI) simp
    then have "a \<in> C" using arg_cong [OF ok(1), of set] assms(4) by simp
    then have "complex (L a)" "l \<in> L a" using assms(3) ok(2) that by auto
    then show ?thesis by (rule complexD(2))
  qed
  have "map fst (local_choices (witness_of C (snd row))) = sorted_list_of_set C"
    by (simp add: witness_of_def sorted ok(1) [symmetric] comp_def split_def)
  moreover have "\<forall>(a, l)\<in>set (local_choices (witness_of C (snd row))). set l \<in> L a"
    using ok(2) fin by (auto simp: witness_of_def sorted)
  moreover have "fst row = (\<Union>(a, l)\<in>set (local_choices (witness_of C (snd row))). set l)"
  proof -
    have f: "finite (snd x)" if "x \<in> set (snd row)" for x using fin [of "fst x" "snd x"] that by simp
    have "(\<lambda>(a, l). set l) ` set (local_choices (witness_of C (snd row))) = (\<lambda>x. set (sorted_list_of_set (snd x))) ` set (snd row)"
      by (simp add: witness_of_def sorted image_image split_def)
    also have "\<dots> = snd ` set (snd row)" by (rule image_cong [OF refl]) (simp add: f)
    finally have "(\<lambda>(a, l). set l) ` set (local_choices (witness_of C (snd row))) = snd ` set (snd row)" .
    then show ?thesis unfolding ok(3) by simp
  qed
  ultimately show ?thesis using assms(2) unfolding witness_ok_def by (auto simp: witness_of_def)
qed

lemma record_physical_fold:
  assumes "fold_r (record_physical C) st rows = Inr st'"
  shows "fst st' = fst st \<union> fst ` set rows \<and> fst ` set (snd st') = fst ` set (snd st) \<union> fst ` set rows \<and>
    set (snd st') \<subseteq> set (snd st) \<union> (\<lambda>row. (fst row, witness_of C (snd row))) ` set rows"
  using assms
proof (induction rows arbitrary: st)
  case (Cons row rows)
  then obtain st1 where st1: "record_physical C st row = Inr st1" and rest: "fold_r (record_physical C) st1 rows = Inr st'" by auto
  have eq: "fst st1 = insert (fst row) (fst st)" "snd st1 = setdefault (fst row) (witness_of C (snd row)) (snd st)"
    using st1 by (auto simp: record_physical_def Let_def split: if_splits)
  show ?case using Cons.IH [OF rest] setdefault_set [of "fst row" "witness_of C (snd row)" "snd st"]
    by (auto simp: eq setdefault_keys)
qed auto

text \<open>What the analysis has found after the co-live configurations of a set.\<close>

definition analysed :: "(string \<Rightarrow> family) \<Rightarrow> family \<Rightarrow> family \<Rightarrow> product_analysis \<Rightarrow> bool" where
  "analysed L adm \<Gamma> a \<longleftrightarrow> physical a = physical_family L \<Gamma> \<and> fst ` set (witnesses a) = physical_family L \<Gamma> \<and>
     (\<forall>row\<in>set (witnesses a). witness_ok L \<Gamma> row) \<and>
     safe_controller_future a = {C \<in> \<Gamma>. product_family L C \<subseteq> adm} \<and>
     safe_physical a = physical_family L {C \<in> \<Gamma>. product_family L C \<subseteq> adm}"

lemma physical_family_insert: "physical_family L (insert C \<Gamma>) = product_family L C \<union> physical_family L \<Gamma>"
  by (simp add: physical_family_def)

lemma witness_ok_mono: "witness_ok L \<Gamma> row \<Longrightarrow> \<Gamma> \<subseteq> \<Delta> \<Longrightarrow> witness_ok L \<Delta> row"
  unfolding witness_ok_def by blast

lemma product_config_ok:
  assumes "product_config ctls adm (a, n) C = Inr (a', n')" and "finite C" and "\<forall>x\<in>C. complex (families_of ctls x)"
    and "analysed (families_of ctls) adm \<Gamma> a"
  shows "analysed (families_of ctls) adm (insert C \<Gamma>) a'"
proof -
  let ?L = "families_of ctls"
  obtain rows m phys wits where rows: "controller_product ctls C n = Inr (rows, m)"
    and rec: "fold_r (record_physical C) (physical a, witnesses a) rows = Inr (phys, wits)"
    and a': "a' = \<lparr>physical = phys, witnesses = wits,
           safe_controller_future = (if fst ` set rows \<subseteq> adm then insert C (safe_controller_future a) else safe_controller_future a),
           safe_physical = (if fst ` set rows \<subseteq> adm then safe_physical a \<union> fst ` set rows else safe_physical a)\<rparr>"
    using assms(1) by (auto simp: product_config_def Let_def)
  note prod = controller_product_ok [OF rows assms(2,3)] and recs = record_physical_fold [OF rec]
  have old: "physical a = physical_family ?L \<Gamma>" "fst ` set (witnesses a) = physical_family ?L \<Gamma>"
    "\<forall>row\<in>set (witnesses a). witness_ok ?L \<Gamma> row" "safe_controller_future a = {C \<in> \<Gamma>. product_family ?L C \<subseteq> adm}"
    "safe_physical a = physical_family ?L {C \<in> \<Gamma>. product_family ?L C \<subseteq> adm}"
    using assms(4) by (simp_all add: analysed_def)
  have "witness_ok ?L (insert C \<Gamma>) row" if "row \<in> set wits" for row
  proof (cases "row \<in> set (witnesses a)")
    case True
    then show ?thesis using old(3) by (auto intro: witness_ok_mono)
  next
    case False
    then obtain r where "r \<in> set rows" "row = (fst r, witness_of C (snd r))" using recs \<open>row \<in> set wits\<close> by auto
    then show ?thesis using witness_of_row [of ?L C r "insert C \<Gamma>"] prod(2) assms(2,3) by simp
  qed
  moreover have "{D \<in> insert C \<Gamma>. product_family ?L D \<subseteq> adm} =
      (if product_family ?L C \<subseteq> adm then insert C {D \<in> \<Gamma>. product_family ?L D \<subseteq> adm} else {D \<in> \<Gamma>. product_family ?L D \<subseteq> adm})"
    by auto
  ultimately show ?thesis
    using recs unfolding analysed_def a' prod(1) old(1,2,4,5) by (simp add: physical_family_insert prod(1) old(1,2) Un_commute)
qed

lemma product_configs_ok:
  assumes "fold_r (product_config ctls adm) (a, n) Cs = Inr (a', n')"
    and "\<forall>C\<in>set Cs. finite C \<and> (\<forall>x\<in>C. complex (families_of ctls x))" and "analysed (families_of ctls) adm \<Gamma> a"
  shows "analysed (families_of ctls) adm (\<Gamma> \<union> set Cs) a'"
  using assms
proof (induction Cs arbitrary: a n \<Gamma>)
  case (Cons C Cs)
  then obtain a1 n1 where step: "product_config ctls adm (a, n) C = Inr (a1, n1)"
    and rest: "fold_r (product_config ctls adm) (a1, n1) Cs = Inr (a', n')" by auto
  have C: "finite C" "\<forall>x\<in>C. complex (families_of ctls x)" using Cons.prems(2) by auto
  have "\<forall>C\<in>set Cs. finite C \<and> (\<forall>x\<in>C. complex (families_of ctls x))" using Cons.prems(2) by simp
  from Cons.IH [OF rest this product_config_ok [OF step C Cons.prems(3)]] show ?case by simp
qed auto

lemma controllers_okD:
  assumes "controllers_ok ctls \<Gamma>"
  shows "complex \<Gamma>" "\<And>C a. C \<in> \<Gamma> \<Longrightarrow> a \<in> C \<Longrightarrow> complex (families_of ctls a)"
  using assms by (auto simp: controllers_ok_def support_def)

lemma analysis_ok:
  assumes "controllers_ok ctls \<Gamma>" and "controller_product_analysis ctls \<Gamma> adm = Inr a"
  shows "analysed (families_of ctls) adm \<Gamma> a"
proof -
  let ?start = "\<lparr>physical = {}, witnesses = [], safe_controller_future = {}, safe_physical = {}\<rparr>"
  obtain n where fold: "fold_r (product_config ctls adm) (?start, 0) (sorted_configs \<Gamma>) = Inr (a, n)"
    using assms(2) by (auto simp: controller_product_analysis_def)
  note \<Gamma> = controllers_okD [OF assms(1)]
  have set: "set (sorted_configs \<Gamma>) = \<Gamma>" using complexD(1,2) [OF \<Gamma>(1)] by (intro set_sorted_configs) auto
  have "analysed (families_of ctls) adm {} ?start" by (simp add: analysed_def physical_family_def)
  moreover have "\<forall>C\<in>set (sorted_configs \<Gamma>). finite C \<and> (\<forall>x\<in>C. complex (families_of ctls x))"
    using \<Gamma>(2) complexD(2) [OF \<Gamma>(1)] unfolding set by blast
  ultimately have "analysed (families_of ctls) adm ({} \<union> set (sorted_configs \<Gamma>)) a" by (intro product_configs_ok [OF fold])
  then show ?thesis unfolding set by simp
qed

section \<open>The analysis returns unless a cap is exceeded\<close>

definition cap_errors :: "py_error set" where
  "cap_errors = {SchemaError ''controller product exceeds the state cap'',
     SchemaError ''physical controller family exceeds finite configuration cap''}"

definition within :: "py_error set \<Rightarrow> 'a result \<Rightarrow> bool" where
  "within E r \<longleftrightarrow> (case r of Inl e \<Rightarrow> e \<in> E | Inr _ \<Rightarrow> True)"

lemma within_simps [simp]: "within E (Inl e) \<longleftrightarrow> e \<in> E" "within E (Inr x)"
  by (simp_all add: within_def)

lemma within_bind: "within E m \<Longrightarrow> (\<And>x. m = Inr x \<Longrightarrow> within E (f x)) \<Longrightarrow> within E (bind_r m f)"
  by (cases m) auto

lemma within_fold: "(\<And>acc x. x \<in> set xs \<Longrightarrow> within E (f acc x)) \<Longrightarrow> within E (fold_r f acc xs)"
  by (induction xs arbitrary: acc) (auto intro!: within_bind)

lemma within_product:
  assumes "controllers_ok ctls \<Gamma>"
  shows "within cap_errors (controller_product_analysis ctls \<Gamma> adm)"
proof -
  note \<Gamma> = controllers_okD(1) [OF assms]
  have set: "set (sorted_configs \<Gamma>) = \<Gamma>" using complexD(1,2) [OF \<Gamma>] by (intro set_sorted_configs) auto
  have loc: "within cap_errors (product_local acc ch a st l)" for acc ch a st l
    by (simp add: product_local_def Let_def cap_errors_def)
  have "within cap_errors (product_anchor ctls st a)" if "a \<in> fst ` set ctls" for st a
  proof -
    have "map_of ctls a \<noteq> None" using that by (simp add: map_of_eq_None_iff)
    then obtain ctl where "map_of ctls a = Some ctl" by blast
    then show ?thesis by (auto simp: product_anchor_def split_def intro!: within_fold loc)
  qed
  moreover have "a \<in> fst ` set ctls" if "C \<in> \<Gamma>" "a \<in> C" for C a using assms that by (auto simp: controllers_ok_def support_def)
  ultimately have "within cap_errors (controller_product ctls C n)" if "C \<in> \<Gamma>" for C n
    using that complexD(2) [OF \<Gamma> that] unfolding controller_product_def by (intro within_fold) simp
  moreover have "within cap_errors (record_physical C st row)" for C st row
    by (simp add: record_physical_def Let_def cap_errors_def)
  ultimately have "within cap_errors (product_config ctls adm st C)" if "C \<in> \<Gamma>" for st C
    using that by (auto simp: product_config_def Let_def intro!: within_bind within_fold)
  then show ?thesis unfolding controller_product_analysis_def by (intro within_bind within_fold) (auto simp: set)
qed

section \<open>The greatest safe co-liveness\<close>

lemma repair_total:
  assumes "complex G" and "controller_future_coverage p \<in> {''exact'', ''exact_projection_through_r'', ''sound_overapprox''}"
  shows "is_ok (coliveness_repair_of p required G phys)"
proof -
  have "{} \<in> G" "\<not> (\<exists>c\<in>G. \<exists>d\<in>Pow c. d \<notin> G)" using complexD(3,4) [OF assms(1)] by blast+
  then show ?thesis using assms(2) by (auto simp: coliveness_repair_of_def Let_def)
qed

lemma complex_safe_future:
  assumes "controllers_ok ctls \<Gamma>" and "{} \<in> adm"
  shows "complex {C \<in> \<Gamma>. product_family (families_of ctls) C \<subseteq> adm}" (is "complex ?S")
proof -
  note \<Gamma> = controllers_okD [OF assms(1)]
  have down: "D \<in> ?S" if "C \<in> ?S" "D \<subseteq> C" for C D
  proof -
    have "C \<in> \<Gamma>" using that(1) by simp
    then have "product_family (families_of ctls) D \<subseteq> product_family (families_of ctls) C"
      using that(2) \<Gamma>(2) [THEN complexD(4)] by (intro product_family_mono)
    then show ?thesis using that complexD(3) [OF \<Gamma>(1)] by auto
  qed
  have "{} \<in> ?S" using assms(2) complexD(4) [OF \<Gamma>(1)] by simp
  moreover have "finite ?S" "\<forall>C\<in>?S. finite C" using complexD(1,2) [OF \<Gamma>(1)] by simp_all
  ultimately show ?thesis using down unfolding complex_def by blast
qed

text \<open>
  C15. The product analysis and its repair. On a request whose controllers have complexes as local
  families, the analysis returns unless the state or the configuration cap is exceeded. The physical
  family it returns is the union, over the co-live configurations, of the independent products of
  the local families; every physical configuration has a recorded witness, and every recorded
  witness is one choice per co-live controller that produces its configuration. The safe co-live
  configurations form a complex, the greatest downward closed part of the declared co-liveness whose
  product respects the admitted family, and the two internal errors of the repair cannot occur.
\<close>

theorem coliveness_repair_greatest:
  assumes "controllers_ok (controllers p) (controller_future p)" and "{} \<in> adm"
    and "controller_future_coverage p \<in> {''exact'', ''exact_projection_through_r'', ''sound_overapprox''}"
  shows "within cap_errors (controller_product_analysis (controllers p) (controller_future p) adm) \<and>
    (\<forall>a. controller_product_analysis (controllers p) (controller_future p) adm = Inr a \<longrightarrow>
      physical a = physical_family (families_of (controllers p)) (controller_future p) \<and>
      fst ` set (witnesses a) = physical a \<and>
      (\<forall>row\<in>set (witnesses a). witness_ok (families_of (controllers p)) (controller_future p) row) \<and>
      complex (safe_controller_future a) \<and> safe_controller_future a \<subseteq> controller_future p \<and>
      physical_family (families_of (controllers p)) (safe_controller_future a) \<subseteq> adm \<and>
      (\<forall>\<Delta>\<subseteq>controller_future p. physical_family (families_of (controllers p)) \<Delta> \<subseteq> adm \<longrightarrow> \<Delta> \<subseteq> safe_controller_future a) \<and>
      is_ok (coliveness_repair_of p required (safe_controller_future a) (safe_physical a)))"
proof (intro conjI allI impI)
  let ?ctls = "controllers p" and ?\<Gamma> = "controller_future p"
  let ?L = "families_of ?ctls"
  show "within cap_errors (controller_product_analysis ?ctls ?\<Gamma> adm)" by (rule within_product [OF assms(1)])
  fix a assume "controller_product_analysis ?ctls ?\<Gamma> adm = Inr a"
  from analysis_ok [OF assms(1) this]
  have a: "physical a = physical_family ?L ?\<Gamma>" "fst ` set (witnesses a) = physical_family ?L ?\<Gamma>"
    "\<forall>row\<in>set (witnesses a). witness_ok ?L ?\<Gamma> row" "safe_controller_future a = {C \<in> ?\<Gamma>. product_family ?L C \<subseteq> adm}"
    by (simp_all add: analysed_def)
  show "physical a = physical_family ?L ?\<Gamma>" "fst ` set (witnesses a) = physical a" using a by simp_all
  show "\<forall>row\<in>set (witnesses a). witness_ok ?L ?\<Gamma> row" by (rule a(3))
  show cx: "complex (safe_controller_future a)" unfolding a(4) by (rule complex_safe_future [OF assms(1,2)])
  show "safe_controller_future a \<subseteq> ?\<Gamma>" by (auto simp: a(4))
  show "physical_family ?L (safe_controller_future a) \<subseteq> adm" by (auto simp: a(4) physical_family_def)
  show "\<Delta> \<subseteq> safe_controller_future a" if "\<Delta> \<subseteq> ?\<Gamma>" "physical_family ?L \<Delta> \<subseteq> adm" for \<Delta>
    using that by (auto simp: a(4) physical_family_def)
  show "is_ok (coliveness_repair_of p required (safe_controller_future a) (safe_physical a))" by (rule repair_total [OF cx assms(3)])
qed

section \<open>Co-liveness up to the derived arity\<close>

lemma fold_max_ge: "n \<le> fold max ns (n :: nat)"
  by (induction ns arbitrary: n) (simp, metis fold_simps(2) max.bounded_iff)

lemma largest_ge: "c \<in> set cs \<Longrightarrow> card c \<le> largest cs"
proof -
  have "n \<in> set ns \<Longrightarrow> n \<le> fold max ns m" for n m and ns :: "nat list"
  proof (induction ns arbitrary: m)
    case (Cons k ns)
    then show ?case using fold_max_ge [of "max k m" ns] by auto
  qed simp
  then show "c \<in> set cs \<Longrightarrow> card c \<le> largest cs" by (simp add: largest_def)
qed

lemma set_minimal_nonfaces:
  assumes "complex F"
  shows "set (minimal_nonfaces F) = {c. c \<subseteq> support F \<and> 2 \<le> card c \<and> c \<notin> F \<and> (\<forall>x\<in>c. c - {x} \<in> F)}"
proof -
  let ?N = "{c \<in> Pow (support F). \<not> card c < 2 \<and> c \<notin> F \<and> (\<forall>cell\<in>c. c - {cell} \<in> F)}"
  have "finite ?N" "\<forall>c\<in>?N. finite c" using finite_support [OF assms] by (auto intro: finite_subset)
  then have "set (minimal_nonfaces F) = ?N" unfolding minimal_nonfaces_def by (rule set_sorted_configs)
  then show ?thesis by (auto simp: not_less)
qed

lemma minimal_nonface_below:
  assumes "complex F" and "finite x" and "x \<subseteq> support F" and "x \<notin> F"
  shows "\<exists>m\<in>set (minimal_nonfaces F). m \<subseteq> x"
  using assms(2-4)
proof (induction "card x" arbitrary: x rule: less_induct)
  case less
  show ?case
  proof (cases "\<exists>y\<subset>x. y \<notin> F")
    case True
    then obtain y where y: "y \<subset> x" "y \<notin> F" by blast
    then have "card y < card x" using less.prems(1) psubset_card_mono by blast
    from less.hyps [OF this finite_subset [OF psubset_imp_subset [OF y(1)] less.prems(1)] _ y(2)]
    show ?thesis using y(1) less.prems(2) by blast
  next
    case False
    have "x - {a} \<in> F" if "a \<in> x" for a using False that by blast
    moreover have "2 \<le> card x"
    proof (rule ccontr)
      assume "\<not> 2 \<le> card x"
      then consider "x = {}" | a where "x = {a}"
        using less.prems(1) by (metis One_nat_def Suc_1 card_0_eq card_1_singletonE less_2_cases not_le)
      then show False using less.prems(2,3) complexD(4) [OF assms(1)] singleton_in_complex [OF assms(1)] by cases auto
    qed
    ultimately show ?thesis using less.prems(2,3) unfolding set_minimal_nonfaces [OF assms(1)] by blast
  qed
qed

text \<open>A part of a product configuration needs at most one controller per cell.\<close>

lemma product_cover:
  assumes "x \<in> product_family L C" and "y \<subseteq> x" and "finite y" and "\<And>a. a \<in> C \<Longrightarrow> complex (L a)"
  shows "\<exists>D\<subseteq>C. finite D \<and> card D \<le> card y \<and> y \<in> product_family L D"
proof -
  obtain f where f: "x = (\<Union>a\<in>C. f a)" "\<And>a. a \<in> C \<Longrightarrow> f a \<in> L a" using assms(1) by (rule product_familyE) blast
  have "\<forall>c\<in>y. \<exists>a\<in>C. c \<in> f a" using f(1) assms(2) by blast
  then obtain g where g: "\<And>c. c \<in> y \<Longrightarrow> g c \<in> C \<and> c \<in> f (g c)" by metis
  have "y = (\<Union>a\<in>g ` y. f a \<inter> y)" using g by blast
  moreover have "(\<Union>a\<in>g ` y. f a \<inter> y) \<in> product_family L (g ` y)"
  proof (rule product_familyI)
    fix a assume "a \<in> g ` y"
    then have a: "a \<in> C" using g by blast
    show "f a \<inter> y \<in> L a" using complexD(3) [OF assms(4) [OF a] f(2) [OF a]] by blast
  qed
  ultimately have "y \<in> product_family L (g ` y)" by simp
  moreover have "g ` y \<subseteq> C" using g by blast
  ultimately show ?thesis using assms(3) card_image_le [OF assms(3), of g] by blast
qed

lemma physical_cover:
  assumes "complex \<Gamma>" and "\<And>a. a \<in> support \<Gamma> \<Longrightarrow> complex (L a)" and "x \<in> physical_family L \<Gamma>" and "y \<subseteq> x" and "finite y"
    and "card y \<le> r"
  shows "y \<in> physical_family L {C \<in> \<Gamma>. card C \<le> r}"
proof -
  obtain C where C: "C \<in> \<Gamma>" "x \<in> product_family L C" using assms(3) by (auto simp: physical_family_def)
  have "complex (L a)" if "a \<in> C" for a using assms(2) C(1) that by (auto simp: support_def)
  then obtain D where "D \<subseteq> C" "card D \<le> card y" "y \<in> product_family L D" using product_cover [OF C(2) assms(4,5)] by blast
  then have "D \<in> {C \<in> \<Gamma>. card C \<le> r}" using complexD(3) [OF assms(1) C(1)] assms(6) by simp
  then show ?thesis using \<open>y \<in> product_family L D\<close> by (auto simp: physical_family_def)
qed

text \<open>
  The co-liveness arity is enough evidence. For any downward closed co-liveness family, however
  large, over controllers with complexes as local families whose cells are declared, an admitted
  complex and a required complex: whether the required configurations are covered and whether the
  admitted family is respected is decided by the co-live configurations of at most the derived
  arity. So a projection through the arity decides readiness as the full family would.
\<close>

lemma arity_enough:
  assumes "complex \<Gamma>" and "\<And>a. a \<in> support \<Gamma> \<Longrightarrow> complex (L a)" and "complex adm" and "complex required"
    and "\<And>a. a \<in> support \<Gamma> \<Longrightarrow> support (L a) \<subseteq> set universe"
    and "r = required_coliveness_arity required adm universe"
  shows "(required \<subseteq> physical_family L \<Gamma> \<longleftrightarrow> required \<subseteq> physical_family L {C \<in> \<Gamma>. card C \<le> r}) \<and>
    (physical_family L \<Gamma> \<subseteq> adm \<longleftrightarrow> physical_family L {C \<in> \<Gamma>. card C \<le> r} \<subseteq> adm)"
proof
  have r: "largest (sorted_configs required) \<le> r" "largest (minimal_nonfaces adm) \<le> r" "set universe - support adm \<noteq> {} \<Longrightarrow> 1 \<le> r"
    unfolding assms(6) required_coliveness_arity_def Let_def by auto
  have sub: "physical_family L {C \<in> \<Gamma>. card C \<le> r} \<subseteq> physical_family L \<Gamma>" by (auto simp: physical_family_def)
  note cover = physical_cover [OF assms(1,2)]
  show "required \<subseteq> physical_family L \<Gamma> \<longleftrightarrow> required \<subseteq> physical_family L {C \<in> \<Gamma>. card C \<le> r}"
  proof
    assume req: "required \<subseteq> physical_family L \<Gamma>"
    show "required \<subseteq> physical_family L {C \<in> \<Gamma>. card C \<le> r}"
    proof
      fix c assume c: "c \<in> required"
      have "c \<in> set (sorted_configs required)" using c complexD(1,2) [OF assms(4)] by simp
      then have "card c \<le> r" using largest_ge r(1) order_trans by blast
      then show "c \<in> physical_family L {C \<in> \<Gamma>. card C \<le> r}"
        using req c complexD(2) [OF assms(4) c] by (intro cover [where x = c and y = c]) auto
    qed
  qed (use sub in blast)
  show "physical_family L \<Gamma> \<subseteq> adm \<longleftrightarrow> physical_family L {C \<in> \<Gamma>. card C \<le> r} \<subseteq> adm"
  proof
    assume safe: "physical_family L {C \<in> \<Gamma>. card C \<le> r} \<subseteq> adm"
    show "physical_family L \<Gamma> \<subseteq> adm"
    proof (rule ccontr)
      assume "\<not> physical_family L \<Gamma> \<subseteq> adm"
      then obtain x where x: "x \<in> physical_family L \<Gamma>" "x \<notin> adm" by blast
      obtain C where C: "C \<in> \<Gamma>" "x \<in> product_family L C" using x(1) by (auto simp: physical_family_def)
      obtain f where f: "x = (\<Union>a\<in>C. f a)" "\<And>a. a \<in> C \<Longrightarrow> f a \<in> L a" using C(2) by (rule product_familyE) blast
      have sup: "a \<in> support \<Gamma>" if "a \<in> C" for a using C(1) that by (auto simp: support_def)
      have "finite x" using f complexD(2) [OF assms(1) C(1)] complexD(2) [OF assms(2) [OF sup]] by auto
      have cells: "x \<subseteq> set universe" using f sup assms(5) by (fastforce simp: support_def)
      obtain y where y: "y \<subseteq> x" "y \<notin> adm" "card y \<le> r"
      proof (cases "x \<subseteq> support adm")
        case True
        obtain m where m: "m \<in> set (minimal_nonfaces adm)" "m \<subseteq> x" using minimal_nonface_below [OF assms(3) \<open>finite x\<close> True x(2)] by blast
        have "card m \<le> r" using largest_ge [OF m(1)] r(2) by simp
        then show ?thesis using that [of m] m by (simp add: set_minimal_nonfaces [OF assms(3)])
      next
        case False
        then obtain c where c: "c \<in> x" "c \<notin> support adm" by blast
        then show ?thesis using that [of "{c}"] r(3) cells singleton_in_complex [OF assms(3), of c] by auto
      qed
      then have "y \<in> physical_family L {C \<in> \<Gamma>. card C \<le> r}" using finite_subset [OF y(1) \<open>finite x\<close>] by (intro cover [OF _ x(1) y(1) _ y(3)])
      then show False using safe y(2) by blast
    qed
  qed (use sub in blast)
qed

end
