(* ===== verification/Components.thy ===== *)
theory Components
  imports Products
begin

text \<open>
  The union-find of \<open>_coordination_components\<close>: the groups it returns are the connected
  components of the cells under "occur in a common minimal nonface", and the search for a root ends
  within the fuel it is given.
\<close>

section \<open>The parent table\<close>

definition par :: "(string \<times> string) list \<Rightarrow> string \<Rightarrow> string" where
  "par parent c = the (map_of parent c)"

text \<open>
  A table over the cells K that represents an equivalence R: a parent is a related cell that is
  not larger, and related roots are equal.
\<close>

definition uf_ok :: "string set \<Rightarrow> (string \<times> string) set \<Rightarrow> (string \<times> string) list \<Rightarrow> bool" where
  "uf_ok K R parent \<longleftrightarrow> distinct (map fst parent) \<and> fst ` set parent = K \<and>
     (\<forall>c\<in>K. par parent c \<in> K \<and> par parent c \<le> c \<and> (c, par parent c) \<in> R) \<and>
     (\<forall>c\<in>K. \<forall>d\<in>K. par parent c = c \<longrightarrow> par parent d = d \<longrightarrow> (c, d) \<in> R \<longrightarrow> c = d)"

lemma uf_okD:
  assumes "uf_ok K R parent"
  shows "distinct (map fst parent)" "fst ` set parent = K" "\<And>c. c \<in> K \<Longrightarrow> par parent c \<in> K"
    "\<And>c. c \<in> K \<Longrightarrow> par parent c \<le> c" "\<And>c. c \<in> K \<Longrightarrow> (c, par parent c) \<in> R"
    "\<And>c d. c \<in> K \<Longrightarrow> d \<in> K \<Longrightarrow> par parent c = c \<Longrightarrow> par parent d = d \<Longrightarrow> (c, d) \<in> R \<Longrightarrow> c = d"
  using assms by (auto simp: uf_ok_def)

lemma uf_lookup: "uf_ok K R parent \<Longrightarrow> c \<in> K \<Longrightarrow> dict_get parent c = Inr (par parent c)"
proof -
  assume "uf_ok K R parent" and "c \<in> K"
  then have "map_of parent c \<noteq> None" by (auto simp: uf_ok_def map_of_eq_None_iff)
  then show ?thesis by (auto simp: par_def dict_get_def)
qed

lemma uf_length: "uf_ok K R parent \<Longrightarrow> length parent = card K"
  using distinct_card [of "map fst parent"] by (auto simp: uf_ok_def)

lemma uf_finite: "uf_ok K R parent \<Longrightarrow> finite K"
  by (auto simp: uf_ok_def)

lemma par_update: "par (AList.update c g parent) d = (if d = c then g else par parent d)"
  by (simp add: par_def update_conv')

lemma keys_update: "distinct (map fst parent) \<Longrightarrow> c \<in> fst ` set parent \<Longrightarrow>
    distinct (map fst (AList.update c g parent)) \<and> fst ` set (AList.update c g parent) = fst ` set parent"
  using update_keys [of c g parent] by (auto simp: distinct_update dom_update image_set [symmetric] simp del: image_set)

text \<open>Moving a cell that is not a root to its grandparent keeps what the table represents.\<close>

lemma uf_halve:
  assumes "uf_ok K R parent" and "trans R" and "c \<in> K" and "par parent c \<noteq> c"
  shows "uf_ok K R (AList.update c (par parent (par parent c)) parent)"
    "par parent (par parent c) < c" "\<And>k. par (AList.update c (par parent (par parent c)) parent) k = k \<longleftrightarrow> par parent k = k"
proof -
  note uf = uf_okD [OF assms(1)]
  let ?p = "par parent c"
  let ?g = "par parent ?p"
  have p: "?p \<in> K" "?p < c" "(c, ?p) \<in> R" using uf(3-5) [OF assms(3)] assms(4) by auto
  have g: "?g \<in> K" "?g \<le> ?p" "(?p, ?g) \<in> R" using uf(3-5) [OF p(1)] by auto
  show less: "?g < c" using g(2) p(2) by simp
  have R: "(c, ?g) \<in> R" using p(3) g(3) assms(2) by (meson transD)
  show roots: "par (AList.update c ?g parent) k = k \<longleftrightarrow> par parent k = k" for k
    using less assms(4) by (auto simp: par_update)
  have c: "c \<in> fst ` set parent" using assms(3) uf(2) by simp
  show "uf_ok K R (AList.update c ?g parent)"
    unfolding uf_ok_def roots using keys_update [OF uf(1) c, of ?g] uf g(1) R less by (auto simp: par_update)
qed

lemma find_root_ok:
  assumes "uf_ok K R parent" and "trans R" and "refl_on K R" and "c \<in> K" and "card {k \<in> K. k < c} < fuel"
  shows "\<exists>parent' r. find_root fuel parent c = Inr (parent', r) \<and> uf_ok K R parent' \<and> r \<in> K \<and> par parent r = r \<and>
    (c, r) \<in> R \<and> (\<forall>k. par parent' k = k \<longleftrightarrow> par parent k = k)"
  using assms(1,4,5)
proof (induction fuel arbitrary: parent c)
  case (Suc fuel)
  note look = uf_lookup [OF Suc.prems(1)]
  show ?case
  proof (cases "par parent c = c")
    case True
    then show ?thesis using Suc.prems look assms(3) by (auto simp: refl_on_def)
  next
    case False
    let ?g = "par parent (par parent c)"
    let ?parent = "AList.update c ?g parent"
    note halve = uf_halve [OF Suc.prems(1) assms(2) Suc.prems(2) False]
    have p: "par parent c \<in> K" and g: "?g \<in> K" using uf_okD(3) [OF Suc.prems(1)] Suc.prems(2) by blast+
    have "{k \<in> K. k < ?g} \<subset> {k \<in> K. k < c}" using halve(2) g by auto
    then have "card {k \<in> K. k < ?g} < card {k \<in> K. k < c}" using uf_finite [OF Suc.prems(1)] by (intro psubset_card_mono) auto
    then have "card {k \<in> K. k < ?g} < fuel" using Suc.prems(3) by simp
    from Suc.IH [OF halve(1) g this] obtain parent' r where
      res: "find_root fuel ?parent ?g = Inr (parent', r)" "uf_ok K R parent'" "r \<in> K" "par ?parent r = r" "(?g, r) \<in> R"
        "\<forall>k. par parent' k = k \<longleftrightarrow> par ?parent k = k" by blast
    have "(c, r) \<in> R" using uf_okD(5) [OF Suc.prems(1)] Suc.prems(2) p res(5) assms(2) by (meson transD)
    moreover have "find_root (Suc fuel) parent c = Inr (parent', r)"
      using look [OF Suc.prems(2)] look [OF p] False res(1) by simp
    ultimately show ?thesis using res(2,3,4,6) unfolding halve(3) by blast
  qed
qed simp

lemma find_cell_ok:
  assumes "uf_ok K R parent" and "trans R" and "refl_on K R" and "c \<in> K"
  shows "\<exists>parent' r. find_cell parent c = Inr (parent', r) \<and> uf_ok K R parent' \<and> r \<in> K \<and> par parent r = r \<and>
    (c, r) \<in> R \<and> (\<forall>k. par parent' k = k \<longleftrightarrow> par parent k = k)"
proof -
  have "{k \<in> K. k < c} \<subset> K" using assms(4) by auto
  then have "card {k \<in> K. k < c} < length parent"
    using uf_length [OF assms(1)] uf_finite [OF assms(1)] psubset_card_mono by metis
  then show ?thesis unfolding find_cell_def by (rule find_root_ok [OF assms])
qed

section \<open>Merging classes\<close>

definition closure :: "(string \<times> string) set \<Rightarrow> (string \<times> string) set" where
  "closure E = (E \<union> E\<inverse>)\<^sup>*"

lemma closure_equiv: "trans (closure E)" "sym (closure E)" "refl_on UNIV (closure E)" "E \<subseteq> closure E"
  by (auto simp: closure_def trans_rtrancl sym_rtrancl sym_Un_converse refl_rtrancl)

lemma closure_mono: "E \<subseteq> F \<Longrightarrow> closure E \<subseteq> closure F"
  unfolding closure_def by (intro rtrancl_mono) auto

lemma closure_insert:
  assumes "(c, d) \<in> closure (insert (l, r) E)"
  shows "(c, d) \<in> closure E \<or> ((c, l) \<in> closure E \<or> (c, r) \<in> closure E) \<and> ((d, l) \<in> closure E \<or> (d, r) \<in> closure E)"
  using assms unfolding closure_def [of "insert (l, r) E"]
proof (induction rule: rtrancl_induct)
  case base
  then show ?case by (auto simp: closure_def)
next
  case (step d e)
  note t = transD [OF closure_equiv(1) [of E]] and s = symD [OF closure_equiv(2) [of E]]
  have refl: "(x, x) \<in> closure E" for x by (simp add: closure_def)
  have "(d, e) \<in> closure E \<or> d = l \<and> e = r \<or> d = r \<and> e = l"
    using step.hyps(2) closure_equiv(4) [of E] s by auto
  then show ?case using step.IH t s refl by metis
qed

lemma union_cells_ok:
  assumes "uf_ok K (closure E) parent" and "l \<in> K" and "r \<in> K"
  shows "\<exists>parent'. union_cells parent l r = Inr parent' \<and> uf_ok K (closure (insert (l, r) E)) parent'"
proof -
  let ?R = "closure E" and ?S = "closure (insert (l, r) E)"
  note t = transD [OF closure_equiv(1) [of E]] and s = symD [OF closure_equiv(2) [of E]]
  have refl: "refl_on K ?R" using uf_okD [OF assms(1)] closure_equiv(3) by (auto simp: refl_on_def closure_def)
  obtain p1 lr where l: "find_cell parent l = Inr (p1, lr)" "uf_ok K ?R p1" "lr \<in> K" "par parent lr = lr" "(l, lr) \<in> ?R"
    "\<forall>k. par p1 k = k \<longleftrightarrow> par parent k = k" using find_cell_ok [OF assms(1) closure_equiv(1) refl assms(2)] by blast
  obtain p2 rr where r: "find_cell p1 r = Inr (p2, rr)" "uf_ok K ?R p2" "rr \<in> K" "par p1 rr = rr" "(r, rr) \<in> ?R"
    "\<forall>k. par p2 k = k \<longleftrightarrow> par p1 k = k" using find_cell_ok [OF l(2) closure_equiv(1) refl assms(3)] by blast
  have roots: "par p2 lr = lr" "par p2 rr = rr" using l(4,6) r(4,6) by auto
  note uf = uf_okD [OF r(2)]
  have sub: "?R \<subseteq> ?S" by (rule closure_mono) auto
  have same: "c = lr \<or> c = rr" if "c \<in> K" "par p2 c = c" "(c, l) \<in> ?R \<or> (c, r) \<in> ?R" for c
    using that uf(6) [of c lr] uf(6) [of c rr] l(3,5) r(3,5) roots t by blast
  show ?thesis
  proof (cases "lr = rr")
    case True
    have "c = d" if "c \<in> K" "d \<in> K" "par p2 c = c" "par p2 d = d" "(c, d) \<in> ?S" for c d
      using closure_insert [OF that(5)] that uf(6) same True by blast
    moreover have "par p2 c \<in> K \<and> par p2 c \<le> c \<and> (c, par p2 c) \<in> ?S" if "c \<in> K" for c using that uf(3-5) sub by blast
    ultimately have "uf_ok K ?S p2" using uf(1,2) unfolding uf_ok_def by blast
    then show ?thesis using l(1) r(1) True by (simp add: union_cells_def)
  next
    case False
    let ?hi = "max lr rr" and ?lo = "min lr rr"
    let ?p = "AList.update ?hi ?lo p2"
    have hi: "?hi \<in> K" "?lo \<in> K" "?lo < ?hi" using False l(3) r(3) by (auto simp: max_def min_def)
    have lr: "(lr, rr) \<in> ?S" "(rr, lr) \<in> ?S"
    proof -
      have "(lr, l) \<in> ?S" "(l, r) \<in> ?S" "(r, rr) \<in> ?S"
        using l(5) r(5) s sub closure_equiv(4) [of "insert (l, r) E"] by blast+
      then show "(lr, rr) \<in> ?S" by (meson closure_equiv(1) transD)
      then show "(rr, lr) \<in> ?S" by (rule symD [OF closure_equiv(2)])
    qed
    then have hl: "(?hi, ?lo) \<in> ?S" by (auto simp: max_def min_def)
    have "?hi \<in> fst ` set p2" using hi(1) uf(2) by simp
    note keys = keys_update [OF uf(1) this, of ?lo]
    have "c = d" if cd: "c \<in> K" "d \<in> K" "par ?p c = c" "par ?p d = d" "(c, d) \<in> ?S" for c d
    proof -
      have c: "par p2 c = c" "c \<noteq> ?hi" and d: "par p2 d = d" "d \<noteq> ?hi" using cd(3,4) hi(3) by (auto simp: par_update split: if_splits)
      have "c = ?lo \<and> d = ?lo" if "(c, d) \<notin> ?R"
        using closure_insert [OF cd(5)] that same [OF cd(1) c(1)] same [OF cd(2) d(1)] c(2) d(2) by (auto simp: max_def min_def split: if_splits)
      then show ?thesis using uf(6) [OF cd(1,2) c(1) d(1)] by blast
    qed
    moreover have "par ?p c \<in> K \<and> par ?p c \<le> c \<and> (c, par ?p c) \<in> ?S" if "c \<in> K" for c
      using that uf(3-5) hi hl sub by (auto simp: par_update)
    ultimately have "uf_ok K ?S ?p" using keys uf(2) unfolding uf_ok_def by blast
    then show ?thesis using l(1) r(1) False by (simp add: union_cells_def)
  qed
qed

section \<open>The components\<close>

definition edges_of :: "config \<Rightarrow> (string \<times> string) set" where
  "edges_of nf = (case sorted_list_of_set nf of [] \<Rightarrow> {} | c # cs \<Rightarrow> {c} \<times> set cs)"

lemma union_fold_ok:
  assumes "uf_ok K (closure E) parent" and "l \<in> K" and "set cs \<subseteq> K"
  shows "\<exists>parent'. fold_r (\<lambda>p c. union_cells p l c) parent cs = Inr parent' \<and> uf_ok K (closure (E \<union> {l} \<times> set cs)) parent'"
  using assms
proof (induction cs arbitrary: E parent)
  case (Cons c cs)
  obtain p1 where p1: "union_cells parent l c = Inr p1" "uf_ok K (closure (insert (l, c) E)) p1"
    using union_cells_ok [OF Cons.prems(1,2), of c] Cons.prems(3) by auto
  obtain p2 where "fold_r (\<lambda>p c. union_cells p l c) p1 cs = Inr p2" "uf_ok K (closure (insert (l, c) E \<union> {l} \<times> set cs)) p2"
    using Cons.IH [OF p1(2) Cons.prems(2)] Cons.prems(3) by auto
  moreover have "insert (l, c) E \<union> {l} \<times> set cs = E \<union> {l} \<times> set (c # cs)" by auto
  ultimately show ?case using p1(1) by auto
qed auto

lemma union_nonface_ok:
  assumes "uf_ok K (closure E) parent" and "finite nf" and "nf \<subseteq> K"
  shows "\<exists>parent'. union_nonface parent nf = Inr parent' \<and> uf_ok K (closure (E \<union> edges_of nf)) parent'"
proof (cases "sorted_list_of_set nf")
  case Nil
  then show ?thesis using assms(1) by (simp add: union_nonface_def edges_of_def)
next
  case (Cons c cs)
  then have "set (c # cs) = nf" using assms(2) by (metis set_sorted_list_of_set)
  then have "c \<in> K" "set cs \<subseteq> K" using assms(3) by auto
  from union_fold_ok [OF assms(1) this] show ?thesis by (simp add: union_nonface_def edges_of_def Cons)
qed

lemma union_nonfaces_ok:
  assumes "uf_ok K (closure E) parent" and "\<forall>nf\<in>set nfs. finite nf \<and> nf \<subseteq> K"
  shows "\<exists>parent'. fold_r union_nonface parent nfs = Inr parent' \<and> uf_ok K (closure (E \<union> (\<Union>nf\<in>set nfs. edges_of nf))) parent'"
  using assms
proof (induction nfs arbitrary: E parent)
  case (Cons nf nfs)
  obtain p1 where p1: "union_nonface parent nf = Inr p1" "uf_ok K (closure (E \<union> edges_of nf)) p1"
    using union_nonface_ok [OF Cons.prems(1), of nf] Cons.prems(2) by auto
  obtain p2 where "fold_r union_nonface p1 nfs = Inr p2" "uf_ok K (closure ((E \<union> edges_of nf) \<union> (\<Union>nf\<in>set nfs. edges_of nf))) p2"
    using Cons.IH [OF p1(2)] Cons.prems(2) by auto
  then show ?case using p1(1) by (simp add: Un_assoc)
qed auto

definition linked :: "family \<Rightarrow> (string \<times> string) set" where
  "linked F = {(a, b). \<exists>nf\<in>set (minimal_nonfaces F). a \<in> nf \<and> b \<in> nf}"

lemma sorted_list_Cons: "finite nf \<Longrightarrow> sorted_list_of_set nf = c # cs \<Longrightarrow> nf = insert c (set cs)"
  by (metis list.simps(15) set_sorted_list_of_set)

lemma closure_edges:
  assumes "\<forall>nf\<in>set nfs. finite nf"
  shows "closure (\<Union>nf\<in>set nfs. edges_of nf) = {(a, b). \<exists>nf\<in>set nfs. a \<in> nf \<and> b \<in> nf}\<^sup>*" (is "closure ?E = ?L\<^sup>*")
proof
  have "edges_of nf \<subseteq> nf \<times> nf" if "finite nf" for nf
    using sorted_list_Cons [OF that] by (auto simp: edges_of_def split: list.splits)
  then have "?E \<union> ?E\<inverse> \<subseteq> ?L" using assms by fastforce
  then show "closure ?E \<subseteq> ?L\<^sup>*" unfolding closure_def by (rule rtrancl_mono)
  have "(a, b) \<in> closure ?E" if nf: "nf \<in> set nfs" "a \<in> nf" "b \<in> nf" for nf a b
  proof -
    obtain c cs where c: "sorted_list_of_set nf = c # cs"
      using nf assms by (cases "sorted_list_of_set nf") (metis empty_iff set_empty set_sorted_list_of_set, blast)
    then have "set (c # cs) = nf" using nf(1) assms by (metis set_sorted_list_of_set)
    then have star: "(c, x) \<in> closure ?E" if "x \<in> nf" for x
      using that c nf(1) by (cases "x = c") (auto simp: edges_of_def closure_def intro!: r_into_rtrancl bexI [of _ nf])
    show ?thesis using star [OF nf(2)] star [OF nf(3)] by (meson closure_equiv(1,2) symD transD)
  qed
  then have "?L \<subseteq> closure ?E" by auto
  then show "?L\<^sup>* \<subseteq> closure ?E" unfolding closure_def by (rule rtrancl_subset_rtrancl)
qed

text \<open>The groups so far: one entry per root, with the cells of its class in order.\<close>

definition grouped :: "string set \<Rightarrow> (string \<times> string) set \<Rightarrow> (string \<times> string) list \<Rightarrow> string list \<Rightarrow> (string \<times> string list) list \<Rightarrow> bool" where
  "grouped K R parent xs gs \<longleftrightarrow> distinct (map fst gs) \<and>
     (\<forall>(r, g)\<in>set gs. r \<in> K \<and> par parent r = r \<and> g \<noteq> [] \<and> g = filter (\<lambda>c. (c, r) \<in> R) xs) \<and>
     (\<forall>c\<in>set xs. \<exists>(r, g)\<in>set gs. (c, r) \<in> R)"


lemma map_default_keys:
  "map fst (AList.map_default k v f gs) = (if k \<in> fst ` set gs then map fst gs else map fst gs @ [k])"
  by (induction gs) auto

lemma map_default_entry:
  "distinct (map fst gs) \<Longrightarrow> (a, b) \<in> set (AList.map_default k v f gs) \<longleftrightarrow>
     (if a = k then b = (case map_of gs k of None \<Rightarrow> v | Some w \<Rightarrow> f w) else (a, b) \<in> set gs)"
proof (induction gs)
  case (Cons p gs)
  obtain k0 w where p: "p = (k0, w)" by (cases p)
  have "(k0, x) \<notin> set gs" for x using Cons.prems p by (auto intro: rev_image_eqI)
  then show ?case using Cons p by (cases "k0 = k") auto
qed auto

lemma group_cell_ok:
  assumes "uf_ok K R parent" and "equiv UNIV R" and "c \<in> K" and "set xs \<subseteq> K" and "grouped K R parent xs gs"
  shows "\<exists>parent' gs'. group_cell (parent, gs) c = Inr (parent', gs') \<and> uf_ok K R parent' \<and> grouped K R parent' (xs @ [c]) gs'"
proof -
  have R: "trans R" "refl_on K R" "sym R" using assms(2) by (auto simp: equiv_def refl_on_def)
  note t = transD [OF R(1)] and s = symD [OF R(3)]
  obtain p r where p: "find_cell parent c = Inr (p, r)" "uf_ok K R p" "r \<in> K" "par parent r = r" "(c, r) \<in> R"
    "\<forall>k. par p k = k \<longleftrightarrow> par parent k = k" using find_cell_ok [OF assms(1) R(1,2) assms(3)] by blast
  have gs: "distinct (map fst gs)"
    "\<And>q g. (q, g) \<in> set gs \<Longrightarrow> q \<in> K \<and> par parent q = q \<and> g \<noteq> [] \<and> g = filter (\<lambda>c. (c, q) \<in> R) xs"
    "\<And>x. x \<in> set xs \<Longrightarrow> \<exists>(q, g)\<in>set gs. (x, q) \<in> R" using assms(5) by (auto simp: grouped_def)
  have uniq: "q = r" if "(q, g) \<in> set gs" "(x, q) \<in> R" "(x, r) \<in> R" for q g x
    using uf_okD(6) [OF assms(1)] gs(2) [OF that(1)] p(3,4) that(2,3) t s by blast
  let ?gs = "AList.map_default r [c] (\<lambda>cells. cells @ [c]) gs"
  note entry = map_default_entry [OF gs(1), of _ _ r "[c]" "\<lambda>cells. cells @ [c]"]
  have here: "(case map_of gs r of None \<Rightarrow> [c] | Some w \<Rightarrow> w @ [c]) = filter (\<lambda>x. (x, r) \<in> R) (xs @ [c])"
  proof (cases "map_of gs r")
    case None
    have "(x, r) \<notin> R" if x: "x \<in> set xs" for x
    proof
      assume r: "(x, r) \<in> R"
      obtain q g where q: "(q, g) \<in> set gs" "(x, q) \<in> R" using gs(3) [OF x] by blast
      then have "(r, g) \<in> set gs" using uniq [OF q r] by simp
      then show False using None by (metis weak_map_of_SomeI option.distinct(1))
    qed
    then show ?thesis using None p(5) by (simp add: filter_empty_conv)
  next
    case (Some w)
    then show ?thesis using gs(2) [OF map_of_SomeD [OF Some]] p(5) by simp
  qed
  have "q \<in> K \<and> par p q = q \<and> g \<noteq> [] \<and> g = filter (\<lambda>x. (x, q) \<in> R) (xs @ [c])" if q: "(q, g) \<in> set ?gs" for q g
  proof (cases "q = r")
    case True
    then have "g = filter (\<lambda>x. (x, r) \<in> R) (xs @ [c])" using q entry here by simp
    then show ?thesis using True p(3-6) by auto
  next
    case False
    then have "(q, g) \<in> set gs" using q entry by simp
    moreover have "(c, q) \<notin> R" using uniq [OF \<open>(q, g) \<in> set gs\<close> _ p(5)] False by blast
    ultimately show ?thesis using gs(2) p(6) by simp
  qed
  moreover have "\<exists>(q, g)\<in>set ?gs. (x, q) \<in> R" if x: "x \<in> set (xs @ [c])" for x
  proof (cases "(x, r) \<in> R")
    case True
    have "(r, filter (\<lambda>x. (x, r) \<in> R) (xs @ [c])) \<in> set ?gs" using entry here by simp
    then show ?thesis using True by blast
  next
    case False
    then have "x \<in> set xs" using x p(5) by auto
    then obtain q g where "(q, g) \<in> set gs" "(x, q) \<in> R" using gs(3) by blast
    moreover have "q \<noteq> r" using calculation(2) False by blast
    ultimately show ?thesis using entry by (metis (no_types, lifting) case_prodI)
  qed
  moreover have "distinct (map fst ?gs)" using gs(1) by (simp add: map_default_keys)
  ultimately have "grouped K R p (xs @ [c]) ?gs" unfolding grouped_def by blast
  then show ?thesis using p(1,2) by (simp add: group_cell_def)
qed

lemma group_cells_ok:
  assumes "uf_ok K R parent" and "equiv UNIV R" and "set (xs @ cs) \<subseteq> K" and "grouped K R parent xs gs"
  shows "\<exists>parent' gs'. fold_r group_cell (parent, gs) cs = Inr (parent', gs') \<and> uf_ok K R parent' \<and> grouped K R parent' (xs @ cs) gs'"
  using assms(1,3,4)
proof (induction cs arbitrary: parent gs xs)
  case (Cons c cs)
  have "c \<in> K" "set xs \<subseteq> K" using Cons.prems(2) by auto
  from group_cell_ok [OF Cons.prems(1) assms(2) this Cons.prems(3)] obtain p g where
    step: "group_cell (parent, gs) c = Inr (p, g)" "uf_ok K R p" "grouped K R p (xs @ [c]) g" by blast
  have "set ((xs @ [c]) @ cs) \<subseteq> K" using Cons.prems(2) by simp
  from Cons.IH [OF step(2) this step(3)] show ?case using step(1) by auto
qed auto

lemma sorted_map_groups: "sorted (map (\<lambda>g. (hd g, length g)) gs) \<Longrightarrow> sorted (map hd gs)"
  by (induction gs) auto

text \<open>The run of the union-find: its groups are the classes of the generated equivalence.\<close>

lemma minimal_nonfaces_inside:
  assumes "complex F"
  shows "\<forall>nf\<in>set (minimal_nonfaces F). finite nf \<and> nf \<subseteq> support F"
  unfolding set_minimal_nonfaces [OF assms] using finite_support [OF assms] by (auto intro: finite_subset)

lemma linked_equiv:
  assumes "complex F"
  shows "equiv UNIV ((linked F)\<^sup>*)" "closure (\<Union>nf\<in>set (minimal_nonfaces F). edges_of nf) = (linked F)\<^sup>*"
proof -
  show R: "closure (\<Union>nf\<in>set (minimal_nonfaces F). edges_of nf) = (linked F)\<^sup>*"
    unfolding linked_def using minimal_nonfaces_inside [OF assms] by (intro closure_edges) blast
  show "equiv UNIV ((linked F)\<^sup>*)" unfolding R [symmetric] using closure_equiv by (auto simp: equiv_def)
qed

lemma components_groups:
  assumes "complex F"
  shows "\<exists>p gs. coordination_components F = Inr (sort_key (\<lambda>g. (hd g, length g)) (map (\<lambda>(_, g). sort g) gs)) \<and>
    uf_ok (support F) ((linked F)\<^sup>*) p \<and> grouped (support F) ((linked F)\<^sup>*) p (sorted_list_of_set (support F)) gs"
proof -
  let ?K = "support F" and ?R = "(linked F)\<^sup>*"
  let ?cells = "sorted_list_of_set ?K"
  have K: "finite ?K" "set ?cells = ?K" using finite_support [OF assms] by simp_all
  have "uf_ok ?K (closure {}) (map (\<lambda>c. (c, c)) ?cells)"
    using K by (auto simp: uf_ok_def par_def closure_def comp_def map_of_map_restrict image_image)
  from union_nonfaces_ok [OF this minimal_nonfaces_inside [OF assms]] obtain p where
    p: "fold_r union_nonface (map (\<lambda>c. (c, c)) ?cells) (minimal_nonfaces F) = Inr p" "uf_ok ?K ?R p"
    using linked_equiv(2) [OF assms] by auto
  have "grouped ?K ?R p [] []" by (simp add: grouped_def)
  from group_cells_ok [OF p(2) linked_equiv(1) [OF assms] _ this, of ?cells] obtain p' gs where
    gs: "fold_r group_cell (p, []) ?cells = Inr (p', gs)" "uf_ok ?K ?R p'" "grouped ?K ?R p' ?cells gs" using K by auto
  have "coordination_components F = Inr (sort_key (\<lambda>g. (hd g, length g)) (map (\<lambda>(_, g). sort g) gs))"
    using p(1) gs(1) by (simp add: coordination_components_def Let_def)
  then show ?thesis using gs(2,3) by blast
qed

lemma components_are_classes:
  assumes "complex F"
  shows "\<exists>gs. coordination_components F = Inr gs \<and> set ` set gs = {(linked F)\<^sup>* `` {c} |c. c \<in> support F} \<and>
    distinct gs \<and> (\<forall>g\<in>set gs. g \<noteq> [] \<and> sorted g \<and> distinct g) \<and> sorted (map hd gs)"
proof -
  let ?K = "support F" and ?R = "(linked F)\<^sup>*"
  let ?cells = "sorted_list_of_set ?K"
  have K: "finite ?K" "set ?cells = ?K" using finite_support [OF assms] by simp_all
  note nf = minimal_nonfaces_inside [OF assms] and eq = linked_equiv(1) [OF assms]
  obtain p' gs where out: "coordination_components F = Inr (sort_key (\<lambda>g. (hd g, length g)) (map (\<lambda>(_, g). sort g) gs))"
    and gs: "uf_ok ?K ?R p'" "grouped ?K ?R p' ?cells gs" using components_groups [OF assms] by blast
  let ?out = "sort_key (\<lambda>g. (hd g, length g)) (map (\<lambda>(_, g). sort g) gs)"
  have ent: "distinct (map fst gs)"
    "\<And>r g. (r, g) \<in> set gs \<Longrightarrow> r \<in> ?K \<and> par p' r = r \<and> g \<noteq> [] \<and> g = filter (\<lambda>c. (c, r) \<in> ?R) ?cells"
    "\<And>c. c \<in> ?K \<Longrightarrow> \<exists>(r, g)\<in>set gs. (c, r) \<in> ?R" using gs(2) K(2) by (auto simp: grouped_def)
  have sy: "(b, a) \<in> ?R" if "(a, b) \<in> ?R" for a b using eq that by (auto simp: equiv_def dest: symD)
  have sorted: "sorted g \<and> distinct g" if "(r, g) \<in> set gs" for r g
    using ent(2) [OF that] by (metis distinct_filter sorted_list_of_set(3) sorted_list_of_set.sorted_sorted_key_list_of_set sorted_wrt_filter)
  have map: "map (\<lambda>(_, g). sort g) gs = map snd gs" using sorted by (auto simp: sorted_sort_id)
  have inside: "d \<in> ?K" if "(c, d) \<in> ?R" "c \<in> ?K" for c d
    using that by (induction rule: rtrancl_induct) (use nf in \<open>auto simp: linked_def\<close>)
  have cls: "set g = ?R `` {r}" if rg: "(r, g) \<in> set gs" for r g
  proof -
    have "set g = {c \<in> ?K. (c, r) \<in> ?R}" using ent(2) [OF rg] K(2) by auto
    also have "\<dots> = ?R `` {r}" using inside [of r] ent(2) [OF rg] by (auto intro: sy)
    finally show ?thesis .
  qed
  have "set ` set ?out = (\<lambda>(r, g). set g) ` set gs" unfolding map by force
  also have "\<dots> = {?R `` {c} |c. c \<in> ?K}"
  proof
    show "(\<lambda>(r, g). set g) ` set gs \<subseteq> {?R `` {c} |c. c \<in> ?K}" using cls ent(2) by fastforce
    show "{?R `` {c} |c. c \<in> ?K} \<subseteq> (\<lambda>(r, g). set g) ` set gs"
    proof clarify
      fix c assume "c \<in> ?K"
      then obtain r g where r: "(r, g) \<in> set gs" "(c, r) \<in> ?R" using ent(3) by blast
      have "?R `` {c} = set g" using equiv_class_eq [OF eq r(2)] cls [OF r(1)] by simp
      then show "?R `` {c} \<in> (\<lambda>(r, g). set g) ` set gs" using r(1) by (auto intro: rev_image_eqI)
    qed
  qed
  finally have quotient: "set ` set ?out = {?R `` {c} |c. c \<in> ?K}" .
  have "(r, g) = (r', g')" if g: "(r, g) \<in> set gs" "(r', g') \<in> set gs" "g = g'" for r g r' g'
  proof -
    have "r \<in> set g" "r' \<in> set g" using cls [OF g(1)] cls [OF g(2)] g(3) by auto
    then have "(r, r') \<in> ?R" using cls [OF g(1)] by auto
    then show ?thesis using uf_okD(6) [OF gs(1)] ent(2) [OF g(1)] ent(2) [OF g(2)] g(3) by blast
  qed
  then have "inj_on snd (set gs)" by (auto simp: inj_on_def)
  moreover have "distinct gs" using ent(1) by (simp add: distinct_map)
  ultimately have "distinct ?out" unfolding map by (simp add: distinct_map)
  moreover have "\<forall>g\<in>set ?out. g \<noteq> [] \<and> sorted g \<and> distinct g" unfolding map using ent(2) sorted by fastforce
  moreover have "sorted (map hd ?out)" by (rule sorted_map_groups) simp
  ultimately show ?thesis using out quotient by blast
qed

text \<open>
  C40. The coordination components. On a complex the union-find over its minimal nonfaces ends within
  its fuel without an error, and the groups it returns are exactly the classes of the cells of the
  support under the equivalence generated by occurring in a common minimal nonface, each listed once,
  in order, without repetition, the groups ordered by their first cells.
\<close>

theorem coordination_components_classes:
  assumes "complex F"
  shows "\<exists>gs. coordination_components F = Inr gs \<and> set ` set gs = {(linked F)\<^sup>* `` {c} |c. c \<in> support F} \<and>
    distinct gs \<and> (\<forall>g\<in>set gs. g \<noteq> [] \<and> sorted g \<and> distinct g) \<and> sorted (map hd gs)"
  by (rule components_are_classes) (rule assms)

end
