(* ===== verification/Envelopes.thy ===== *)
theory Envelopes
  imports Components
begin

text \<open>
  What the semantic part of the compilation decides: obstructions, the safe future, the inheritance
  of the source envelope, and the admitted family.
\<close>

section \<open>Obstructions\<close>

definition unobstructed :: "family \<Rightarrow> config \<Rightarrow> (string \<Rightarrow> string) \<Rightarrow> config \<Rightarrow> bool" where
  "unobstructed A D atom c \<longleftrightarrow> atom ` c \<inter> D = {} \<and> inj_on atom c \<and> D \<union> atom ` c \<in> A"

definition atom_of :: "lineage \<Rightarrow> string \<Rightarrow> string" where
  "atom_of lin x = the (map_of lin x)"

lemma distinct_map_fibres: "distinct (map f xs) \<longleftrightarrow> distinct xs \<and> (\<forall>a. length (filter (\<lambda>x. f x = a) xs) \<le> 1)"
proof (induction xs)
  case (Cons x xs)
  have "f x \<notin> f ` set xs \<longleftrightarrow> filter (\<lambda>y. f y = f x) xs = []" by (auto simp: filter_empty_conv image_iff)
  then show ?case using Cons.IH by (auto simp: filter_empty_conv)
qed simp

lemma map_r_dict_get:
  assumes "set xs \<subseteq> fst ` set lin"
  shows "map_r (dict_get lin) xs = Inr (map (atom_of lin) xs)"
proof (rule map_r_total)
  fix x assume "x \<in> set xs"
  then have "map_of lin x \<noteq> None" using assms by (auto simp: map_of_eq_None_iff)
  then show "dict_get lin x = Inr (atom_of lin x)" by (auto simp: dict_get_def atom_of_def)
qed

lemma config_obstructions_ok:
  assumes "finite c" and "c \<subseteq> fst ` set lin"
  shows "\<exists>reasons. config_obstructions A D c lin = Inr reasons \<and> (reasons = [] \<longleftrightarrow> unobstructed A D (atom_of lin) c)"
proof -
  let ?at = "atom_of lin" and ?xs = "sorted_list_of_set c"
  have xs: "set ?xs = c" "distinct ?xs" using assms(1) by simp_all
  have images: "map_r (dict_get lin) ?xs = Inr (map ?at ?xs)" by (rule map_r_dict_get) (simp add: xs assms(2))
  have zip: "zip (map ?at ?xs) ?xs = map (\<lambda>x. (?at x, x)) ?xs" by (simp add: zip_map1 zip_same_conv_map)
  have cells: "length (map snd (filter (\<lambda>(b, _). b = a) (zip (map ?at ?xs) ?xs))) = length (filter (\<lambda>x. ?at x = a) ?xs)" for a
    by (simp add: zip filter_map comp_def)
  have empty: "length (filter (\<lambda>x. ?at x = a) ?xs) \<le> 1" if "a \<notin> set (map ?at ?xs)" for a
  proof -
    have "filter (\<lambda>x. ?at x = a) ?xs = []" using that by (auto simp: filter_empty_conv)
    then show ?thesis by simp
  qed
  have inj: "(\<forall>a\<in>set (map ?at ?xs). \<not> 1 < length (filter (\<lambda>x. ?at x = a) ?xs)) \<longleftrightarrow> inj_on ?at c"
    using distinct_map_fibres [of ?at ?xs] empty xs by (metis distinct_map not_le)
  have fin: "set (sorted_list_of_set (set (map ?at ?xs))) = ?at ` c" using xs(1) assms(1) by simp
  show ?thesis
    unfolding config_obstructions_def images bind_r_simps Let_def cells
    using inj by (simp add: unobstructed_def filter_empty_conv fin xs assms(1) del: set_sorted_list_of_set) (use assms(1) in auto)
qed

lemma unobstructed_mono:
  assumes "complex A" and "unobstructed A D atom c" and "d \<subseteq> c"
  shows "unobstructed A D atom d"
proof -
  have c: "atom ` c \<inter> D = {}" "inj_on atom c" "D \<union> atom ` c \<in> A" using assms(2) by (simp_all add: unobstructed_def)
  have "D \<union> atom ` d \<subseteq> D \<union> atom ` c" using assms(3) by blast
  then have "D \<union> atom ` d \<in> A" by (rule complexD(3) [OF assms(1) c(3)])
  moreover have "atom ` d \<inter> D = {}" using c(1) assms(3) by blast
  ultimately show ?thesis using inj_on_subset [OF c(2) assms(3)] by (simp add: unobstructed_def)
qed

lemma unobstructed_empty: "D \<in> A \<Longrightarrow> unobstructed A D atom {}"
  by (simp add: unobstructed_def)

lemma safe_future_ok:
  assumes "complex cand" and "support cand \<subseteq> fst ` set lin"
  shows "\<exists>safe obs. safe_future A D cand lin = Inr (safe, obs) \<and>
    safe = {c \<in> cand. unobstructed A D (atom_of lin) c} \<and> fst ` set obs = cand - safe \<and>
    (\<forall>(c, reasons)\<in>set obs. reasons \<noteq> [] \<and> config_obstructions A D c lin = Inr reasons)"
proof -
  let ?row = "\<lambda>c. (c, projr (config_obstructions A D c lin))"
  have cand: "set (sorted_configs cand) = cand" using complexD(1,2) [OF assms(1)] by simp
  have obs: "config_obstructions A D c lin = Inr (snd (?row c)) \<and> (snd (?row c) = [] \<longleftrightarrow> unobstructed A D (atom_of lin) c)"
    if "c \<in> cand" for c
  proof -
    have "c \<subseteq> fst ` set lin" using that assms(2) by (auto simp: support_def)
    from config_obstructions_ok [OF complexD(2) [OF assms(1) that] this, of A D] show ?thesis by auto
  qed
  have "map_r (\<lambda>c. bind_r (config_obstructions A D c lin) (\<lambda>reasons. Inr (c, reasons))) (sorted_configs cand) =
      Inr (map ?row (sorted_configs cand))"
    using obs by (intro map_r_total) (simp add: cand)
  then have eq: "safe_future A D cand lin = Inr (set (map fst (filter (\<lambda>(_, reasons). reasons = []) (map ?row (sorted_configs cand)))),
      filter (\<lambda>(_, reasons). reasons \<noteq> []) (map ?row (sorted_configs cand)))"
    by (simp add: safe_future_def)
  have "set (map fst (filter (\<lambda>(_, reasons). reasons = []) (map ?row (sorted_configs cand)))) = {c \<in> cand. snd (?row c) = []}"
    by (simp add: filter_map comp_def cand)
  also have "\<dots> = {c \<in> cand. unobstructed A D (atom_of lin) c}" by (intro Collect_cong conj_cong refl) (use obs in simp)
  finally have safe: "set (map fst (filter (\<lambda>(_, reasons). reasons = []) (map ?row (sorted_configs cand)))) =
      {c \<in> cand. unobstructed A D (atom_of lin) c}" .
  have "fst ` set (filter (\<lambda>(_, reasons). reasons \<noteq> []) (map ?row (sorted_configs cand))) = {c \<in> cand. snd (?row c) \<noteq> []}"
    by (simp add: filter_map comp_def cand image_image)
  also have "\<dots> = {c \<in> cand. \<not> unobstructed A D (atom_of lin) c}" by (intro Collect_cong conj_cong refl) (use obs in simp)
  finally have "fst ` set (filter (\<lambda>(_, reasons). reasons \<noteq> []) (map ?row (sorted_configs cand))) =
      cand - {c \<in> cand. unobstructed A D (atom_of lin) c}" by blast
  moreover have "\<forall>(c, reasons)\<in>set (filter (\<lambda>(_, reasons). reasons \<noteq> []) (map ?row (sorted_configs cand))).
      reasons \<noteq> [] \<and> config_obstructions A D c lin = Inr reasons"
    using obs by (auto simp: cand)
  ultimately show ?thesis using eq safe by blast
qed

lemma complex_safe:
  assumes "complex cand" and "complex A" and "D \<in> A"
  shows "complex {c \<in> cand. unobstructed A D atom c}"
proof -
  let ?S = "{c \<in> cand. unobstructed A D atom c}"
  have "{} \<in> ?S" using complexD(4) [OF assms(1)] unobstructed_empty [OF assms(3)] by simp
  moreover have "finite ?S" using complexD(1) [OF assms(1)] by simp
  moreover have "finite c" if "c \<in> ?S" for c using complexD(2) [OF assms(1)] that by simp
  moreover have "d \<in> ?S" if "c \<in> ?S" "d \<subseteq> c" for c d
    using complexD(3) [OF assms(1) _ that(2)] unobstructed_mono [OF assms(2) _ that(2)] that(1) by simp
  ultimately show ?thesis unfolding complex_def by blast
qed

section \<open>Well-formed requests\<close>

definition cells_of :: "parsed_request \<Rightarrow> string set" where
  "cells_of p = fst ` set (normalized_cells p)"

definition lineage_of :: "parsed_request \<Rightarrow> lineage" where
  "lineage_of p = map (\<lambda>(i, cell). (i, norm_atom cell)) (normalized_cells p)"

definition source_lineage :: "parsed_request \<Rightarrow> lineage" where
  "source_lineage p = map (\<lambda>(i, cell). (i, source_atom cell)) (source_cells p)"

definition roles_ok :: "parsed_request \<Rightarrow> bool" where
  "roles_ok p \<longleftrightarrow> (\<exists>roles. map_of operator_roles (operator_kind p) = Some roles \<and>
     (\<forall>role\<in>set roles. \<exists>may req. map_of (role_may p) role = Some may \<and> map_of (role_required p) role = Some req \<and>
        complex may \<and> complex req \<and> req \<subseteq> may \<and> support may \<subseteq> cells_of p))"

definition envelope_ok :: "parsed_request \<Rightarrow> bool" where
  "envelope_ok p \<longleftrightarrow> complex (authority p) \<and> current_durable p \<in> authority p \<and> complex (source_future p) \<and>
     support (source_future p) = fst ` set (source_cells p) \<and>
     (\<forall>c\<in>source_future p. unobstructed (authority p) (source_durable p) (atom_of (source_lineage p)) c) \<and>
     distinct (map fst (normalized_cells p)) \<and>
     (\<forall>(i, cell)\<in>set (normalized_cells p). \<forall>q. norm_parent cell = Some q \<longrightarrow> q \<in> fst ` set (source_cells p))"

definition coverage_modes :: "string set" where
  "coverage_modes = {''exact'', ''exact_projection_through_r'', ''sound_overapprox''}"

definition request_ok :: "parsed_request \<Rightarrow> bool" where
  "request_ok p \<longleftrightarrow> roles_ok p \<and> envelope_ok p \<and> controllers_ok (controllers p) (controller_future p) \<and>
     (\<forall>a\<in>fst ` set (controllers p). support (families_of (controllers p) a) \<subseteq> cells_of p) \<and>
     controller_future_coverage p \<in> coverage_modes"

lemma operator_roles_cases:
  assumes "map_of operator_roles k = Some roles"
  shows "k = ''RestoreReplace'' \<and> roles = [''checkpoint''] \<or>
    k \<noteq> ''RestoreReplace'' \<and> (\<exists>l r. roles = [l, r]) \<and> (k \<in> set choice_operators \<or> k \<in> set tensor_operators)"
  using assms by (auto simp: operator_roles_def choice_operators_def tensor_operators_def split: if_splits)

definition tensor_cap :: "py_error set" where
  "tensor_cap = {SchemaError ''expands past the configuration cap''}"

lemma tensor_within: "within tensor_cap (family_tensor l r)"
  by (simp add: family_tensor_def Let_def tensor_cap_def)

lemma tensor_mono:
  assumes "family_tensor l r = Inr F" and "family_tensor l' r' = Inr G" and "l' \<subseteq> l" and "r' \<subseteq> r"
  shows "G \<subseteq> F"
proof -
  have "F = (\<lambda>(l, r). l \<union> r) ` (l \<times> r)" "G = (\<lambda>(l, r). l \<union> r) ` (l' \<times> r')"
    using assms(1,2) by (auto simp: family_tensor_def Let_def split: if_splits)
  then show ?thesis using assms(3,4) by auto
qed

lemma support_mono: "F \<subseteq> G \<Longrightarrow> support F \<subseteq> support G"
  by (auto simp: support_def)

lemma support_tensor: "complex l \<Longrightarrow> complex r \<Longrightarrow> family_tensor l r = Inr F \<Longrightarrow> support F \<subseteq> support l \<union> support r"
  by (frule (2) complex_tensor(2)) (auto simp: support_def)

lemma derive_families:
  assumes "roles_ok p"
  shows "within tensor_cap (derive_operator_family p b)"
    "derive_operator_family p b = Inr F \<Longrightarrow> complex F \<and> support F \<subseteq> cells_of p"
    "derive_operator_family p False = Inr F \<Longrightarrow> derive_operator_family p True = Inr G \<Longrightarrow> G \<subseteq> F"
proof -
  obtain roles where roles: "map_of operator_roles (operator_kind p) = Some roles"
    and fams: "\<And>role. role \<in> set roles \<Longrightarrow> \<exists>may req. map_of (role_may p) role = Some may \<and> map_of (role_required p) role = Some req \<and>
        complex may \<and> complex req \<and> req \<subseteq> may \<and> support may \<subseteq> cells_of p" using assms by (auto simp: roles_ok_def)
  consider (replace) "operator_kind p = ''RestoreReplace''" "roles = [''checkpoint'']"
    | (two) l r where "operator_kind p \<noteq> ''RestoreReplace''" "roles = [l, r]"
        "operator_kind p \<in> set choice_operators \<or> operator_kind p \<in> set tensor_operators"
    using operator_roles_cases [OF roles] by blast
  then have "within tensor_cap (derive_operator_family p b) \<and>
    (derive_operator_family p b = Inr F \<longrightarrow> complex F \<and> support F \<subseteq> cells_of p) \<and>
    (derive_operator_family p False = Inr F \<longrightarrow> derive_operator_family p True = Inr G \<longrightarrow> G \<subseteq> F)"
  proof cases
    case replace
    obtain may req where f: "map_of (role_may p) ''checkpoint'' = Some may" "map_of (role_required p) ''checkpoint'' = Some req"
        "complex may" "complex req" "req \<subseteq> may" "support may \<subseteq> cells_of p" using fams [of "''checkpoint''"] replace(2) by auto
    have "derive_operator_family p c = Inr (if c then req else may)" for c
      using replace(1) roles f(1,2) by (simp add: derive_operator_family_def)
    then show ?thesis using f(3-6) order_trans [OF support_mono [OF f(5)] f(6)] by auto
  next
    case two
    obtain lm lq where l: "map_of (role_may p) l = Some lm" "map_of (role_required p) l = Some lq" "complex lm" "complex lq" "lq \<subseteq> lm"
        "support lm \<subseteq> cells_of p" using fams [of l] two(2) by auto
    obtain rm rq where r: "map_of (role_may p) r = Some rm" "map_of (role_required p) r = Some rq" "complex rm" "complex rq" "rq \<subseteq> rm"
        "support rm \<subseteq> cells_of p" using fams [of r] two(2) by auto
    let ?l = "if b then lq else lm" and ?r = "if b then rq else rm"
    have "support lq \<subseteq> cells_of p" "support rq \<subseteq> cells_of p"
      using order_trans [OF support_mono [OF l(5)] l(6)] order_trans [OF support_mono [OF r(5)] r(6)] .
    then have sup: "support ?l \<subseteq> cells_of p" "support ?r \<subseteq> cells_of p" "complex ?l" "complex ?r"
      using l(3,4,6) r(3,4,6) by simp_all
    show ?thesis
    proof (cases "operator_kind p \<in> set choice_operators")
      case True
      have D: "derive_operator_family p c = Inr (family_choice (if c then lq else lm) (if c then rq else rm))" for c
        using True two(1,2) roles l(1,2) r(1,2) by (simp add: derive_operator_family_def)
      have "support (family_choice ?l ?r) \<subseteq> cells_of p" using sup by (auto simp: support_def family_choice_def)
      then show ?thesis using complex_choice [OF sup(3,4)] l(5) r(5) unfolding D by (auto simp: family_choice_def)
    next
      case False
      have D: "derive_operator_family p c = family_tensor (if c then lq else lm) (if c then rq else rm)" for c
        using False two roles l(1,2) r(1,2) by (simp add: derive_operator_family_def)
      have "support F \<subseteq> cells_of p" if "family_tensor ?l ?r = Inr F" for F
        using support_tensor [OF sup(3,4) that] sup(1,2) by blast
      then show ?thesis
        using tensor_within [of ?l ?r] complex_tensor(1) [OF sup(3,4)] tensor_mono [of lm rm F lq rq G] l(5) r(5) unfolding D by auto
    qed
  qed
  then show "within tensor_cap (derive_operator_family p b)"
    "derive_operator_family p b = Inr F \<Longrightarrow> complex F \<and> support F \<subseteq> cells_of p"
    "derive_operator_family p False = Inr F \<Longrightarrow> derive_operator_family p True = Inr G \<Longrightarrow> G \<subseteq> F" by blast+
qed

section \<open>Inheritance\<close>

lemma inherit_parents_ok:
  assumes "\<forall>(i, cell)\<in>set cells. \<forall>q. norm_parent cell = Some q \<longrightarrow> q \<in> fst ` set (source_cells p)" and "distinct (map fst cells)"
  shows "\<exists>out. inherit_parents p cells pm = Inr out \<and> (\<forall>pm'. out = Inr pm' \<longrightarrow>
    fst ` set pm' = fst ` set pm \<union> fst ` set cells \<and> (\<forall>j. j \<notin> fst ` set cells \<longrightarrow> map_of pm' j = map_of pm j) \<and>
    (\<forall>(i, cell)\<in>set cells. \<exists>q s. norm_parent cell = Some q \<and> map_of (source_cells p) q = Some s \<and>
      source_atom s = norm_atom cell \<and> map_of pm' i = Some q))"
  using assms
proof (induction cells arbitrary: pm)
  case (Cons row cells)
  obtain i cell where row: "row = (i, cell)" by (cases row)
  show ?case
  proof (cases "norm_parent cell")
    case (Some q)
    then have "map_of (source_cells p) q \<noteq> None" using Cons.prems(1) by (auto simp: row map_of_eq_None_iff)
    then obtain s where s: "map_of (source_cells p) q = Some s" by blast
    show ?thesis
    proof (cases "source_atom s = norm_atom cell")
      case True
      let ?pm = "AList.update i q pm"
      have "distinct (map fst cells)" "i \<notin> fst ` set cells"
        "\<forall>(i, cell)\<in>set cells. \<forall>q. norm_parent cell = Some q \<longrightarrow> q \<in> fst ` set (source_cells p)"
        using Cons.prems by (auto simp: row)
      then obtain out where out: "inherit_parents p cells ?pm = Inr out" "\<And>pm'. out = Inr pm' \<Longrightarrow>
          fst ` set pm' = fst ` set ?pm \<union> fst ` set cells \<and> (\<forall>j. j \<notin> fst ` set cells \<longrightarrow> map_of pm' j = map_of ?pm j) \<and>
          (\<forall>(i, cell)\<in>set cells. \<exists>q s. norm_parent cell = Some q \<and> map_of (source_cells p) q = Some s \<and>
            source_atom s = norm_atom cell \<and> map_of pm' i = Some q)" using Cons.IH [of ?pm] by blast
      have step: "inherit_parents p (row # cells) pm = Inr out" using Some s True out(1) by (simp add: row)
      have keys: "fst ` set ?pm = insert i (fst ` set pm)" using dom_update [of i q pm] by simp
      have "fst ` set pm' = fst ` set pm \<union> fst ` set (row # cells) \<and> (\<forall>j. j \<notin> fst ` set (row # cells) \<longrightarrow> map_of pm' j = map_of pm j) \<and>
          (\<forall>(i, cell)\<in>set (row # cells). \<exists>q s. norm_parent cell = Some q \<and> map_of (source_cells p) q = Some s \<and>
            source_atom s = norm_atom cell \<and> map_of pm' i = Some q)" if pm': "out = Inr pm'" for pm'
      proof (intro conjI)
        note o = out(2) [OF pm']
        show "fst ` set pm' = fst ` set pm \<union> fst ` set (row # cells)" using o keys by (auto simp: row)
        show "\<forall>j. j \<notin> fst ` set (row # cells) \<longrightarrow> map_of pm' j = map_of pm j" using o by (auto simp: row update_conv')
        have "map_of pm' i = Some q" using o \<open>i \<notin> fst ` set cells\<close> by (simp add: update_conv')
        then show "\<forall>(i, cell)\<in>set (row # cells). \<exists>q s. norm_parent cell = Some q \<and> map_of (source_cells p) q = Some s \<and>
            source_atom s = norm_atom cell \<and> map_of pm' i = Some q" using o Some s True by (simp add: row)
      qed
      then show ?thesis using step by blast
    next
      case False
      then show ?thesis using Some s by (simp add: row)
    qed
  qed (simp add: row)
qed simp

lemma inherit_configs_ok:
  assumes "\<forall>c\<in>set cs. finite c \<and> c \<subseteq> fst ` set pm"
  shows "\<exists>out. inherit_configs p pm cs = Inr out \<and>
    (out = None \<longleftrightarrow> (\<forall>c\<in>set cs. inj_on (atom_of pm) c \<and> atom_of pm ` c \<in> source_future p))"
  using assms
proof (induction cs)
  case (Cons c cs)
  have c: "finite c" "map_r (dict_get pm) (sorted_list_of_set c) = Inr (map (atom_of pm) (sorted_list_of_set c))"
    using Cons.prems map_r_dict_get [of "sorted_list_of_set c" pm] by auto
  have inj: "distinct (map (atom_of pm) (sorted_list_of_set c)) \<longleftrightarrow> inj_on (atom_of pm) c" using c(1) by (simp add: distinct_map)
  show ?case using Cons c inj by auto
qed simp

lemma atom_of_lineage:
  assumes "map_of cells i = Some cell"
  shows "atom_of (map (\<lambda>(i, cell). (i, f cell)) cells) i = f cell"
  using assms by (induction cells) (auto simp: atom_of_def)

text \<open>Inheritance is decided without an error, and what it accepts is unobstructed.\<close>

lemma inheritance_ok:
  assumes "envelope_ok p" and "complex cand" and "support cand \<subseteq> cells_of p"
  shows "\<exists>b inh. inheritance_of p cand = Inr (b, inh) \<and>
    (b \<longrightarrow> current_durable p = source_durable p \<and> source_version p \<le> target_version p \<and>
      (\<forall>c\<in>cand. unobstructed (authority p) (current_durable p) (atom_of (lineage_of p)) c))"
proof (cases "current_durable p = source_durable p \<and> source_version p \<le> target_version p")
  case True
  have env: "distinct (map fst (normalized_cells p))"
    "\<forall>(i, cell)\<in>set (normalized_cells p). \<forall>q. norm_parent cell = Some q \<longrightarrow> q \<in> fst ` set (source_cells p)"
    "\<And>c. c \<in> source_future p \<Longrightarrow> unobstructed (authority p) (source_durable p) (atom_of (source_lineage p)) c"
    using assms(1) by (auto simp: envelope_ok_def)
  let ?cells = "sort_key fst (normalized_cells p)"
  have "distinct (map fst ?cells)" using env(1) by simp
  then obtain out where out: "inherit_parents p ?cells [] = Inr out" "\<And>pm. out = Inr pm \<Longrightarrow> fst ` set pm = cells_of p \<and>
      (\<forall>(i, cell)\<in>set (normalized_cells p). \<exists>q s. norm_parent cell = Some q \<and> map_of (source_cells p) q = Some s \<and>
        source_atom s = norm_atom cell \<and> map_of pm i = Some q)"
    using inherit_parents_ok [of ?cells p "[]"] env(2) by (auto simp: cells_of_def)
  show ?thesis
  proof (cases out)
    case (Inl reason)
    then have "inheritance_of p cand = Inr (False, Unavailable reason)" using True out(1) by (simp add: inheritance_of_def)
    then show ?thesis by blast
  next
    case (Inr pm)
    note pm = out(2) [OF Inr]
    have cand: "set (sorted_configs cand) = cand" using complexD(1,2) [OF assms(2)] by simp
    have "\<forall>c\<in>set (sorted_configs cand). finite c \<and> c \<subseteq> fst ` set pm"
      using complexD(2) [OF assms(2)] assms(3) pm unfolding cand by (auto simp: support_def)
    from inherit_configs_ok [OF this, of p] obtain r where r: "inherit_configs p pm (sorted_configs cand) = Inr r"
      "r = None \<longleftrightarrow> (\<forall>c\<in>cand. inj_on (atom_of pm) c \<and> atom_of pm ` c \<in> source_future p)" unfolding cand by blast
    have "unobstructed (authority p) (current_durable p) (atom_of (lineage_of p)) c" if c: "c \<in> cand" "r = None" for c
    proof -
      have f: "inj_on (atom_of pm) c" "atom_of pm ` c \<in> source_future p" using r(2) c by auto
      have comm: "atom_of (lineage_of p) x = atom_of (source_lineage p) (atom_of pm x)" if x: "x \<in> c" for x
      proof -
        have "x \<in> cells_of p" using assms(3) c(1) x by (auto simp: support_def)
        then obtain cell where cell: "(x, cell) \<in> set (normalized_cells p)" by (auto simp: cells_of_def)
        then obtain q s where q: "map_of (source_cells p) q = Some s" "source_atom s = norm_atom cell" "map_of pm x = Some q" using pm by blast
        have "map_of (normalized_cells p) x = Some cell" using cell env(1) by simp
        then show ?thesis using q atom_of_lineage [of "normalized_cells p" x cell norm_atom] atom_of_lineage [of "source_cells p" q s source_atom]
          by (simp add: lineage_of_def source_lineage_def atom_of_def)
      qed
      have image: "atom_of (lineage_of p) ` c = atom_of (source_lineage p) ` (atom_of pm ` c)"
        unfolding image_image by (rule image_cong [OF refl comm])
      have "inj_on (atom_of (source_lineage p) \<circ> atom_of pm) c"
        using f env(3) [OF f(2)] by (intro comp_inj_on) (simp_all add: unobstructed_def)
      then have "inj_on (atom_of (lineage_of p)) c" using comm by (simp add: inj_on_def)
      then show ?thesis using env(3) [OF f(2)] True unfolding unobstructed_def image by simp
    qed
    then show ?thesis using True out(1) Inr r(1) by (cases r) (auto simp: inheritance_of_def)
  qed
next
  case False
  then show ?thesis by (auto simp: inheritance_of_def)
qed

end
