(* ===== verification/Readiness.thy ===== *)
theory Readiness
  imports Envelopes
begin

text \<open>
  The end of the compilation: the witnesses of the coordination result are what they claim, the
  internal errors cannot occur, and the class, the admitted family and the readiness are decided by
  the families alone.
\<close>

section \<open>Minimal covers\<close>

definition cover :: "(string \<times> string list) list \<Rightarrow> string set \<Rightarrow> config" where
  "cover choices S = (\<Union>a\<in>S. set (the (map_of choices a)))"

lemma cover_mono: "S \<subseteq> T \<Longrightarrow> cover choices S \<subseteq> cover choices T"
  by (auto simp: cover_def)

definition drop_anchor :: "config \<Rightarrow> (string \<times> string list) list \<Rightarrow> string \<Rightarrow> string list \<Rightarrow> string list" where
  "drop_anchor target choices a current =
     (if target \<subseteq> cover choices (set current - {a}) then remove1 a current else current)"

lemma minimal_covering_drop:
  "minimal_covering_controllers target choices =
     (let chosen = sort (map fst (filter (\<lambda>(_, loc). set loc \<inter> target \<noteq> {}) choices)) in
      fold (drop_anchor target choices) (rev chosen) chosen)"
proof -
  have "{x \<in> set current. x \<noteq> a} = set current - {a}" for a and current :: "string list" by auto
  then show ?thesis
    unfolding minimal_covering_controllers_def drop_anchor_def [abs_def] cover_def by (simp add: Let_def)
qed

lemma drop_fold:
  assumes "distinct current" and "target \<subseteq> cover choices (set current)"
  shows "distinct (fold (drop_anchor target choices) order current) \<and>
    set (fold (drop_anchor target choices) order current) \<subseteq> set current \<and>
    target \<subseteq> cover choices (set (fold (drop_anchor target choices) order current)) \<and>
    (\<forall>a\<in>set order. a \<in> set (fold (drop_anchor target choices) order current) \<longrightarrow>
      \<not> target \<subseteq> cover choices (set (fold (drop_anchor target choices) order current) - {a}))"
  using assms
proof (induction order arbitrary: current)
  case (Cons a order)
  let ?next = "drop_anchor target choices a current"
  have d: "distinct ?next" "target \<subseteq> cover choices (set ?next)" "set ?next \<subseteq> set current"
    using Cons.prems by (auto simp: drop_anchor_def)
  note IH = Cons.IH [OF d(1,2)]
  let ?R = "fold (drop_anchor target choices) order ?next"
  have "\<not> target \<subseteq> cover choices (set ?R - {a})" if "a \<in> set ?R"
  proof (cases "target \<subseteq> cover choices (set current - {a})")
    case True
    then have "set ?next = set current - {a}" using Cons.prems(1) by (simp add: drop_anchor_def)
    then show ?thesis using IH that by blast
  next
    case False
    have "set ?R - {a} \<subseteq> set current - {a}" using IH d(3) by blast
    then show ?thesis using False cover_mono [of "set ?R - {a}" "set current - {a}" choices] by blast
  qed
  then show ?case using IH d(3) by auto
qed simp

lemma minimal_covering_ok:
  assumes "distinct (map fst choices)" and "target \<subseteq> (\<Union>(a, l)\<in>set choices. set l)"
    and "used = minimal_covering_controllers target choices"
  shows "distinct used" "set used \<subseteq> fst ` set choices" "target \<subseteq> cover choices (set used)"
    "\<And>a. a \<in> set used \<Longrightarrow> \<not> target \<subseteq> cover choices (set used - {a})"
proof -
  let ?chosen = "sort (map fst (filter (\<lambda>(_, loc). set loc \<inter> target \<noteq> {}) choices))"
  have used: "used = fold (drop_anchor target choices) (rev ?chosen) ?chosen"
    unfolding assms(3) minimal_covering_drop Let_def by (rule refl)
  have chosen: "distinct ?chosen" "set ?chosen \<subseteq> fst ` set choices" using assms(1) by (auto simp: distinct_map_filter)
  have "x \<in> cover choices (set ?chosen)" if x: "x \<in> target" for x
  proof -
    obtain a l where l: "(a, l) \<in> set choices" "x \<in> set l" using assms(2) x by blast
    then have "map_of choices a = Some l" using assms(1) by simp
    moreover have "a \<in> set ?chosen" using l x by force
    ultimately show ?thesis using l(2) unfolding cover_def by fastforce
  qed
  then have cov: "target \<subseteq> cover choices (set ?chosen)" by blast
  note res = drop_fold [OF chosen(1) cov, of "rev ?chosen", folded used]
  show "distinct used" "target \<subseteq> cover choices (set used)" using res by blast+
  show sub: "set used \<subseteq> fst ` set choices" using res chosen(2) by blast
  have "set used \<subseteq> set (rev ?chosen)" using res unfolding set_rev by (elim conjE)
  then show "\<not> target \<subseteq> cover choices (set used - {a})" if "a \<in> set used" for a
    using res [THEN conjunct2, THEN conjunct2, THEN conjunct2] that by blast
qed

section \<open>Witnesses of a product configuration outside the admitted family\<close>

fun witness_valid :: "parsed_request \<Rightarrow> family \<Rightarrow> config \<Rightarrow> coordination_witness \<Rightarrow> bool" where
  "witness_valid p adm c (OutsideSupport cell anchor origin) \<longleftrightarrow>
     cell \<in> c \<and> cell \<notin> support adm \<and> {cell} \<in> families_of (controllers p) anchor \<and>
     map_option gate_origin (map_of (controllers p) anchor) = Some origin"
| "witness_valid p adm c (ControllerOverpermit m anchor origin) \<longleftrightarrow>
     set m \<in> set (minimal_nonfaces adm) \<and> set m \<subseteq> c \<and> set m \<in> families_of (controllers p) anchor \<and>
     map_option gate_origin (map_of (controllers p) anchor) = Some origin"
| "witness_valid p adm c (CorrelationCut kind m used choices origins) \<longleftrightarrow>
     set m \<in> set (minimal_nonfaces adm) \<and> set m \<subseteq> c \<and> 2 \<le> length used \<and> distinct used \<and> set used \<in> controller_future p \<and>
     map fst choices = used \<and> (\<forall>(a, l)\<in>set choices. set l \<in> families_of (controllers p) a \<and> set l \<in> adm) \<and>
     set m = (\<Union>(a, l)\<in>set choices. set l) \<and> (\<forall>a\<in>set used. set m \<noteq> (\<Union>(b, l)\<in>{x \<in> set choices. fst x \<noteq> a}. set l)) \<and>
     map fst origins = used \<and> (\<forall>(a, origin)\<in>set origins. map_option gate_origin (map_of (controllers p) a) = Some origin) \<and>
     kind = (if card (snd ` set origins) = 1 then ''GateClone'' else ''GateCut'')"
| "witness_valid p adm c (OptionalBehaviorRestricted _) \<longleftrightarrow> False"
| "witness_valid p adm c (MissingRequiredBehavior _) \<longleftrightarrow> False"

lemma families_of_Some: "map_of ctls a = Some ctl \<Longrightarrow> families_of ctls a = local_family ctl"
  by (simp add: families_of_def)

text \<open>The facts about a recorded witness the cases below use.\<close>

lemma witness_facts:
  assumes "controllers_ok ctls \<Gamma>" and "witness_ok (families_of ctls) \<Gamma> (c, w)"
  obtains C where "C \<in> \<Gamma>" "map fst (local_choices w) = sorted_list_of_set C" "set (map fst (local_choices w)) = C"
    "distinct (map fst (local_choices w))" "c = (\<Union>(a, l)\<in>set (local_choices w). set l)" "sort_key fst (local_choices w) = local_choices w"
    "\<And>a l. (a, l) \<in> set (local_choices w) \<Longrightarrow> \<exists>ctl. map_of ctls a = Some ctl \<and> set l \<in> families_of ctls a \<and> complex (families_of ctls a)"
proof -
  obtain C where C: "C \<in> \<Gamma>" "map fst (local_choices w) = sorted_list_of_set C"
    "\<forall>(a, l)\<in>set (local_choices w). set l \<in> families_of ctls a" "c = (\<Union>(a, l)\<in>set (local_choices w). set l)"
    using assms(2) by (auto simp: witness_ok_def)
  have fin: "finite C" using controllers_okD(1) [OF assms(1)] C(1) by (rule complexD(2))
  have keys: "set (map fst (local_choices w)) = C" "distinct (map fst (local_choices w))" unfolding C(2) using fin by simp_all
  have "sorted (map fst (local_choices w))" unfolding C(2) by simp
  then have sorted: "sort_key fst (local_choices w) = local_choices w" by (rule sort_key_id_if_sorted)
  have "\<exists>ctl. map_of ctls a = Some ctl \<and> set l \<in> families_of ctls a \<and> complex (families_of ctls a)" if al: "(a, l) \<in> set (local_choices w)" for a l
  proof -
    have "a \<in> C" using keys(1) al by force
    then have a: "complex (families_of ctls a)" "a \<in> fst ` set ctls"
      using controllers_okD(2) [OF assms(1) C(1)] assms(1) C(1) by (auto simp: controllers_ok_def support_def)
    then have "map_of ctls a \<noteq> None" by (simp add: map_of_eq_None_iff)
    then show ?thesis using a(1) C(3) al by auto
  qed
  then show thesis using C(1,2,4) keys sorted by (intro that)
qed

lemma extra_outside:
  assumes "controllers_ok (controllers p) (controller_future p)" and "finite c"
    and "witness_ok (families_of (controllers p)) (controller_future p) (c, w)" and "\<not> c \<subseteq> support adm"
  shows "\<exists>wit. extra_witness p adm c w = Inr wit \<and> witness_valid p adm c wit"
proof (rule witness_facts [OF assms(1,3)])
  fix C
  assume c: "c = (\<Union>(a, l)\<in>set (local_choices w). set l)" and sorted: "sort_key fst (local_choices w) = local_choices w"
    and ctl: "\<And>a l. (a, l) \<in> set (local_choices w) \<Longrightarrow> \<exists>ctl. map_of (controllers p) a = Some ctl \<and>
      set l \<in> families_of (controllers p) a \<and> complex (families_of (controllers p) a)"
  let ?out = "c - support adm"
  let ?cell = "hd (sorted_list_of_set ?out)"
  have out: "?out \<noteq> {}" "finite ?out" using assms(2,4) by auto
  then have cell: "?cell \<in> ?out" by (metis hd_in_set set_sorted_list_of_set sorted_list_of_set_eq_Nil_iff)
  have "List.find (\<lambda>(_, loc). ?cell \<in> set loc) (local_choices w) \<noteq> None"
    using cell c by (auto simp: find_None_iff)
  then obtain a l where al: "List.find (\<lambda>(_, loc). ?cell \<in> set loc) (local_choices w) = Some (a, l)" by auto
  then have mem: "(a, l) \<in> set (local_choices w)" "?cell \<in> set l"
    by (auto simp: find_Some_iff) (metis nth_mem)
  obtain ct where ct: "map_of (controllers p) a = Some ct" "set l \<in> families_of (controllers p) a" "complex (families_of (controllers p) a)"
    using ctl [OF mem(1)] by blast
  have "{?cell} \<in> families_of (controllers p) a" using complexD(3) [OF ct(3,2)] mem(2) by simp
  then have "witness_valid p adm c (OutsideSupport ?cell a (gate_origin ct))" using cell ct(1) by simp
  moreover have "extra_witness p adm c w = Inr (OutsideSupport ?cell a (gate_origin ct))"
    using out(1) al ct(1) by (simp add: extra_witness_def Let_def sorted)
  ultimately show ?thesis by blast
qed

lemma first_nonface:
  assumes "complex adm" and "finite x" and "x \<subseteq> support adm" and "x \<notin> adm"
  obtains m rest where "filter (\<lambda>nf. nf \<subseteq> x) (minimal_nonfaces adm) = m # rest" "m \<in> set (minimal_nonfaces adm)" "m \<subseteq> x" "finite m"
proof (cases "filter (\<lambda>nf. nf \<subseteq> x) (minimal_nonfaces adm)")
  case Nil
  then show thesis using minimal_nonface_below [OF assms] by (auto simp: filter_empty_conv)
next
  case (Cons m rest)
  then have "m \<in> set (filter (\<lambda>nf. nf \<subseteq> x) (minimal_nonfaces adm))" by simp
  then show thesis using that [OF Cons] finite_subset [OF _ assms(2)] by simp
qed

lemma gate_origins_ok:
  assumes "\<forall>a\<in>set used. \<exists>ctl. map_of (controllers p) a = Some ctl"
  shows "gate_origins_of p used = Inr (map (\<lambda>a. (a, gate_origin (the (map_of (controllers p) a)))) used)"
  unfolding gate_origins_of_def using assms by (intro map_r_total) auto

text \<open>All local choices are admitted: the minimal nonface is split across at least two controllers.\<close>

lemma extra_correlation:
  assumes "controllers_ok (controllers p) (controller_future p)" and "complex adm"
    and "witness_ok (families_of (controllers p)) (controller_future p) (c, w)" and "c \<subseteq> support adm"
    and "filter (\<lambda>nf. nf \<subseteq> c) (minimal_nonfaces adm) = m # rest" and "m \<in> set (minimal_nonfaces adm)" and "m \<subseteq> c" and "finite m"
    and "\<forall>(a, l)\<in>set (local_choices w). set l \<in> adm"
  shows "\<exists>wit. extra_witness p adm c w = Inr wit \<and> witness_valid p adm c wit"
proof (rule witness_facts [OF assms(1,3)])
  fix C
  assume C: "C \<in> controller_future p" "set (map fst (local_choices w)) = C" "distinct (map fst (local_choices w))"
    and c: "c = (\<Union>(a, l)\<in>set (local_choices w). set l)" and sorted: "sort_key fst (local_choices w) = local_choices w"
    and ctl: "\<And>a l. (a, l) \<in> set (local_choices w) \<Longrightarrow> \<exists>ctl. map_of (controllers p) a = Some ctl \<and>
      set l \<in> families_of (controllers p) a \<and> complex (families_of (controllers p) a)"
  let ?ch = "local_choices w"
  define used where "used = minimal_covering_controllers m ?ch"
  let ?loc = "\<lambda>a. set (the (map_of ?ch a))"
  have m: "2 \<le> card m" "m \<notin> adm" using assms(6) by (simp_all add: set_minimal_nonfaces [OF assms(2)])
  have "m \<subseteq> (\<Union>(a, l)\<in>set ?ch. set l)" using assms(7) c by simp
  note cov = minimal_covering_ok [OF C(3) this used_def]
  have look: "(a, the (map_of ?ch a)) \<in> set ?ch" if "a \<in> set used" for a
  proof -
    have "a \<in> fst ` set ?ch" using cov(2) that by blast
    then have "map_of ?ch a \<noteq> None" by (simp add: map_of_eq_None_iff)
    then show ?thesis by (auto dest: map_of_SomeD)
  qed
  have len: "2 \<le> length used"
  proof (rule ccontr)
    assume "\<not> 2 \<le> length used"
    then consider "used = []" | a where "used = [a]" by (cases used; cases "tl used") auto
    then show False
    proof cases
      case 1
      then show ?thesis using cov(3) m(1) by (simp add: cover_def)
    next
      case (2 a)
      then have "m \<subseteq> ?loc a" using cov(3) by (simp add: cover_def)
      moreover have "?loc a \<in> adm" using look [of a] assms(9) 2 by auto
      ultimately show ?thesis using m(2) complexD(3) [OF assms(2)] by blast
    qed
  qed
  let ?choices = "map (\<lambda>a. (a, sorted_list_of_set (?loc a \<inter> m))) used"
  let ?origins = "map (\<lambda>a. (a, gate_origin (the (map_of (controllers p) a)))) used"
  let ?kind = "if card (snd ` set ?origins) = 1 then ''GateClone'' else ''GateCut''"
  let ?wit = "CorrelationCut ?kind (sorted_list_of_set m) used ?choices ?origins"
  have ctls: "\<forall>a\<in>set used. \<exists>ctl. map_of (controllers p) a = Some ctl" using look ctl by blast
  have "c - support adm = {}" "filter (\<lambda>(_, loc). set loc \<notin> adm) ?ch = []" "minimal_covering_controllers m ?ch = used" "\<not> length used < 2"
    using assms(4,9) len by (auto simp: filter_empty_conv used_def)
  then have "extra_witness p adm c w = Inr ?wit"
    using gate_origins_ok [OF ctls] by (simp only: extra_witness_def Let_def sorted assms(5) bind_r_simps list.case if_True if_False not_True_eq_False simp_thms)
  moreover have "set used \<in> controller_future p"
  proof -
    have "set used \<subseteq> C" using cov(2) unfolding C(2) [symmetric] by simp
    then show ?thesis using complexD(3) [OF controllers_okD(1) [OF assms(1)] C(1)] by blast
  qed
  moreover have "\<forall>(a, l)\<in>set ?choices. set l \<in> families_of (controllers p) a \<and> set l \<in> adm"
  proof clarsimp
    fix a assume a: "a \<in> set used"
    have L: "?loc a \<in> families_of (controllers p) a" "complex (families_of (controllers p) a)" "?loc a \<in> adm"
      using ctl [OF look [OF a]] assms(9) look [OF a] by auto
    show "?loc a \<inter> m \<in> families_of (controllers p) a \<and> ?loc a \<inter> m \<in> adm"
      using complexD(3) [OF L(2,1) Int_lower1] complexD(3) [OF assms(2) L(3) Int_lower1] by blast
  qed
  moreover have "m = (\<Union>(a, l)\<in>set ?choices. set l)" using cov(3) by (auto simp: cover_def)
  moreover have "m \<noteq> (\<Union>(b, l)\<in>{x \<in> set ?choices. fst x \<noteq> a}. set l)" if "a \<in> set used" for a
  proof
    assume "m = (\<Union>(b, l)\<in>{x \<in> set ?choices. fst x \<noteq> a}. set l)"
    also have "\<dots> \<subseteq> cover ?ch (set used - {a})" by (auto simp: cover_def)
    finally show False using cov(4) [OF that] by blast
  qed
  moreover have "\<forall>(a, origin)\<in>set ?origins. map_option gate_origin (map_of (controllers p) a) = Some origin" using ctls by auto
  ultimately show ?thesis using assms(6-8) len cov(1) by (intro exI [of _ ?wit]) (simp add: comp_def)
qed

end
