(* ===== verification/Compilation.thy ===== *)
theory Compilation
  imports Readiness
begin

text \<open>
  The compilation of a well-formed request: the coordination result is total and says what the
  physical family is worth, no internal error is reachable, and the class, the admitted family and
  the readiness are decided by the families alone.
\<close>

section \<open>The witness of an extra configuration\<close>

lemma extra_overpermit:
  assumes "controllers_ok (controllers p) (controller_future p)" and "complex adm"
    and "witness_ok (families_of (controllers p)) (controller_future p) (c, w)" and "c \<subseteq> support adm"
    and "filter (\<lambda>nf. nf \<subseteq> c) (minimal_nonfaces adm) = m # rest"
    and "filter (\<lambda>(_, loc). set loc \<notin> adm) (local_choices w) = (a, l) # others"
  shows "\<exists>wit. extra_witness p adm c w = Inr wit \<and> witness_valid p adm c wit"
proof (rule witness_facts [OF assms(1,3)])
  fix C
  assume c: "c = (\<Union>(a, l)\<in>set (local_choices w). set l)" and sorted: "sort_key fst (local_choices w) = local_choices w"
    and ctl: "\<And>a l. (a, l) \<in> set (local_choices w) \<Longrightarrow> \<exists>ctl. map_of (controllers p) a = Some ctl \<and>
      set l \<in> families_of (controllers p) a \<and> complex (families_of (controllers p) a)"
  have "(a, l) \<in> set (filter (\<lambda>(_, loc). set loc \<notin> adm) (local_choices w))" unfolding assms(6) by simp
  then have mem: "(a, l) \<in> set (local_choices w)" "set l \<notin> adm" by auto
  have sub: "set l \<subseteq> c" using mem(1) c by auto
  then have "set l \<subseteq> support adm" using assms(4) by blast
  then obtain k others' where k: "filter (\<lambda>nf. nf \<subseteq> set l) (minimal_nonfaces adm) = k # others'" "k \<in> set (minimal_nonfaces adm)"
      "k \<subseteq> set l" "finite k"
    using first_nonface [OF assms(2) finite_set _ mem(2)] by blast
  obtain ct where ct: "map_of (controllers p) a = Some ct" "set l \<in> families_of (controllers p) a" "complex (families_of (controllers p) a)"
    using ctl [OF mem(1)] by blast
  let ?wit = "ControllerOverpermit (sorted_list_of_set k) a (gate_origin ct)"
  have "c - support adm = {}" using assms(4) by blast
  then have "extra_witness p adm c w = Inr ?wit"
    using ct(1) by (simp only: extra_witness_def Let_def sorted assms(5,6) k(1) dict_get_Some bind_r_simps list.case prod.case if_True if_False not_True_eq_False simp_thms)
  moreover have "witness_valid p adm c ?wit" using k(2-4) sub complexD(3) [OF ct(3,2) k(3)] ct(1) by auto
  ultimately show ?thesis by blast
qed

lemma extra_witness_ok:
  assumes "controllers_ok (controllers p) (controller_future p)" and "complex adm" and "finite c" and "c \<notin> adm"
    and "witness_ok (families_of (controllers p)) (controller_future p) (c, w)"
  shows "\<exists>wit. extra_witness p adm c w = Inr wit \<and> witness_valid p adm c wit"
proof (cases "c \<subseteq> support adm")
  case True
  from first_nonface [OF assms(2,3) True assms(4)] obtain m rest where m:
    "filter (\<lambda>nf. nf \<subseteq> c) (minimal_nonfaces adm) = m # rest" "m \<in> set (minimal_nonfaces adm)" "m \<subseteq> c" "finite m" by blast
  show ?thesis
  proof (cases "filter (\<lambda>(_, loc). set loc \<notin> adm) (local_choices w)")
    case Nil
    then have "\<forall>(a, l)\<in>set (local_choices w). set l \<in> adm" by (auto simp: filter_empty_conv)
    then show ?thesis by (rule extra_correlation [OF assms(1,2,5) True m])
  next
    case (Cons row others)
    then show ?thesis by (cases row) (use extra_overpermit [OF assms(1,2,5) True m(1)] in simp)
  qed
qed (use extra_outside [OF assms(1,3,5)] in blast)

section \<open>The coordination result\<close>

definition unscoped :: "parsed_request \<Rightarrow> family \<Rightarrow> family \<Rightarrow> family \<Rightarrow> coordination \<Rightarrow> bool" where
  "unscoped p adm required phys r \<longleftrightarrow>
     required_covered r = Some (required \<subseteq> phys) \<and> admitted_respected r = Some (phys \<subseteq> adm) \<and>
     exact_fidelity r = Some (phys = adm) \<and>
     co_status r = (if phys = adm then ''exact'' else if phys \<subseteq> adm \<and> required \<subseteq> phys then ''safe_restriction''
       else if phys \<subseteq> adm then ''missing_required'' else if required \<subseteq> phys then ''unsafe_overapprox'' else ''unsafe_and_incomplete'') \<and>
     (case co_witness r of None \<Rightarrow> phys = adm
      | Some (OptionalBehaviorRestricted c) \<Rightarrow> phys \<subset> adm \<and> required \<subseteq> phys \<and> set c \<in> adm - phys
      | Some (MissingRequiredBehavior c) \<Rightarrow> phys \<subset> adm \<and> set c \<in> required - phys
      | Some w \<Rightarrow> \<exists>c\<in>phys - adm. witness_valid p adm c w)"

lemma sorted_configs_hd:
  assumes "finite F" and "\<forall>c\<in>F. finite c" and "F \<noteq> {}"
  shows "hd (sorted_configs F) \<in> F" "set (sorted_list_of_set (hd (sorted_configs F))) = hd (sorted_configs F)"
proof -
  have "set (sorted_configs F) = F" using assms(1,2) by (rule set_sorted_configs)
  then show hd: "hd (sorted_configs F) \<in> F" using assms(3) by (metis hd_in_set list.set(1))
  show "set (sorted_list_of_set (hd (sorted_configs F))) = hd (sorted_configs F)" using assms(2) hd by simp
qed

lemma physical_complex:
  assumes "complex \<Gamma>" and "\<And>a. a \<in> support \<Gamma> \<Longrightarrow> complex (L a)"
  shows "finite (physical_family L \<Gamma>)" "\<forall>c\<in>physical_family L \<Gamma>. finite c"
proof -
  have C: "finite C" "\<And>a. a \<in> C \<Longrightarrow> complex (L a)" if "C \<in> \<Gamma>" for C
    using complexD(2) [OF assms(1) that] assms(2) that by (auto simp: support_def)
  have sub: "physical_family L \<Gamma> \<subseteq> Pow (\<Union>C\<in>\<Gamma>. \<Union>a\<in>C. \<Union> (L a))"
    by (force simp: physical_family_def product_family_def)
  have "finite (\<Union> (L a))" if "C \<in> \<Gamma>" "a \<in> C" for C a using complexD(1,2) [OF C(2) [OF that]] by (rule finite_Union)
  then have fin: "finite (\<Union>C\<in>\<Gamma>. \<Union>a\<in>C. \<Union> (L a))"
    using complexD(1) [OF assms(1)] C(1) by (intro finite_UN_I) simp_all
  show "finite (physical_family L \<Gamma>)" using sub fin by (rule finite_subset [OF _ finite_Pow_iff [THEN iffD2]])
  show "\<forall>c\<in>physical_family L \<Gamma>. finite c" using sub fin by (auto intro: finite_subset)
qed

lemma coordination_unscoped:
  assumes "controllers_ok (controllers p) (controller_future p)" and "complex adm" and "complex required" and "required \<subseteq> adm"
    and "analysed (families_of (controllers p)) adm (controller_future p) a"
  shows "\<exists>r. unscoped p adm required (physical a) r \<and>
    coordination_result p (Some adm) required (Some a) = scope_coordination_result (controller_future_coverage p) r"
proof -
  let ?L = "families_of (controllers p)" and ?\<Gamma> = "controller_future p"
  have phys: "physical a = physical_family ?L ?\<Gamma>" "fst ` set (witnesses a) = physical a" "\<forall>row\<in>set (witnesses a). witness_ok ?L ?\<Gamma> row"
    using assms(5) by (simp_all add: analysed_def)
  have "complex (?L x)" if "x \<in> support ?\<Gamma>" for x using assms(1) that by (auto simp: controllers_ok_def)
  then have fin: "finite (physical a)" "\<forall>c\<in>physical a. finite c" using physical_complex [OF controllers_okD(1) [OF assms(1)]] phys(1) by auto
  note A = complexD [OF assms(2)] and R = complexD [OF assms(3)]
  obtain gs where gs: "coordination_components adm = Inr gs" using components_groups [OF assms(2)] by blast
  let ?extra = "physical a - adm" and ?missing = "adm - physical a" and ?req = "required - physical a"
  let ?base = "coordination_base adm (physical a) gs"
  consider (exact) "?extra = {}" "?missing = {}" | (safe) "?extra = {}" "?missing \<noteq> {}" "?req = {}"
    | (missing) "?extra = {}" "?missing \<noteq> {}" "?req \<noteq> {}" | (extra) "?extra \<noteq> {}" using assms(4) by blast
  then show ?thesis
  proof cases
    case exact
    then have "physical a = adm" by blast
    then show ?thesis using assms(4)
      by (intro exI [of _ "?base\<lparr>co_status := ''exact'', required_covered := Some True, admitted_respected := Some True, exact_fidelity := Some True\<rparr>"])
        (simp add: coordination_result_def gs unscoped_def coordination_base_def)
  next
    case safe
    note hd = sorted_configs_hd [of ?missing, OF _ _ safe(2)]
    show ?thesis using safe A(1,2) hd
      by (intro exI [of _ "?base\<lparr>co_status := ''safe_restriction'', required_covered := Some True, admitted_respected := Some True,
                  exact_fidelity := Some False,
                  co_witness := Some (OptionalBehaviorRestricted (sorted_list_of_set (hd (sorted_configs ?missing))))\<rparr>"])
        (auto simp: coordination_result_def gs unscoped_def coordination_base_def Let_def)
  next
    case missing
    note hd = sorted_configs_hd [of ?req, OF _ _ missing(3)]
    show ?thesis using missing R(1,2) hd assms(4)
      by (intro exI [of _ "?base\<lparr>co_status := ''missing_required'', required_covered := Some False, admitted_respected := Some True,
                  exact_fidelity := Some False,
                  co_witness := Some (MissingRequiredBehavior (sorted_list_of_set (hd (sorted_configs ?req))))\<rparr>"])
        (auto simp: coordination_result_def gs unscoped_def coordination_base_def Let_def)
  next
    case extra
    let ?c = "hd (sorted_configs ?extra)"
    have c: "?c \<in> ?extra" using fin by (intro sorted_configs_hd(1) extra) auto
    then have "map_of (witnesses a) ?c \<noteq> None" using phys(2) by (simp add: map_of_eq_None_iff)
    then obtain w where w: "map_of (witnesses a) ?c = Some w" by blast
    then have "witness_ok ?L ?\<Gamma> (?c, w)" using phys(3) by (auto dest: map_of_SomeD)
    then obtain wit where wit: "extra_witness p adm ?c w = Inr wit" "witness_valid p adm ?c wit"
      using extra_witness_ok [OF assms(1,2)] fin(2) c by blast
    let ?r = "?base\<lparr>co_status := (if ?req \<noteq> {} then ''unsafe_and_incomplete'' else ''unsafe_overapprox''),
                  required_covered := Some (?req = {}), admitted_respected := Some False,
                  exact_fidelity := Some False, co_witness := Some wit\<rparr>"
    have "coordination_result p (Some adm) required (Some a) = scope_coordination_result (controller_future_coverage p) ?r"
      using extra w wit(1) by (simp add: coordination_result_def gs Let_def)
    moreover have "\<exists>c\<in>physical a - adm. witness_valid p adm c wit" using c wit(2) by blast
    then have "unscoped p adm required (physical a) ?r"
      using extra by (cases wit) (auto simp: unscoped_def coordination_base_def simp del: witness_valid.simps(1-3))
    ultimately show ?thesis by blast
  qed
qed

text \<open>What a reported witness, or its absence, says about the physical family.\<close>

definition explained :: "parsed_request \<Rightarrow> family \<Rightarrow> family \<Rightarrow> family \<Rightarrow> coordination_witness option \<Rightarrow> bool" where
  "explained p adm required phys wo \<longleftrightarrow>
     (case wo of None \<Rightarrow> required \<subseteq> phys \<and> phys \<subseteq> adm
      | Some (OptionalBehaviorRestricted c) \<Rightarrow> phys \<subset> adm \<and> required \<subseteq> phys \<and> set c \<in> adm - phys
      | Some (MissingRequiredBehavior c) \<Rightarrow> phys \<subset> adm \<and> set c \<in> required - phys
      | Some w \<Rightarrow> \<exists>c\<in>phys - adm. witness_valid p adm c w)"

lemma unscoped_explained: "unscoped p adm required phys r \<Longrightarrow> required \<subseteq> adm \<Longrightarrow> explained p adm required phys (co_witness r)"
  by (auto simp: unscoped_def explained_def split: option.splits coordination_witness.splits)

definition scoped_ok :: "parsed_request \<Rightarrow> family \<Rightarrow> family \<Rightarrow> family \<Rightarrow> coordination \<Rightarrow> bool" where
  "scoped_ok p adm required phys co \<longleftrightarrow>
     declared_required_covered co = Some (required \<subseteq> phys) \<and> admitted_respected co = Some (phys \<subseteq> adm) \<and>
     required_coverage_accepted co = Some (controller_future_coverage p \<noteq> ''sound_overapprox'' \<and> required \<subseteq> phys) \<and>
     (controller_future_coverage p = ''exact'' \<longrightarrow> exact_fidelity co = Some (phys = adm)) \<and>
     explained p adm required phys (co_witness co)"

lemma scope_ok:
  assumes "unscoped p adm required phys r" and "required \<subseteq> adm" and "controller_future_coverage p \<in> coverage_modes"
  shows "\<exists>co. scope_coordination_result (controller_future_coverage p) r = Inr co \<and> scoped_ok p adm required phys co"
proof -
  have r: "required_covered r = Some (required \<subseteq> phys)" "admitted_respected r = Some (phys \<subseteq> adm)" "exact_fidelity r = Some (phys = adm)"
    "co_status r = (if phys = adm then ''exact'' else if phys \<subseteq> adm \<and> required \<subseteq> phys then ''safe_restriction''
       else if phys \<subseteq> adm then ''missing_required'' else if required \<subseteq> phys then ''unsafe_overapprox'' else ''unsafe_and_incomplete'')"
    using assms(1) by (simp_all add: unscoped_def)
  have w: "explained p adm required phys (co_witness r)" by (rule unscoped_explained [OF assms(1,2)])
  have none: "required \<subseteq> phys \<Longrightarrow> phys \<subseteq> adm \<Longrightarrow> explained p adm required phys None" by (simp add: explained_def)
  have "co_status r \<noteq> ''not_applicable''" by (simp add: r(4))
  then show ?thesis
    using assms(2,3) r(1-3) w none
    by (cases "phys = adm"; cases "phys \<subseteq> adm"; cases "required \<subseteq> phys")
      (auto simp: scope_coordination_result_def scoped_ok_def coverage_modes_def Let_def r(4))
qed

lemma coordination_ok:
  assumes "controllers_ok (controllers p) (controller_future p)" and "complex adm" and "complex required" and "required \<subseteq> adm"
    and "analysed (families_of (controllers p)) adm (controller_future p) a" and "controller_future_coverage p \<in> coverage_modes"
  shows "\<exists>co. coordination_result p (Some adm) required (Some a) = Inr co \<and> scoped_ok p adm required (physical a) co"
  using coordination_unscoped [OF assms(1-5)] scope_ok [OF _ assms(4,6)] by metis

section \<open>Coordination of the admitted family\<close>

definition projection_errors :: "py_error set" where
  "projection_errors = {SchemaError ''exact_projection_through_r has r=0 but declares controllers'',
     SchemaError ''controller_future_maxima is not a projection through derived r''}"

definition physical_of :: "parsed_request \<Rightarrow> family" where
  "physical_of p = physical_family (families_of (controllers p)) (controller_future p)"

lemma coordinate_ok:
  assumes "controllers_ok (controllers p) (controller_future p)" and "complex adm" and "complex required" and "required \<subseteq> adm"
    and "controller_future_coverage p \<in> coverage_modes"
  shows "within (cap_errors \<union> projection_errors) (coordinate p required (Some adm))"
    "coordinate p required (Some adm) = Inr (co, arity, rep) \<Longrightarrow> scoped_ok p adm required (physical_of p) co \<and>
       arity = Some (required_coliveness_arity required adm (map fst (normalized_cells p))) \<and> rep \<noteq> None"
proof -
  let ?r = "required_coliveness_arity required adm (map fst (normalized_cells p))"
  let ?an = "controller_product_analysis (controllers p) (controller_future p) adm"
  have val: "within projection_errors (validate_exact_projection p ?r)"
    by (simp add: validate_exact_projection_def projection_errors_def)
  have rest: "\<exists>co rep. coordination_result p (Some adm) required (Some a) = Inr co \<and> scoped_ok p adm required (physical_of p) co \<and>
      coliveness_repair_of p required (safe_controller_future a) (safe_physical a) = Inr rep" if a: "?an = Inr a" for a
  proof -
    note an = analysis_ok [OF assms(1) a]
    have "complex (safe_controller_future a)" "physical a = physical_of p"
      using an complex_safe_future [OF assms(1) complexD(4) [OF assms(2)]] by (simp_all add: analysed_def physical_of_def)
    then show ?thesis
      using coordination_ok [OF assms(1-4) an assms(5)] repair_total [of "safe_controller_future a" p required "safe_physical a"] assms(5)
      by (simp add: coverage_modes_def is_ok_iff)
  qed
  show "within (cap_errors \<union> projection_errors) (coordinate p required (Some adm))"
  proof (cases "validate_exact_projection p ?r")
    case (Inr u)
    then show ?thesis using rest within_product [OF assms(1), of adm]
      by (cases ?an) (auto simp: coordinate_def Let_def)
  qed (use val in \<open>simp add: coordinate_def Let_def\<close>)
  show "scoped_ok p adm required (physical_of p) co \<and> arity = Some ?r \<and> rep \<noteq> None"
    if run: "coordinate p required (Some adm) = Inr (co, arity, rep)"
  proof -
    obtain u a where "validate_exact_projection p ?r = Inr u" "?an = Inr a"
      using run by (cases "validate_exact_projection p ?r"; cases ?an) (simp_all add: coordinate_def Let_def)
    then show ?thesis using run rest [of a] by (auto simp: coordinate_def Let_def)
  qed
qed

section \<open>Compilation\<close>

definition reasons_for :: "parsed_request \<Rightarrow> family \<Rightarrow> pruned option \<Rightarrow> bool" where
  "reasons_for p F w \<longleftrightarrow> (\<exists>x. w = Some x \<and> set (pruned_config x) \<in> F \<and> pruned_reasons x \<noteq> [] \<and>
     config_obstructions (authority p) (current_durable p) (set (pruned_config x)) (lineage_of p) = Inr (pruned_reasons x))"

text \<open>The verdict on a candidate family, by the families alone.\<close>

definition verdict ::
    "parsed_request \<Rightarrow> family \<Rightarrow> family \<Rightarrow> family \<Rightarrow> string \<Rightarrow> family option \<Rightarrow> pruned option \<Rightarrow> pruned option \<Rightarrow> bool" where
  "verdict p candidate required safe cls admitted pruning rejection \<longleftrightarrow>
     admitted = (if required \<subseteq> safe then Some safe else None) \<and>
     (if safe = candidate then cls \<in> {''Inherit'', ''ReadmitOK''} \<and> pruning = None \<and> rejection = None
      else if required \<subseteq> safe then cls = ''NeedsMechanism'' \<and> reasons_for p (candidate - safe) pruning \<and> rejection = None
      else cls = ''Reject'' \<and> pruning = None \<and> reasons_for p (required - safe) rejection)"

lemma reasons_hd:
  assumes "finite F" and "\<forall>c\<in>F. finite c" and "F \<noteq> {}" and "F \<subseteq> fst ` set obs"
    and "\<forall>(c, reasons)\<in>set obs. reasons \<noteq> [] \<and> config_obstructions (authority p) (current_durable p) c (lineage_of p) = Inr reasons"
  obtains reasons where "dict_get obs (hd (sorted_configs F)) = Inr reasons"
    "reasons_for p F (Some \<lparr>pruned_kind = k, pruned_config = sorted_list_of_set (hd (sorted_configs F)), pruned_reasons = reasons\<rparr>)"
proof -
  note hd = sorted_configs_hd [OF assms(1-3)]
  have "map_of obs (hd (sorted_configs F)) \<noteq> None" using hd(1) assms(4) by (auto simp: map_of_eq_None_iff)
  then obtain reasons where r: "map_of obs (hd (sorted_configs F)) = Some reasons" by blast
  then have "reasons \<noteq> [] \<and> config_obstructions (authority p) (current_durable p) (hd (sorted_configs F)) (lineage_of p) = Inr reasons"
    using assms(5) by (auto dest: map_of_SomeD)
  then show thesis using hd r by (intro that [of reasons]) (simp_all add: reasons_for_def)
qed

lemma classify_ok:
  assumes "complex candidate" and "complex required" and "required \<subseteq> candidate" and "safe \<subseteq> candidate"
    and "can_inherit \<longrightarrow> safe = candidate" and "fst ` set obs = candidate - safe"
    and "\<forall>(c, reasons)\<in>set obs. reasons \<noteq> [] \<and> config_obstructions (authority p) (current_durable p) c (lineage_of p) = Inr reasons"
  shows "\<exists>cls admitted name pruning rejection. classify can_inherit candidate required safe obs = Inr (cls, admitted, name, pruning, rejection) \<and>
    verdict p candidate required safe cls admitted pruning rejection \<and> (cls = ''Inherit'' \<longleftrightarrow> can_inherit)"
proof -
  consider (same) "safe = candidate" | (prune) "safe \<noteq> candidate" "required \<subseteq> safe" | (reject) "safe \<noteq> candidate" "\<not> required \<subseteq> safe" by blast
  then show ?thesis
  proof cases
    case same
    then show ?thesis using assms(3) by (cases can_inherit) (auto simp: classify_def verdict_def)
  next
    case prune
    have F: "finite (candidate - safe)" "\<forall>c\<in>candidate - safe. finite c" "candidate - safe \<noteq> {}" "candidate - safe \<subseteq> fst ` set obs"
      using complexD(1,2) [OF assms(1)] assms(4,6) prune(1) by auto
    obtain reasons where "dict_get obs (hd (sorted_configs (candidate - safe))) = Inr reasons"
      "reasons_for p (candidate - safe) (Some \<lparr>pruned_kind = ''OptionalConfigurationPruned'',
         pruned_config = sorted_list_of_set (hd (sorted_configs (candidate - safe))), pruned_reasons = reasons\<rparr>)"
      by (rule reasons_hd [OF F assms(7)])
    then show ?thesis using prune assms(5) by (simp add: classify_def verdict_def Let_def)
  next
    case reject
    have F: "finite (required - safe)" "\<forall>c\<in>required - safe. finite c" "required - safe \<noteq> {}" "required - safe \<subseteq> fst ` set obs"
      using complexD(1,2) [OF assms(2)] assms(3,6) reject(2) by auto
    obtain reasons where "dict_get obs (hd (sorted_configs (required - safe))) = Inr reasons"
      "reasons_for p (required - safe) (Some \<lparr>pruned_kind = ''RequiredConfigurationRejected'',
         pruned_config = sorted_list_of_set (hd (sorted_configs (required - safe))), pruned_reasons = reasons\<rparr>)"
      by (rule reasons_hd [OF F assms(7)])
    then show ?thesis using reject assms(5) by (simp add: classify_def verdict_def Let_def)
  qed
qed

definition safe_of :: "parsed_request \<Rightarrow> family \<Rightarrow> family" where
  "safe_of p candidate = {c \<in> candidate. unobstructed (authority p) (current_durable p) (atom_of (lineage_of p)) c}"

text \<open>The semantic half of a compilation: everything before the controllers are looked at.\<close>

lemma semantic_ok:
  assumes "envelope_ok p" and "complex candidate" and "support candidate \<subseteq> cells_of p" and "complex required" and "required \<subseteq> candidate"
  shows "\<exists>obs b inh cls admitted name pruning rejection.
    safe_future (authority p) (current_durable p) candidate (lineage_of p) = Inr (safe_of p candidate, obs) \<and>
    inheritance_of p candidate = Inr (b, inh) \<and>
    classify b candidate required (safe_of p candidate) obs = Inr (cls, admitted, name, pruning, rejection) \<and>
    verdict p candidate required (safe_of p candidate) cls admitted pruning rejection \<and>
    (cls = ''Inherit'' \<longrightarrow> current_durable p = source_durable p \<and> source_version p \<le> target_version p)"
proof -
  have "support candidate \<subseteq> fst ` set (lineage_of p)" using assms(3) by (simp add: lineage_of_def cells_of_def image_image split_def)
  from safe_future_ok [OF assms(2) this, of "authority p" "current_durable p"] obtain obs where obs:
    "safe_future (authority p) (current_durable p) candidate (lineage_of p) = Inr (safe_of p candidate, obs)"
    "fst ` set obs = candidate - safe_of p candidate"
    "\<forall>(c, reasons)\<in>set obs. reasons \<noteq> [] \<and> config_obstructions (authority p) (current_durable p) c (lineage_of p) = Inr reasons"
    unfolding safe_of_def by blast
  obtain b inh where inh: "inheritance_of p candidate = Inr (b, inh)" "b \<longrightarrow> current_durable p = source_durable p \<and> source_version p \<le> target_version p"
    "b \<longrightarrow> (\<forall>c\<in>candidate. unobstructed (authority p) (current_durable p) (atom_of (lineage_of p)) c)"
    using inheritance_ok [OF assms(1-3)] by blast
  have all: "b \<longrightarrow> safe_of p candidate = candidate" using inh(3) unfolding safe_of_def by blast
  have "safe_of p candidate \<subseteq> candidate" by (auto simp: safe_of_def)
  from classify_ok [OF assms(2,4,5) this all obs(2,3)] show ?thesis using obs(1) inh(1,2) by blast
qed

text \<open>The parts of a compilation that returns.\<close>

definition compiled_from ::
    "parsed_request \<Rightarrow> family \<Rightarrow> family \<Rightarrow> compile_result \<Rightarrow> bool" where
  "compiled_from p candidate required r \<longleftrightarrow> candidate_family r = candidate \<and> required_family r = required \<and>
     safe_family r = safe_of p candidate \<and>
     verdict p candidate required (safe_of p candidate) (semantic_class r) (admitted_family r) (pruning_witness r) (rejection_witness r) \<and>
     (semantic_class r = ''Inherit'' \<longrightarrow> current_durable p = source_durable p \<and> source_version p \<le> target_version p) \<and>
     coordinate p required (admitted_family r) = Inr (res_coordination r, coliveness_arity r, res_repair r) \<and>
     readiness r = readiness_of (semantic_class r) (controller_future_coverage p) (res_coordination r) \<and>
     structurally_eligible r = (semantic_class r \<noteq> ''Reject'' \<and> coordination_ready (controller_future_coverage p) (res_coordination r))"

lemma complex_safe_of: "envelope_ok p \<Longrightarrow> complex candidate \<Longrightarrow> complex (safe_of p candidate)"
  unfolding safe_of_def by (rule complex_safe) (simp_all add: envelope_ok_def)

lemma coordinate_rejected: "controller_future_coverage p \<in> coverage_modes \<Longrightarrow> is_ok (coordinate p required None)"
  by (auto simp: coordinate_def coordination_result_def scope_coordination_result_def)

lemma compile_families:
  assumes "request_ok p" and "derive_operator_family p False = Inr candidate" and "derive_operator_family p True = Inr required"
  shows "(\<exists>e\<in>cap_errors \<union> projection_errors. compile_parsed p = Inl e) \<or>
    (\<exists>r. compile_parsed p = Inr r \<and> compiled_from p candidate required r)"
proof -
  have ok: "roles_ok p" "envelope_ok p" "controllers_ok (controllers p) (controller_future p)" "controller_future_coverage p \<in> coverage_modes"
    using assms(1) by (simp_all add: request_ok_def)
  note fam = derive_families(2) [OF ok(1) assms(2)] derive_families(2) [OF ok(1) assms(3)]
  have sub: "required \<subseteq> candidate" by (rule derive_families(3) [OF ok(1) assms(2,3)])
  obtain obs b inh cls admitted name pruning rejection where sem:
    "safe_future (authority p) (current_durable p) candidate (lineage_of p) = Inr (safe_of p candidate, obs)"
    "inheritance_of p candidate = Inr (b, inh)"
    "classify b candidate required (safe_of p candidate) obs = Inr (cls, admitted, name, pruning, rejection)"
    "verdict p candidate required (safe_of p candidate) cls admitted pruning rejection"
    "cls = ''Inherit'' \<longrightarrow> current_durable p = source_durable p \<and> source_version p \<le> target_version p"
    using semantic_ok [OF ok(2) _ _ _ sub] fam by blast
  have adm: "admitted = (if required \<subseteq> safe_of p candidate then Some (safe_of p candidate) else None)"
    using sem(4) by (simp add: verdict_def)
  have co: "within (cap_errors \<union> projection_errors) (coordinate p required admitted)"
  proof (cases "required \<subseteq> safe_of p candidate")
    case True
    then show ?thesis using coordinate_ok(1) [OF ok(3) complex_safe_of [OF ok(2)] _ True ok(4)] fam adm by simp
  next
    case False
    then show ?thesis using coordinate_rejected [OF ok(4), of required] adm by (auto simp: is_ok_iff)
  qed
  have run: "compile_parsed p = bind_r (coordinate p required admitted) (\<lambda>(co, arity, rep).
       Inr \<lparr>res_request = p, candidate_family = candidate, required_family = required, safe_family = safe_of p candidate,
            semantic_class = cls, family_name = name, admitted_family = admitted, res_inheritance = inh,
            pruning_witness = pruning, rejection_witness = rejection, res_coordination = co, coliveness_arity = arity,
            res_repair = rep,
            restriction = (if cls = ''NeedsMechanism'' \<and> declared_required_covered co = Some True \<and> admitted_respected co = Some True
              then ''manifest_supplied'' else if cls = ''NeedsMechanism'' then ''required'' else ''not_required''),
            readiness = readiness_of cls (controller_future_coverage p) co,
            structurally_eligible = (cls \<noteq> ''Reject'' \<and> coordination_ready (controller_future_coverage p) co),
            external_obligations = obligations_of cls (controller_future_coverage p) (lease_results p cls), res_leases = lease_results p cls\<rparr>)"
    using assms(2,3) sub sem(1-3) by (simp add: compile_parsed_def Let_def lineage_of_def [symmetric])
  show ?thesis
  proof (cases "coordinate p required admitted")
    case (Inl e)
    then show ?thesis using co run by auto
  next
    case (Inr out)
    obtain co arity rep where "out = (co, arity, rep)" by (cases out)
    then show ?thesis using Inr run sem(4,5) by (simp add: compiled_from_def)
  qed
qed

lemma compile_cases:
  assumes "request_ok p"
  shows "(\<exists>e\<in>tensor_cap \<union> cap_errors \<union> projection_errors. compile_parsed p = Inl e) \<or>
    (\<exists>r candidate required. compile_parsed p = Inr r \<and> derive_operator_family p False = Inr candidate \<and>
       derive_operator_family p True = Inr required \<and> compiled_from p candidate required r)"
proof -
  have ok: "roles_ok p" using assms by (simp add: request_ok_def)
  show ?thesis
  proof (cases "derive_operator_family p False")
    case (Inl e)
    then have "compile_parsed p = Inl e" by (simp add: compile_parsed_def)
    then show ?thesis using derive_families(1) [OF ok, of False] Inl by simp
  next
    case may: (Inr candidate)
    show ?thesis
    proof (cases "derive_operator_family p True")
      case (Inl e)
      then have "compile_parsed p = Inl e" using may by (simp add: compile_parsed_def)
      then show ?thesis using derive_families(1) [OF ok, of True] Inl by simp
    next
      case (Inr required)
      then show ?thesis using compile_families [OF assms may Inr] may by blast
    qed
  qed
qed

lemma compile_returns:
  assumes "request_ok p" and "compile_parsed p = Inr r"
  obtains candidate required where "derive_operator_family p False = Inr candidate" "derive_operator_family p True = Inr required"
    "complex candidate" "complex required" "required \<subseteq> candidate" "compiled_from p candidate required r"
proof -
  have ok: "roles_ok p" using assms(1) by (simp add: request_ok_def)
  obtain candidate required where c: "derive_operator_family p False = Inr candidate" "derive_operator_family p True = Inr required"
    "compiled_from p candidate required r" using compile_cases [OF assms(1)] assms(2) by auto
  note fam = derive_families(2) [OF ok c(1)] derive_families(2) [OF ok c(2)]
  show thesis by (rule that [OF c(1,2) fam(1) [THEN conjunct1] fam(2) [THEN conjunct1] derive_families(3) [OF ok c(1,2)] c(3)])
qed

lemma verdict_rejects: "verdict p candidate required safe cls admitted pruning rejection \<Longrightarrow> required \<subseteq> candidate \<Longrightarrow>
    (cls = ''Reject'' \<longleftrightarrow> \<not> required \<subseteq> safe) \<and> (cls = ''NeedsMechanism'' \<longleftrightarrow> required \<subseteq> safe \<and> safe \<noteq> candidate)"
  by (auto simp: verdict_def split: if_splits)

text \<open>
  C7. The semantic verdict. On a well-formed request the compilation returns a result or one of the
  documented cap and projection errors, never an internal error, a missing key or a failed
  assertion. In a result the candidate and the required family are complexes, the first containing
  the second; the safe family is exactly the candidates that no obstruction of the authority, of
  durable effects or of double use of an atom excludes, and again a complex; it is admitted exactly
  when it contains the required family. The class is decided by these families: Reject when a
  required configuration is unsafe, NeedsMechanism when only optional ones are, otherwise Inherit or
  ReadmitOK with the whole candidate admitted; Inherit is only given when the durable effects are those
  of the source envelope and the version does not go back. Each reported witness is an excluded
  configuration with its own, nonempty, list of obstructions.
\<close>

theorem compile_verdict:
  assumes "request_ok p"
  shows "within (tensor_cap \<union> cap_errors \<union> projection_errors) (compile_parsed p) \<and>
    (\<forall>r. compile_parsed p = Inr r \<longrightarrow>
      complex (candidate_family r) \<and> complex (required_family r) \<and> required_family r \<subseteq> candidate_family r \<and>
      complex (safe_family r) \<and> safe_family r = safe_of p (candidate_family r) \<and>
      verdict p (candidate_family r) (required_family r) (safe_family r) (semantic_class r) (admitted_family r)
        (pruning_witness r) (rejection_witness r) \<and>
      (semantic_class r = ''Inherit'' \<longrightarrow> current_durable p = source_durable p \<and> source_version p \<le> target_version p))"
proof (intro conjI allI impI)
  show "within (tensor_cap \<union> cap_errors \<union> projection_errors) (compile_parsed p)" using compile_cases [OF assms] by auto
  fix r assume "compile_parsed p = Inr r"
  then obtain candidate required where c: "complex candidate" "complex required" "required \<subseteq> candidate" "compiled_from p candidate required r"
    by (rule compile_returns [OF assms])
  have env: "envelope_ok p" using assms by (simp add: request_ok_def)
  show "complex (candidate_family r)" "complex (required_family r)" "required_family r \<subseteq> candidate_family r"
    "safe_family r = safe_of p (candidate_family r)" "complex (safe_family r)"
    "verdict p (candidate_family r) (required_family r) (safe_family r) (semantic_class r) (admitted_family r) (pruning_witness r) (rejection_witness r)"
    using c complex_safe_of [OF env c(1)] by (simp_all add: compiled_from_def)
  assume "semantic_class r = ''Inherit''"
  then show "current_durable p = source_durable p" "source_version p \<le> target_version p" using c(4) by (simp_all add: compiled_from_def)
qed

section \<open>Readiness\<close>

lemma readiness_scoped:
  assumes "scoped_ok p adm required phys co" and "controller_future_coverage p \<in> coverage_modes"
  shows "coordination_ready (controller_future_coverage p) co \<longleftrightarrow>
      controller_future_coverage p \<noteq> ''sound_overapprox'' \<and> required \<subseteq> phys \<and> phys \<subseteq> adm"
  using assms by (auto simp: scoped_ok_def coordination_ready_def coverage_modes_def)

lemma compiled_coordination:
  assumes "request_ok p" and "complex candidate" and "complex required" and "compiled_from p candidate required r"
    and "admitted_family r = Some adm"
  shows "scoped_ok p adm required (physical_of p) (res_coordination r) \<and> complex adm \<and> required \<subseteq> adm \<and>
    coliveness_arity r = Some (required_coliveness_arity required adm (map fst (normalized_cells p)))"
proof -
  have ok: "envelope_ok p" "controllers_ok (controllers p) (controller_future p)" "controller_future_coverage p \<in> coverage_modes"
    using assms(1) by (simp_all add: request_ok_def)
  have adm: "adm = safe_of p candidate" "required \<subseteq> adm"
    using assms(4,5) by (auto simp: compiled_from_def verdict_def split: if_splits)
  have cx: "complex adm" unfolding adm(1) by (rule complex_safe_of [OF ok(1) assms(2)])
  have "coordinate p required (Some adm) = Inr (res_coordination r, coliveness_arity r, res_repair r)"
    using assms(4,5) by (simp add: compiled_from_def)
  from coordinate_ok(2) [OF ok(2) cx assms(3) adm(2) ok(3) this] show ?thesis using cx adm(2) by simp
qed

text \<open>
  C4. Deployment readiness. In a compilation of a well-formed request the structural eligibility
  holds exactly when a family is admitted, the declared co-liveness is exact or an exact projection,
  and the physical family of the declared controllers lies between the required and the admitted
  family. The readiness says so: Ready and ReadyWithRestriction are the eligible cases, without and
  with a pruned candidate, NotApplicable is rejection, and an upper bound alone is never ready. The
  coordination witness is sound: there is none only if the physical family is in between, and a
  reported one is a configuration that is missing or restricted, or that the named controllers really
  can produce against the admitted family.
\<close>

theorem readiness_is_sandwich:
  assumes "request_ok p" and "compile_parsed p = Inr r"
  shows "(structurally_eligible r \<longleftrightarrow> (\<exists>adm. admitted_family r = Some adm \<and> controller_future_coverage p \<noteq> ''sound_overapprox'' \<and>
      required_family r \<subseteq> physical_of p \<and> physical_of p \<subseteq> adm)) \<and>
    (structurally_eligible r \<longleftrightarrow> readiness r \<in> {''Ready'', ''ReadyWithRestriction''}) \<and>
    (readiness r = ''ReadyWithRestriction'' \<longrightarrow> semantic_class r = ''NeedsMechanism'') \<and>
    (readiness r = ''NotApplicable'' \<longleftrightarrow> admitted_family r = None) \<and>
    (\<forall>adm. admitted_family r = Some adm \<longrightarrow> explained p adm (required_family r) (physical_of p) (co_witness (res_coordination r)))"
proof -
  obtain candidate required where c: "complex candidate" "complex required" "required \<subseteq> candidate" "compiled_from p candidate required r"
    by (rule compile_returns [OF assms])
  have cov: "controller_future_coverage p \<in> coverage_modes" using assms(1) by (simp add: request_ok_def)
  have r: "required_family r = required" "readiness r = readiness_of (semantic_class r) (controller_future_coverage p) (res_coordination r)"
    "structurally_eligible r = (semantic_class r \<noteq> ''Reject'' \<and> coordination_ready (controller_future_coverage p) (res_coordination r))"
    "verdict p candidate required (safe_of p candidate) (semantic_class r) (admitted_family r) (pruning_witness r) (rejection_witness r)"
    using c(4) by (simp_all add: compiled_from_def)
  have adm: "admitted_family r = None \<longleftrightarrow> semantic_class r = ''Reject''" using verdict_rejects [OF r(4) c(3)] r(4) by (auto simp: verdict_def)
  show ?thesis
  proof (cases "admitted_family r")
    case None
    then show ?thesis using adm r(2,3) by (simp add: readiness_of_def)
  next
    case (Some adm')
    have s: "scoped_ok p adm' required (physical_of p) (res_coordination r)" using compiled_coordination [OF assms(1) c(1,2,4) Some] by blast
    note ready = readiness_scoped [OF s cov]
    have "semantic_class r \<noteq> ''Reject''" using adm Some by simp
    moreover have "explained p adm' required (physical_of p) (co_witness (res_coordination r))" using s by (simp add: scoped_ok_def)
    ultimately show ?thesis using Some r(1-3) ready by (auto simp: readiness_of_def Let_def)
  qed
qed

text \<open>
  C13. Deciding readiness from a projection. Take a well-formed request whose co-liveness is declared
  as an exact projection through the derived arity of a full co-liveness family, itself a complex over
  the declared controllers. Then the compilation finds the request eligible exactly when the
  controllers under the full family cover the required and respect the admitted family.
\<close>

theorem projection_readiness:
  assumes "request_ok p" and "compile_parsed p = Inr r" and "admitted_family r = Some adm" and "coliveness_arity r = Some k"
    and "complex full" and "support full \<subseteq> fst ` set (controllers p)" and "controller_future p = {C \<in> full. card C \<le> k}"
    and "controller_future_coverage p = ''exact_projection_through_r''"
  shows "structurally_eligible r \<longleftrightarrow>
    required_family r \<subseteq> physical_family (families_of (controllers p)) full \<and> physical_family (families_of (controllers p)) full \<subseteq> adm"
proof -
  obtain candidate required where c: "complex candidate" "complex required" "required \<subseteq> candidate" "compiled_from p candidate required r"
    by (rule compile_returns [OF assms(1,2)])
  have cov: "controller_future_coverage p \<in> coverage_modes" using assms(1) by (simp add: request_ok_def)
  note s = compiled_coordination [OF assms(1) c(1,2,4) assms(3)]
  have r: "required_family r = required" "structurally_eligible r = (semantic_class r \<noteq> ''Reject'' \<and>
      coordination_ready (controller_future_coverage p) (res_coordination r))"
    and v: "verdict p candidate required (safe_of p candidate) (semantic_class r) (admitted_family r) (pruning_witness r) (rejection_witness r)"
    using c(4) by (simp_all add: compiled_from_def)
  have accepted: "semantic_class r \<noteq> ''Reject''" using verdict_rejects [OF v c(3)] v assms(3) by (auto simp: verdict_def split: if_splits)
  have k: "k = required_coliveness_arity required adm (map fst (normalized_cells p))" using s assms(4) by simp
  have fam: "complex (families_of (controllers p) a)" "support (families_of (controllers p) a) \<subseteq> set (map fst (normalized_cells p))"
    if "a \<in> support full" for a
  proof -
    have "a \<in> fst ` set (controllers p)" using assms(6) that by blast
    then show "complex (families_of (controllers p) a)" "support (families_of (controllers p) a) \<subseteq> set (map fst (normalized_cells p))"
      using assms(1) unfolding request_ok_def controllers_ok_def cells_of_def set_map by blast+
  qed
  have "structurally_eligible r \<longleftrightarrow> required \<subseteq> physical_of p \<and> physical_of p \<subseteq> adm"
    using r(2) accepted readiness_scoped [OF s [THEN conjunct1] cov] assms(8) by simp
  then show ?thesis
    using arity_enough [OF assms(5) fam(1) _ c(2) fam(2) k] s r(1) by (simp add: physical_of_def assms(7))
qed

end
