(* ===== verification/AdmissionExamples.thy ===== *)
theory AdmissionExamples
  imports Compilation
begin

text \<open>
  A small request for the history admission compiler: a parallel fork into two arms with one cell
  each, one controller per cell, both free to be live at once. The properties of the compilation are
  applied to it, and its results are computed.
\<close>

section \<open>The request\<close>

definition sample_cell :: "string \<Rightarrow> string \<Rightarrow> normalized_cell" where
  "sample_cell i a = \<lparr>norm_id = i, norm_atom = a, norm_key = ''k'', norm_effect = ''e'', norm_anchor = i,
     norm_parent = Some ''s'', parent_candidates = [''s''], has_unparented = False, norm_lease = None,
     lease_candidates = [], has_unleased = True, norm_occurrences = []\<rparr>"

definition sample_controller :: "string \<Rightarrow> string \<Rightarrow> controller" where
  "sample_controller i c = \<lparr>ctl_anchor = i, gate_origin = ''g'', ctl_version = 1, local_family = Pow {c}, gate_use_ids = [i]\<rparr>"

definition sample_request :: "family \<Rightarrow> string \<Rightarrow> parsed_request" where
  "sample_request future coverage = \<lparr>raw_request = [], request_id = ''q'', authority_id = ''auth'', atoms = [''a'', ''b''],
     authority = Pow {''a'', ''b''}, source_version = 1,
     source_cells = [(''s'', \<lparr>source_id = ''s'', source_atom = ''a'', source_anchor = ''s''\<rparr>)],
     source_future = Pow {''s''}, source_receipts = [], current_receipts = [], source_durable = {}, current_durable = {},
     source_leases = [], operator_kind = ''ForkParallel'', target_version = 2, role_coverage = [(''left'', ''exact''), (''right'', ''exact'')],
     role_may = [(''left'', Pow {''x''}), (''right'', Pow {''y''})], role_required = [(''left'', Pow {''x''}), (''right'', Pow {})],
     normalized_cells = [(''x'', sample_cell ''x'' ''a''), (''y'', sample_cell ''y'' ''b'')], occurrence_to_cell = [], alias_groups = [],
     controllers = [(''u'', sample_controller ''u'' ''x''), (''v'', sample_controller ''v'' ''y'')],
     controller_future = future, controller_future_coverage = coverage\<rparr>"

lemma complex_Pow: "finite X \<Longrightarrow> complex (Pow X)"
  by (auto simp: complex_def intro: finite_subset)

lemma support_Pow: "support (Pow X) = X"
  by (auto simp: support_def)

lemma complex_two: "complex {{}, {x}, {y}}"
  by (auto simp: complex_def subset_singleton_iff)

lemma sample_families: "families_of (controllers (sample_request future coverage)) ''u'' = Pow {''x''}"
    "families_of (controllers (sample_request future coverage)) ''v'' = Pow {''y''}"
  by (simp_all add: families_of_def sample_request_def sample_controller_def)

lemma sample_controllers_ok:
  assumes "complex future" and "support future \<subseteq> {''u'', ''v''}"
  shows "controllers_ok (controllers (sample_request future coverage)) (controller_future (sample_request future coverage))"
proof -
  have "fst ` set (controllers (sample_request future coverage)) = {''u'', ''v''}" "controller_future (sample_request future coverage) = future"
    by (simp_all add: sample_request_def)
  then show ?thesis using assms by (simp add: controllers_ok_def sample_families complex_Pow)
qed

lemma sample_roles_ok: "roles_ok (sample_request future coverage)"
  using complex_Pow [of "{} :: string set"]
  by (simp add: roles_ok_def sample_request_def operator_roles_def cells_of_def complex_Pow support_Pow)

lemma sample_envelope_ok: "envelope_ok (sample_request future coverage)"
proof -
  have "unobstructed (Pow {''a'', ''b''}) {} (atom_of (source_lineage (sample_request future coverage))) c" if "c \<subseteq> {''s''}" for c
    using that by (auto simp: subset_singleton_iff unobstructed_def atom_of_def source_lineage_def sample_request_def)
  then show ?thesis unfolding envelope_ok_def
    by (simp add: sample_request_def sample_cell_def complex_Pow support_Pow)
qed

lemma sample_request_ok:
  assumes "complex future" and "support future \<subseteq> {''u'', ''v''}" and "coverage \<in> coverage_modes"
  shows "request_ok (sample_request future coverage)"
proof -
  have "fst ` set (controllers (sample_request future coverage)) = {''u'', ''v''}" "cells_of (sample_request future coverage) = {''x'', ''y''}"
      "controller_future_coverage (sample_request future coverage) = coverage"
    by (simp_all add: sample_request_def cells_of_def)
  then show ?thesis
    using assms(3) sample_controllers_ok [OF assms(1,2)] sample_roles_ok sample_envelope_ok
    by (simp add: request_ok_def sample_families support_Pow)
qed

lemmas sample_ok = sample_request_ok [OF complex_Pow, of "{''u'', ''v''}", unfolded support_Pow]

section \<open>The properties at the request\<close>

theorem coliveness_repair_greatest_witness:
  "within cap_errors (controller_product_analysis (controllers (sample_request (Pow {''u'', ''v''}) ''exact''))
     (controller_future (sample_request (Pow {''u'', ''v''}) ''exact'')) {{}, {''x''}, {''y''}}) \<and>
   is_ok (controller_product_analysis (controllers (sample_request (Pow {''u'', ''v''}) ''exact''))
     (controller_future (sample_request (Pow {''u'', ''v''}) ''exact'')) {{}, {''x''}, {''y''}})"
proof
  have "controllers_ok (controllers (sample_request (Pow {''u'', ''v''}) ''exact'')) (controller_future (sample_request (Pow {''u'', ''v''}) ''exact''))"
    by (rule sample_controllers_ok) (simp_all add: complex_Pow support_Pow)
  then show "within cap_errors (controller_product_analysis (controllers (sample_request (Pow {''u'', ''v''}) ''exact''))
     (controller_future (sample_request (Pow {''u'', ''v''}) ''exact'')) {{}, {''x''}, {''y''}})"
    using coliveness_repair_greatest [of "sample_request (Pow {''u'', ''v''}) ''exact''" "{{}, {''x''}, {''y''}}" "{{}}"]
    by (simp add: sample_request_def)
  show "is_ok (controller_product_analysis (controllers (sample_request (Pow {''u'', ''v''}) ''exact''))
     (controller_future (sample_request (Pow {''u'', ''v''}) ''exact'')) {{}, {''x''}, {''y''}})" by code_simp
qed

theorem coordination_components_classes_witness:
  "\<exists>gs. coordination_components {{}, {''x''}, {''y''}} = Inr gs \<and>
     set ` set gs = {(linked {{}, {''x''}, {''y''}})\<^sup>* `` {c} |c. c \<in> support {{}, {''x''}, {''y''}}}"
proof -
  obtain gs where "coordination_components {{}, {''x''}, {''y''}} = Inr gs"
    "set ` set gs = {(linked {{}, {''x''}, {''y''}})\<^sup>* `` {c} |c. c \<in> support {{}, {''x''}, {''y''}}}"
    using coordination_components_classes [OF complex_two [of "''x''" "''y''"]] by (elim exE conjE)
  then show ?thesis by (intro exI conjI)
qed

theorem compile_verdict_witness:
  "\<exists>r. compile_parsed (sample_request (Pow {''u'', ''v''}) ''exact'') = Inr r \<and>
      verdict (sample_request (Pow {''u'', ''v''}) ''exact'') (candidate_family r) (required_family r) (safe_family r)
        (semantic_class r) (admitted_family r) (pruning_witness r) (rejection_witness r)"
proof -
  have "is_ok (compile_parsed (sample_request (Pow {''u'', ''v''}) ''exact''))" by code_simp
  then obtain r where r: "compile_parsed (sample_request (Pow {''u'', ''v''}) ''exact'') = Inr r" by (auto simp: is_ok_iff)
  have "request_ok (sample_request (Pow {''u'', ''v''}) ''exact'')" by (rule sample_ok) (simp_all add: coverage_modes_def)
  from compile_verdict [OF this] r show ?thesis by blast
qed

theorem readiness_is_sandwich_witness:
  "\<exists>r. compile_parsed (sample_request (Pow {''u'', ''v''}) ''exact'') = Inr r \<and> readiness r = ''Ready'' \<and> structurally_eligible r \<and>
     (\<exists>adm. admitted_family r = Some adm \<and> required_family r \<subseteq> physical_of (sample_request (Pow {''u'', ''v''}) ''exact'') \<and>
       physical_of (sample_request (Pow {''u'', ''v''}) ''exact'') \<subseteq> adm)"
proof -
  have "is_ok (compile_parsed (sample_request (Pow {''u'', ''v''}) ''exact''))" by code_simp
  then obtain r where r: "compile_parsed (sample_request (Pow {''u'', ''v''}) ''exact'') = Inr r" by (auto simp: is_ok_iff)
  have "bind_r (compile_parsed (sample_request (Pow {''u'', ''v''}) ''exact'')) (\<lambda>r. Inr (readiness r)) = Inr ''Ready''" by code_simp
  then have ready: "readiness r = ''Ready''" by (simp add: r)
  have "request_ok (sample_request (Pow {''u'', ''v''}) ''exact'')" by (rule sample_ok) (simp_all add: coverage_modes_def)
  from readiness_is_sandwich [OF this r] ready r show ?thesis by auto
qed

theorem projection_readiness_witness:
  "\<exists>r adm. compile_parsed (sample_request {{}, {''u''}, {''v''}} ''exact_projection_through_r'') = Inr r \<and> admitted_family r = Some adm \<and>
     structurally_eligible r \<and> physical_family (families_of (controllers (sample_request {{}, {''u''}, {''v''}} ''exact_projection_through_r''))) (Pow {''u'', ''v''}) \<subseteq> adm"
proof -
  let ?p = "sample_request {{}, {''u''}, {''v''}} ''exact_projection_through_r''"
  have run: "bind_r (compile_parsed ?p) (\<lambda>r. Inr (admitted_family r \<noteq> None \<and> coliveness_arity r = Some 1 \<and> structurally_eligible r)) = Inr True" by code_simp
  then have "is_ok (compile_parsed ?p)" by (cases "compile_parsed ?p") simp_all
  then obtain r where r: "compile_parsed ?p = Inr r" by (auto simp: is_ok_iff)
  obtain adm where adm: "admitted_family r = Some adm" "coliveness_arity r = Some 1" "structurally_eligible r" using run by (auto simp: r)
  have "{C \<in> Pow {''u'', ''v''}. card C \<le> 1} = {{}, {''u''}, {''v''}}" by code_simp
  then have fut: "controller_future ?p = {C \<in> Pow {''u'', ''v''}. card C \<le> 1}" by (simp add: sample_request_def)
  have "request_ok ?p" by (rule sample_request_ok [OF complex_two]) (auto simp: support_def coverage_modes_def)
  from projection_readiness [OF this r adm(1,2) complex_Pow _ fut] r adm(1,3) show ?thesis
    by (auto simp: support_Pow sample_request_def)
qed

end
