(* ===== verification/Normalize.thy ===== *)
theory Normalize
  imports Requests
begin

text \<open>
  The normalization of the occurrences of an operation, \<open>_normalize_occurrences\<close> of
  \<open>artifact/history_admission/compiler.py\<close>: the alias groups, the check that every stable cell
  anchor is covered by one alias, and the normalized cells. Strings are UTF-8 byte strings, so
  \<open>urllib.parse.quote\<close> with no safe characters works on them byte by byte.
\<close>

definition max_target_cells :: nat where "max_target_cells = 12"

text \<open>A field read with an expected shape.\<close>

definition field :: "(json \<Rightarrow> 'a result) \<Rightarrow> (string \<times> json) list \<Rightarrow> string \<Rightarrow> 'a result" where
  "field expect obj k = bind_r (dict_get obj k) expect"

section \<open>Occurrence keys\<close>

definition unreserved :: "char \<Rightarrow> bool" where
  "unreserved c \<longleftrightarrow> (let n = (of_char c :: nat) in
     48 \<le> n \<and> n \<le> 57 \<or> 65 \<le> n \<and> n \<le> 90 \<or> 97 \<le> n \<and> n \<le> 122 \<or> n \<in> {45, 46, 95, 126})"

definition upper_hex :: "nat \<Rightarrow> char" where
  "upper_hex d = (if d < 10 then char_of (48 + d) else char_of (55 + d))"

definition url_quote :: "string \<Rightarrow> string" where
  "url_quote s = concat (map (\<lambda>c. if unreserved c then [c]
     else [CHR ''%'', upper_hex (of_char c div 16), upper_hex (of_char c mod 16)]) s)"

definition occurrence_key :: "occurrence_ref \<Rightarrow> string" where
  "occurrence_key ref = fst ref @ ''/'' @ url_quote (snd ref)"

definition independent_cell_id :: "occurrence_ref \<Rightarrow> string" where
  "independent_cell_id ref = ''occ:'' @ fst ref @ '':'' @ url_quote (snd ref)"

definition parse_occurrence_ref :: "string list \<Rightarrow> json \<Rightarrow> occurrence_ref result" where
  "parse_occurrence_ref roles raw =
     bind_r (expect_object raw) (\<lambda>obj.
     bind_r (expect_exact_keys obj [''role'', ''local_id''] []) (\<lambda>_.
     bind_r (field expect_string obj ''role'') (\<lambda>role.
     bind_r (field expect_string obj ''local_id'') (\<lambda>local_id.
     if role \<notin> set roles then Inl (SchemaError ''role is not valid for this operator'') else Inr (role, local_id)))))"

section \<open>Alias groups\<close>

type_synonym occurrences = "(occurrence_ref \<times> arm_occurrence) list"
type_synonym alias_group = "string \<times> occurrence_ref list \<times> string"

record alias_state =
  alias_ids :: "string list"
  occurrence_group :: "(occurrence_ref \<times> string) list"
  parsed_groups :: "alias_group list"

definition identity_row :: "arm_occurrence \<Rightarrow> string \<times> string \<times> string \<times> string" where
  "identity_row oc = (occ_atom oc, occ_key oc, occ_effect oc, occ_anchor oc)"

definition claim_refs ::
    "occurrences \<Rightarrow> string \<Rightarrow> (occurrence_ref \<times> string) list \<Rightarrow> occurrence_ref list \<Rightarrow> (occurrence_ref \<times> string) list result" where
  "claim_refs occs alias_id = fold_r (\<lambda>owner ref.
     if ref \<notin> fst ` set occs then Inl (SchemaError ''references unknown occurrence'')
     else if ref \<in> fst ` set owner then Inl (SchemaError ''occurrence belongs to multiple aliases'')
     else Inr (AList.update ref alias_id owner))"

definition parse_alias :: "occurrences \<Rightarrow> string list \<Rightarrow> alias_state \<Rightarrow> json \<Rightarrow> alias_state result" where
  "parse_alias occs roles st raw =
     bind_r (expect_object raw) (\<lambda>group.
     bind_r (expect_exact_keys group [''id'', ''members'', ''evidence''] []) (\<lambda>_.
     bind_r (field expect_string group ''id'') (\<lambda>alias_id.
     if alias_id \<in> set (alias_ids st) then Inl (SchemaError ''duplicate alias ID'')
     else
     bind_r (field expect_list group ''members'') (\<lambda>items.
     bind_r (map_r (parse_occurrence_ref roles) items) (\<lambda>refs.
     if length refs < 2 \<or> \<not> distinct refs then Inl (SchemaError ''members must contain at least two unique occurrences'')
     else
     bind_r (claim_refs occs alias_id (occurrence_group st) refs) (\<lambda>owner.
     bind_r (field expect_object group ''evidence'') (\<lambda>evidence.
     bind_r (expect_exact_keys evidence [''kind'', ''value''] []) (\<lambda>_.
     bind_r (field expect_string evidence ''kind'') (\<lambda>kind.
     bind_r (field expect_string evidence ''value'') (\<lambda>anchor.
     if kind \<noteq> ''stable_cell_anchor'' then Inl (SchemaError ''evidence kind must be stable_cell_anchor'')
     else
     bind_r (map_r (dict_get occs) refs) (\<lambda>members.
     if card (set (map identity_row members)) \<noteq> 1
     then Inl (SchemaError ''aliases occurrences with different identity'')
     else if occ_anchor (hd members) \<noteq> anchor
     then Inl (SchemaError ''evidence value does not match the stable cell anchor'')
     else Inr \<lparr>alias_ids = alias_ids st @ [alias_id], occurrence_group = owner,
                parsed_groups = parsed_groups st @ [(alias_id, sort refs, anchor)]\<rparr>)))))))))))"

section \<open>Anchors\<close>

definition by_anchor :: "occurrences \<Rightarrow> (string \<times> occurrence_ref list) list" where
  "by_anchor occs = fold (\<lambda>(ref, oc) acc. AList.map_default (occ_anchor oc) [ref] (\<lambda>refs. refs @ [ref]) acc) occs []"

definition check_anchor :: "alias_state \<Rightarrow> string \<times> occurrence_ref list \<Rightarrow> unit result" where
  "check_anchor st row =
     (let refs = snd row; groups = map (map_of (occurrence_group st)) refs in
      if length refs \<le> 1 then Inr ()
      else if None \<in> set groups \<or> card (set groups) \<noteq> 1
      then Inl (SchemaError ''stable cell anchor is reused without one complete alias'')
      else if set (concat (map (\<lambda>(alias_id, members, _). if Some alias_id = hd groups then members else []) (parsed_groups st))) \<noteq> set refs
      then Inl (SchemaError ''alias does not cover its entire stable cell anchor'')
      else Inr ())"

section \<open>Normalized cells\<close>

definition after_colon :: "string \<Rightarrow> string" where
  "after_colon s = tl (dropWhile (\<lambda>c. c \<noteq> CHR '':'') s)"

definition alias_binding :: "arm_occurrence \<Rightarrow> occurrence_ref list \<Rightarrow> string \<Rightarrow> (string \<times> json) list" where
  "alias_binding oc refs anchor =
     [(''members'', JList (map (JString \<circ> occurrence_key) refs)), (''atom'', JString (occ_atom oc)),
      (''commitment_key'', JString (occ_key oc)), (''effect_binding_digest'', JString (occ_effect oc)),
      (''cell_anchor'', JString anchor)]"

definition alias_cell ::
    "(string \<Rightarrow> string) \<Rightarrow> (string \<Rightarrow> string) \<Rightarrow> occurrences \<Rightarrow> (occurrence_ref \<times> string) list \<times> json list \<Rightarrow> alias_group \<Rightarrow>
     ((occurrence_ref \<times> string) list \<times> json list) result" where
  "alias_cell nfc sha256 occs acc grp =
     (case grp of (alias_id, refs, anchor) \<Rightarrow>
       bind_r (dict_get occs (hd refs)) (\<lambda>oc.
       let binding = alias_binding oc refs anchor in
       bind_r (digest_json nfc sha256 (JObject binding)) (\<lambda>digest.
       let cell_id = ''alias:'' @ after_colon digest in
       Inr (fold (\<lambda>ref m. AList.update ref cell_id m) refs (fst acc),
            snd acc @ [JObject ([(''id'', JString alias_id), (''normalized_cell'', JString cell_id)] @ binding)]))))"

definition single_parent :: "string list \<Rightarrow> bool \<Rightarrow> string option" where
  "single_parent candidates missing = (if length candidates = 1 \<and> \<not> missing then Some (hd candidates) else None)"

definition normalize_cell :: "string \<times> arm_occurrence list \<Rightarrow> string \<times> normalized_cell" where
  "normalize_cell row =
     (let members = snd row; first = hd members;
          parents = sorted_list_of_set (set (List.map_filter occ_parent members));
          unparented = (\<exists>oc\<in>set members. occ_parent oc = None);
          leases = sorted_list_of_set (set (List.map_filter occ_lease members));
          unleased = (\<exists>oc\<in>set members. occ_lease oc = None) in
      (fst row, \<lparr>norm_id = fst row, norm_atom = occ_atom first, norm_key = occ_key first, norm_effect = occ_effect first,
        norm_anchor = occ_anchor first, norm_parent = single_parent parents unparented, parent_candidates = parents,
        has_unparented = unparented, norm_lease = single_parent leases unleased, lease_candidates = leases,
        has_unleased = unleased, norm_occurrences = sort (map occ_ref members)\<rparr>))"

definition group_occurrence ::
    "occurrences \<Rightarrow> (string \<times> arm_occurrence list) list \<Rightarrow> occurrence_ref \<times> string \<Rightarrow> (string \<times> arm_occurrence list) list result" where
  "group_occurrence occs grouped row =
     bind_r (dict_get occs (fst row)) (\<lambda>oc. Inr (AList.map_default (snd row) [oc] (\<lambda>members. members @ [oc]) grouped))"

definition normalize_occurrences ::
    "(string \<Rightarrow> string) \<Rightarrow> (string \<Rightarrow> string) \<Rightarrow> occurrences \<Rightarrow> json \<Rightarrow> string list \<Rightarrow>
     ((occurrence_ref \<times> string) list \<times> (string \<times> normalized_cell) list \<times> json list) result" where
  "normalize_occurrences nfc sha256 occs aliases_raw roles =
     bind_r (expect_list aliases_raw) (\<lambda>alias_objects.
     bind_r (fold_r (parse_alias occs roles) \<lparr>alias_ids = [], occurrence_group = [], parsed_groups = []\<rparr> alias_objects) (\<lambda>st.
     bind_r (each_r (check_anchor st) (by_anchor occs)) (\<lambda>_.
     bind_r (fold_r (alias_cell nfc sha256 occs) ([], []) (sort_key fst (parsed_groups st))) (\<lambda>(aliased, alias_output).
     let occurrence_to_cell = fold (\<lambda>ref m. setdefault ref (independent_cell_id ref) m) (sort (map fst occs)) aliased in
     bind_r (fold_r (group_occurrence occs) [] occurrence_to_cell) (\<lambda>grouped.
     let normalized = map normalize_cell grouped in
     if length normalized > max_target_cells then Inl (SchemaError ''target has too many normalized cells'')
     else Inr (occurrence_to_cell, normalized, alias_output))))))"

end
