(* ===== verification/Parsing.thy ===== *)
theory Parsing
  imports Normalize
begin

text \<open>
  The parser of a request document, \<open>_parse_request\<close> of \<open>artifact/history_admission/compiler.py\<close>
  with its parts: maxima, receipts, the source envelope, the arms of the operation and the
  controllers. An object is an association list; a field is read with \<open>dict_get\<close>, which raises
  KeyError where the key is missing. Error texts leave out the path and the offending values.
\<close>

definition max_atoms :: nat where "max_atoms = 16"
definition max_source_cells :: nat where "max_source_cells = 12"
definition max_controllers :: nat where "max_controllers = 10"
definition max_occurrences :: nat where "max_occurrences = 24"
definition max_gate_uses :: nat where "max_gate_uses = 24"

definition request_schema :: string where "request_schema = ''history-admission.request.v3''"

section \<open>Maxima and receipts\<close>

definition parse_maximal :: "string set \<Rightarrow> json \<Rightarrow> config result" where
  "parse_maximal universe raw =
     bind_r (unique_strings True raw) (\<lambda>members.
     if set members - universe \<noteq> {} then Inl (SchemaError ''references undeclared values'') else Inr (set members))"

definition parse_maxima :: "json \<Rightarrow> string set \<Rightarrow> family result" where
  "parse_maxima v universe =
     bind_r (expect_list v) (\<lambda>raw. bind_r (map_r (parse_maximal universe) raw) downward_closure)"

definition phase_rank :: "(string \<times> int) list" where
  "phase_rank = [(''prepared'', 0), (''settled'', 1)]"

definition parse_receipt :: "json \<Rightarrow> ledger_receipt result" where
  "parse_receipt raw =
     bind_r (expect_object raw) (\<lambda>obj.
     bind_r (expect_exact_keys obj [''receipt'', ''authority'', ''atom'', ''cell_anchor'', ''epoch'', ''operation'',
       ''effect_digest'', ''phase''] []) (\<lambda>_.
     bind_r (field expect_string obj ''phase'') (\<lambda>phase.
     if phase \<notin> fst ` set phase_rank then Inl (SchemaError ''phase must be prepared or settled'')
     else
     bind_r (field expect_string obj ''receipt'') (\<lambda>receipt.
     bind_r (field expect_string obj ''authority'') (\<lambda>auth.
     bind_r (field expect_string obj ''atom'') (\<lambda>atom.
     bind_r (field expect_string obj ''cell_anchor'') (\<lambda>anchor.
     bind_r (field expect_string obj ''epoch'') (\<lambda>epoch.
     bind_r (field expect_string obj ''operation'') (\<lambda>operation.
     bind_r (field expect_string obj ''effect_digest'') (\<lambda>effect.
     Inr \<lparr>receipt_id = receipt, receipt_authority = auth, receipt_atom = atom, receipt_anchor = anchor, receipt_epoch = epoch,
          receipt_operation = operation, receipt_effect = effect, receipt_phase = phase\<rparr>))))))))))"

definition add_receipt ::
    "string \<Rightarrow> string set \<Rightarrow> (string \<times> ledger_receipt) list \<times> (string \<times> string) list \<Rightarrow> json \<Rightarrow>
     ((string \<times> ledger_receipt) list \<times> (string \<times> string) list) result" where
  "add_receipt auth_id atom_set acc raw =
     bind_r (parse_receipt raw) (\<lambda>receipt.
     if receipt_id receipt \<in> fst ` set (fst acc) then Inl (SchemaError ''repeats receipt ID'')
     else if receipt_authority receipt \<noteq> auth_id then Inl (SchemaError ''receipt belongs to another authority'')
     else if receipt_atom receipt \<notin> atom_set then Inl (SchemaError ''receipt names undeclared atom'')
     else if map_of (snd acc) (receipt_atom receipt) \<noteq> None then Inl (SchemaError ''binds atom to two receipts'')
     else Inr (AList.update (receipt_id receipt) receipt (fst acc),
               AList.update (receipt_atom receipt) (receipt_id receipt) (snd acc)))"

definition parse_receipts :: "json \<Rightarrow> string \<Rightarrow> string set \<Rightarrow> (string \<times> ledger_receipt) list result" where
  "parse_receipts raw auth_id atom_set =
     bind_r (expect_list raw) (\<lambda>items.
     bind_r (fold_r (add_receipt auth_id atom_set) ([], []) items) (\<lambda>acc. Inr (fst acc)))"

definition check_receipt :: "(string \<times> ledger_receipt) list \<Rightarrow> string \<times> ledger_receipt \<Rightarrow> unit result" where
  "check_receipt current row =
     (case map_of current (fst row) of
        None \<Rightarrow> Inl (SchemaError ''current ledger dropped source receipt'')
      | Some now \<Rightarrow>
          if immutable_binding now \<noteq> immutable_binding (snd row) then Inl (SchemaError ''current ledger rebound source receipt'')
          else bind_r (dict_get phase_rank (receipt_phase now)) (\<lambda>new_rank.
               bind_r (dict_get phase_rank (receipt_phase (snd row))) (\<lambda>old_rank.
               if new_rank < old_rank then Inl (SchemaError ''current ledger regressed source receipt'') else Inr ())))"

definition durable_atoms :: "(string \<times> ledger_receipt) list \<Rightarrow> config" where
  "durable_atoms receipts = set (map (receipt_atom \<circ> snd) receipts)"

section \<open>The source envelope\<close>

definition add_source_cell ::
    "string set \<Rightarrow> (string \<times> source_cell) list \<times> string list \<Rightarrow> json \<Rightarrow> ((string \<times> source_cell) list \<times> string list) result" where
  "add_source_cell atom_set acc raw =
     bind_r (expect_object raw) (\<lambda>cell.
     bind_r (expect_exact_keys cell [''id'', ''atom'', ''cell_anchor''] []) (\<lambda>_.
     bind_r (field expect_string cell ''id'') (\<lambda>cell_id.
     bind_r (field expect_string cell ''atom'') (\<lambda>atom.
     bind_r (field expect_string cell ''cell_anchor'') (\<lambda>anchor.
     if cell_id \<in> fst ` set (fst acc) then Inl (SchemaError ''duplicate source cell ID'')
     else if anchor \<in> set (snd acc) then Inl (SchemaError ''source repeats stable semantic cell anchor'')
     else if atom \<notin> atom_set then Inl (SchemaError ''atom is undeclared'')
     else Inr (AList.update cell_id \<lparr>source_id = cell_id, source_atom = atom, source_anchor = anchor\<rparr> (fst acc), snd acc @ [anchor]))))))"

definition add_lease ::
    "(string \<times> source_cell) list \<Rightarrow> int \<Rightarrow> (string \<times> lease_binding) list \<Rightarrow> json \<Rightarrow> (string \<times> lease_binding) list result" where
  "add_lease cells version leases raw =
     bind_r (expect_object raw) (\<lambda>lease.
     bind_r (expect_exact_keys lease [''id'', ''issued_version'', ''cell'', ''atom''] []) (\<lambda>_.
     bind_r (field expect_string lease ''id'') (\<lambda>i.
     bind_r (field expect_nonnegative_int lease ''issued_version'') (\<lambda>issued.
     bind_r (field expect_string lease ''cell'') (\<lambda>cell_id.
     bind_r (field expect_string lease ''atom'') (\<lambda>atom.
     if i \<in> fst ` set leases then Inl (SchemaError ''duplicate source lease ID'')
     else if cell_id \<notin> fst ` set cells then Inl (SchemaError ''lease cell is undeclared'')
     else bind_r (dict_get cells cell_id) (\<lambda>cell.
     if atom \<noteq> source_atom cell then Inl (SchemaError ''lease atom does not match source cell lineage'')
     else if issued > version then Inl (SchemaError ''lease is newer than the source envelope'')
     else Inr (AList.update i \<lparr>lease_id = i, issued_version = issued, lease_cell = cell_id, lease_atom = atom\<rparr> leases))))))))"

definition check_source_config :: "family \<Rightarrow> config \<Rightarrow> lineage \<Rightarrow> config \<Rightarrow> unit result" where
  "check_source_config allowed_family durable lin c =
     bind_r (config_obstructions allowed_family durable c lin) (\<lambda>reasons.
     if reasons \<noteq> [] then Inl (SchemaError ''source envelope is not admitted'') else Inr ())"

section \<open>The arms\<close>

record arm_state =
  arm_occurrences :: occurrences
  arm_coverage :: "(string \<times> string) list"
  arm_may :: "(string \<times> family) list"
  arm_required :: "(string \<times> family) list"

definition add_arm_cell ::
    "string \<Rightarrow> string set \<Rightarrow> (string \<times> source_cell) list \<Rightarrow> (string \<times> lease_binding) list \<Rightarrow>
     occurrences \<times> string list \<Rightarrow> json \<Rightarrow> (occurrences \<times> string list) result" where
  "add_arm_cell role atom_set cells leases acc raw =
     bind_r (expect_object raw) (\<lambda>cell.
     bind_r (expect_exact_keys cell [''local_id'', ''atom'', ''commitment_key'', ''effect_binding_digest'', ''cell_anchor'', ''parent'', ''lease''] []) (\<lambda>_.
     bind_r (field expect_string cell ''local_id'') (\<lambda>local_id.
     if local_id \<in> set (snd acc) then Inl (SchemaError ''repeats local cell ID'')
     else
     bind_r (field expect_string cell ''atom'') (\<lambda>atom.
     if atom \<notin> atom_set then Inl (SchemaError ''atom is undeclared'')
     else
     bind_r (field expect_optional_string cell ''parent'') (\<lambda>parent.
     bind_r (field expect_optional_string cell ''lease'') (\<lambda>lease.
     if parent \<noteq> None \<and> the parent \<notin> fst ` set cells then Inl (SchemaError ''parent is undeclared'')
     else if lease \<noteq> None \<and> the lease \<notin> fst ` set leases then Inl (SchemaError ''lease is undeclared'')
     else
     bind_r (field expect_string cell ''commitment_key'') (\<lambda>key.
     bind_r (field expect_string cell ''effect_binding_digest'') (\<lambda>effect.
     bind_r (field expect_string cell ''cell_anchor'') (\<lambda>anchor.
     let oc = \<lparr>occ_role = role, occ_local = local_id, occ_atom = atom, occ_key = key, occ_effect = effect, occ_anchor = anchor,
               occ_parent = parent, occ_lease = lease\<rparr>;
         occs = AList.update (occ_ref oc) oc (fst acc) in
     if length occs > max_occurrences then Inl (SchemaError ''operation has too many arm-tagged occurrences'')
     else Inr (occs, snd acc @ [local_id]))))))))))"

definition parse_arm ::
    "(string \<times> json) list \<Rightarrow> string set \<Rightarrow> (string \<times> source_cell) list \<Rightarrow> (string \<times> lease_binding) list \<Rightarrow>
     arm_state \<Rightarrow> string \<Rightarrow> arm_state result" where
  "parse_arm operation atom_set cells leases st role =
     bind_r (field expect_object operation role) (\<lambda>arm.
     bind_r (expect_exact_keys arm [''coverage'', ''cells'', ''may_maxima'', ''required_maxima''] []) (\<lambda>_.
     bind_r (field expect_string arm ''coverage'') (\<lambda>coverage.
     if coverage \<notin> {''exact'', ''sound_overapprox''} then Inl (SchemaError ''coverage must be exact or sound_overapprox'')
     else
     bind_r (field expect_list arm ''cells'') (\<lambda>items.
     bind_r (fold_r (add_arm_cell role atom_set cells leases) (arm_occurrences st, []) items) (\<lambda>(occs, locals).
     if locals = [] then Inl (SchemaError ''cells must be nonempty'')
     else
     bind_r (field (\<lambda>v. parse_maxima v (set locals)) arm ''may_maxima'') (\<lambda>may.
     bind_r (field (\<lambda>v. parse_maxima v (set locals)) arm ''required_maxima'') (\<lambda>required.
     if support may \<noteq> set locals then Inl (SchemaError ''cells must exactly equal may-family support'')
     else if \<not> required \<subseteq> may then Inl (SchemaError ''required family is not a subset of may'')
     else Inr \<lparr>arm_occurrences = occs, arm_coverage = AList.update role coverage (arm_coverage st),
               arm_may = AList.update role may (arm_may st), arm_required = AList.update role required (arm_required st)\<rparr>)))))))"

definition role_mapping :: "occurrences \<Rightarrow> (occurrence_ref \<times> string) list \<Rightarrow> string \<Rightarrow> (string \<times> string) list result" where
  "role_mapping occs o2c role =
     map_r (\<lambda>ref. bind_r (dict_get o2c ref) (\<lambda>cell. Inr (snd ref, cell))) (filter (\<lambda>ref. fst ref = role) (map fst occs))"

definition remap_role ::
    "arm_state \<Rightarrow> (occurrence_ref \<times> string) list \<Rightarrow> (string \<times> family) list \<times> (string \<times> family) list \<Rightarrow> string \<Rightarrow>
     ((string \<times> family) list \<times> (string \<times> family) list) result" where
  "remap_role st o2c acc role =
     bind_r (role_mapping (arm_occurrences st) o2c role) (\<lambda>mapping.
     bind_r (bind_r (dict_get (arm_may st) role) (\<lambda>F. remap_family F mapping)) (\<lambda>may.
     bind_r (bind_r (dict_get (arm_required st) role) (\<lambda>F. remap_family F mapping)) (\<lambda>required.
     Inr (AList.update role may (fst acc), AList.update role required (snd acc)))))"

section \<open>Controllers\<close>

definition check_refs :: "occurrences \<Rightarrow> occurrence_ref list \<Rightarrow> unit result" where
  "check_refs occs = each_r (\<lambda>ref. if ref \<notin> fst ` set occs then Inl (SchemaError ''references unknown occurrence'') else Inr ())"

definition parse_ref_config ::
    "string list \<Rightarrow> occurrences \<Rightarrow> (occurrence_ref \<times> string) list \<Rightarrow> json \<Rightarrow> config result" where
  "parse_ref_config roles occs o2c raw =
     bind_r (expect_list raw) (\<lambda>items.
     bind_r (map_r (parse_occurrence_ref roles) items) (\<lambda>refs.
     if \<not> distinct refs then Inl (SchemaError ''repeats an occurrence'')
     else bind_r (check_refs occs refs) (\<lambda>_.
     bind_r (map_r (dict_get o2c) refs) (\<lambda>cells. Inr (set cells)))))"

definition parse_ref_family ::
    "string list \<Rightarrow> occurrences \<Rightarrow> (occurrence_ref \<times> string) list \<Rightarrow> json \<Rightarrow> family result" where
  "parse_ref_family roles occs o2c raw =
     bind_r (expect_list raw) (\<lambda>items. bind_r (map_r (parse_ref_config roles occs o2c) items) downward_closure)"

definition add_gate_use ::
    "string list \<Rightarrow> occurrences \<Rightarrow> (occurrence_ref \<times> string) list \<Rightarrow> (string \<times> controller) list \<times> string list \<Rightarrow> json \<Rightarrow>
     ((string \<times> controller) list \<times> string list) result" where
  "add_gate_use roles occs o2c acc raw =
     bind_r (expect_object raw) (\<lambda>use.
     bind_r (expect_exact_keys use [''id'', ''gate_origin'', ''controller_anchor'', ''controller_version'', ''members'', ''local_maxima''] []) (\<lambda>_.
     bind_r (field expect_string use ''id'') (\<lambda>use_id.
     if use_id \<in> set (snd acc) then Inl (SchemaError ''duplicate gate-use ID'')
     else
     bind_r (field expect_string use ''gate_origin'') (\<lambda>origin.
     bind_r (field expect_string use ''controller_anchor'') (\<lambda>anchor.
     bind_r (field expect_nonnegative_int use ''controller_version'') (\<lambda>version.
     bind_r (field expect_list use ''members'') (\<lambda>items.
     bind_r (map_r (parse_occurrence_ref roles) items) (\<lambda>members.
     if members = [] \<or> \<not> distinct members then Inl (SchemaError ''members must be nonempty and unique'')
     else
     bind_r (check_refs occs members) (\<lambda>_.
     bind_r (field (parse_ref_family roles occs o2c) use ''local_maxima'') (\<lambda>family.
     bind_r (map_r (dict_get o2c) members) (\<lambda>member_cells.
     if support family \<noteq> set member_cells then Inl (SchemaError ''members must exactly equal local-family support'')
     else
     case map_of (fst acc) anchor of
       None \<Rightarrow> Inr (AList.update anchor \<lparr>ctl_anchor = anchor, gate_origin = origin, ctl_version = version, local_family = family,
                 gate_use_ids = [use_id]\<rparr> (fst acc), snd acc @ [use_id])
     | Some previous \<Rightarrow>
         if gate_origin previous \<noteq> origin \<or> ctl_version previous \<noteq> version \<or> local_family previous \<noteq> family
         then Inl (SchemaError ''gate uses sharing controller anchor disagree'')
         else Inr (AList.update anchor \<lparr>ctl_anchor = anchor, gate_origin = origin, ctl_version = version, local_family = family,
                 gate_use_ids = sort (gate_use_ids previous @ [use_id])\<rparr> (fst acc), snd acc @ [use_id]))))))))))))"

definition parse_controllers ::
    "json \<Rightarrow> json \<Rightarrow> string list \<Rightarrow> occurrences \<Rightarrow> (occurrence_ref \<times> string) list \<Rightarrow> ((string \<times> controller) list \<times> family) result" where
  "parse_controllers gate_uses_raw future_raw roles occs o2c =
     bind_r (expect_list gate_uses_raw) (\<lambda>gate_uses.
     if length gate_uses > max_gate_uses then Inl (SchemaError ''operation has too many gate uses'')
     else
     bind_r (fold_r (add_gate_use roles occs o2c) ([], []) gate_uses) (\<lambda>(ctls, _).
     if length ctls > max_controllers then Inl (SchemaError ''operation has too many controllers'')
     else
     bind_r (parse_maxima future_raw (fst ` set ctls)) (\<lambda>future.
     if support future \<noteq> fst ` set ctls
     then Inl (SchemaError ''controller_future_maxima must cover every declared controller anchor'')
     else Inr (ctls, future))))"

section \<open>The document\<close>

record source_part =
  part_version :: int
  part_cells :: "(string \<times> source_cell) list"
  part_future :: family
  part_receipts :: "(string \<times> ledger_receipt) list"
  part_ledger :: "(string \<times> ledger_receipt) list"
  part_leases :: "(string \<times> lease_binding) list"

record operation_part =
  part_kind :: string
  part_target :: int
  part_coverage :: string
  part_arms :: arm_state
  part_mapping :: "(occurrence_ref \<times> string) list"
  part_normalized :: "(string \<times> normalized_cell) list"
  part_aliases :: "json list"
  part_may :: "(string \<times> family) list"
  part_required :: "(string \<times> family) list"
  part_controllers :: "(string \<times> controller) list"
  part_controller_future :: family

definition parse_authority :: "(string \<times> json) list \<Rightarrow> (string \<times> string list \<times> family) result" where
  "parse_authority raw =
     bind_r (field expect_object raw ''authority'') (\<lambda>obj.
     bind_r (expect_exact_keys obj [''id'', ''atoms'', ''allowed_maxima''] []) (\<lambda>_.
     bind_r (field expect_string obj ''id'') (\<lambda>auth_id.
     bind_r (field (unique_strings False) obj ''atoms'') (\<lambda>atom_list.
     if length atom_list > max_atoms then Inl (SchemaError ''authority has too many atoms'')
     else bind_r (field (\<lambda>v. parse_maxima v (set atom_list)) obj ''allowed_maxima'') (\<lambda>allowed_family.
     Inr (auth_id, atom_list, allowed_family))))))"

definition parse_source :: "(string \<times> json) list \<Rightarrow> string \<Rightarrow> string set \<Rightarrow> family \<Rightarrow> source_part result" where
  "parse_source raw auth_id atom_set allowed_family =
     bind_r (field expect_object raw ''source'') (\<lambda>obj.
     bind_r (expect_exact_keys obj [''version'', ''cells'', ''future_maxima'', ''receipt_frontier'', ''leases''] []) (\<lambda>_.
     bind_r (field expect_nonnegative_int obj ''version'') (\<lambda>version.
     bind_r (field expect_list obj ''cells'') (\<lambda>items.
     bind_r (fold_r (add_source_cell atom_set) ([], []) items) (\<lambda>(cells, _).
     if cells = [] \<or> length cells > max_source_cells then Inl (SchemaError ''source must declare between 1 and 12 cells'')
     else
     bind_r (field (\<lambda>v. parse_maxima v (fst ` set cells)) obj ''future_maxima'') (\<lambda>future.
     if support future \<noteq> fst ` set cells then Inl (SchemaError ''source cells must exactly equal the active future support'')
     else
     bind_r (field (\<lambda>v. parse_receipts v auth_id atom_set) obj ''receipt_frontier'') (\<lambda>receipts.
     bind_r (field (\<lambda>v. parse_receipts v auth_id atom_set) raw ''ledger'') (\<lambda>ledger.
     bind_r (each_r (check_receipt ledger) receipts) (\<lambda>_.
     if durable_atoms receipts \<notin> allowed_family then Inl (SchemaError ''source durable receipt prefix is outside the authority family'')
     else if durable_atoms ledger \<notin> allowed_family then Inl (SchemaError ''current durable receipt prefix is outside the authority family'')
     else
     bind_r (field expect_list obj ''leases'') (\<lambda>lease_items.
     bind_r (fold_r (add_lease cells version) [] lease_items) (\<lambda>leases.
     bind_r (each_r (check_source_config allowed_family (durable_atoms receipts) (map (\<lambda>(i, cell). (i, source_atom cell)) cells))
       (sorted_configs future)) (\<lambda>_.
     Inr \<lparr>part_version = version, part_cells = cells, part_future = future, part_receipts = receipts, part_ledger = ledger,
          part_leases = leases\<rparr>))))))))))))"

text \<open>The operation once its kind is known.\<close>

definition operation_body ::
    "(string \<Rightarrow> string) \<Rightarrow> (string \<Rightarrow> string) \<Rightarrow> (string \<times> json) list \<Rightarrow> string set \<Rightarrow> source_part \<Rightarrow> string \<Rightarrow> string list \<Rightarrow>
     operation_part result" where
  "operation_body nfc sha256 obj atom_set src kind roles =
     bind_r (expect_exact_keys obj ([''kind'', ''target_version'', ''aliases'', ''gate_uses'', ''controller_future_maxima'',
       ''controller_future_coverage''] @ roles) []) (\<lambda>_.
     bind_r (field expect_nonnegative_int obj ''target_version'') (\<lambda>target.
     bind_r (field expect_string obj ''controller_future_coverage'') (\<lambda>coverage.
     if coverage \<notin> {''exact'', ''exact_projection_through_r'', ''sound_overapprox''}
     then Inl (SchemaError ''controller_future_coverage must be exact, exact_projection_through_r, or sound_overapprox'')
     else
     bind_r (fold_r (parse_arm obj atom_set (part_cells src) (part_leases src))
       \<lparr>arm_occurrences = [], arm_coverage = [], arm_may = [], arm_required = []\<rparr> roles) (\<lambda>arms.
     bind_r (field (\<lambda>v. normalize_occurrences nfc sha256 (arm_occurrences arms) v roles) obj ''aliases'') (\<lambda>(o2c, normalized, groups).
     bind_r (fold_r (remap_role arms o2c) ([], []) roles) (\<lambda>(may, required).
     bind_r (dict_get obj ''gate_uses'') (\<lambda>gate_uses.
     bind_r (dict_get obj ''controller_future_maxima'') (\<lambda>future_raw.
     bind_r (parse_controllers gate_uses future_raw roles (arm_occurrences arms) o2c) (\<lambda>(ctls, future).
     Inr \<lparr>part_kind = kind, part_target = target, part_coverage = coverage, part_arms = arms, part_mapping = o2c,
          part_normalized = normalized, part_aliases = groups, part_may = may, part_required = required, part_controllers = ctls,
          part_controller_future = future\<rparr>)))))))))"

definition parse_operation ::
    "(string \<Rightarrow> string) \<Rightarrow> (string \<Rightarrow> string) \<Rightarrow> (string \<times> json) list \<Rightarrow> string set \<Rightarrow> source_part \<Rightarrow> operation_part result" where
  "parse_operation nfc sha256 raw atom_set src =
     bind_r (field expect_object raw ''operation'') (\<lambda>obj.
     bind_r (expect_string (case map_of obj ''kind'' of None \<Rightarrow> JNull | Some v \<Rightarrow> v)) (\<lambda>kind.
     case map_of operator_roles kind of
       None \<Rightarrow> Inl (SchemaError ''unknown operation kind'')
     | Some roles \<Rightarrow> operation_body nfc sha256 obj atom_set src kind roles))"

definition parse_request :: "(string \<Rightarrow> string) \<Rightarrow> (string \<Rightarrow> string) \<Rightarrow> json \<Rightarrow> parsed_request result" where
  "parse_request nfc sha256 document =
     bind_r (expect_object document) (\<lambda>raw.
     bind_r (expect_exact_keys raw [''schema'', ''request_id'', ''authority'', ''source'', ''ledger'', ''operation''] []) (\<lambda>_.
     bind_r (field expect_string raw ''schema'') (\<lambda>schema.
     if schema \<noteq> request_schema then Inl (SchemaError ''unexpected schema'')
     else
     bind_r (field expect_string raw ''request_id'') (\<lambda>req_id.
     bind_r (parse_authority raw) (\<lambda>(auth_id, atom_list, allowed_family).
     bind_r (parse_source raw auth_id (set atom_list) allowed_family) (\<lambda>src.
     bind_r (parse_operation nfc sha256 raw (set atom_list) src) (\<lambda>oper.
     Inr \<lparr>raw_request = raw, request_id = req_id, authority_id = auth_id, atoms = atom_list, authority = allowed_family,
          source_version = part_version src, source_cells = part_cells src, source_future = part_future src,
          source_receipts = part_receipts src, current_receipts = part_ledger src,
          source_durable = durable_atoms (part_receipts src), current_durable = durable_atoms (part_ledger src),
          source_leases = part_leases src, operator_kind = part_kind oper, target_version = part_target oper,
          role_coverage = arm_coverage (part_arms oper), role_may = part_may oper, role_required = part_required oper,
          normalized_cells = part_normalized oper, occurrence_to_cell = part_mapping oper, alias_groups = part_aliases oper,
          controllers = part_controllers oper, controller_future = part_controller_future oper,
          controller_future_coverage = part_coverage oper\<rparr>)))))))"

end
