(* ===== verification/Manifests.thy ===== *)
theory Manifests
  imports Parsing Compilation
begin

text \<open>
  Manifests end to end: a document the parser accepts gives a well-formed request, so the
  properties of the compilation hold for every accepted document; every failure is a schema error.
\<close>

section \<open>Dictionaries\<close>

lemma dict_get_value:
  assumes "dict_get d k = Inr v"
  shows "v \<in> snd ` set d"
proof -
  have "(k, v) \<in> set d" using assms unfolding dict_get_Inr by (rule map_of_SomeD)
  then show ?thesis by (rule rev_image_eqI) simp
qed

lemma map_r_values: "map_r (dict_get d) ks = Inr vs \<Longrightarrow> set vs \<subseteq> snd ` set d"
  by (rule subsetI) (drule map_r_keeps [where P = "\<lambda>v. v \<in> snd ` set d"], rule dict_get_value, auto)

lemma update_keys: "fst ` set (AList.update k v d) = insert k (fst ` set d)"
  using dom_update [of k v d] by simp

section \<open>Maxima\<close>

lemma parse_maximal_inside: "parse_maximal U raw = Inr c \<Longrightarrow> finite c \<and> c \<subseteq> U"
  by (auto simp: parse_maximal_def)

lemma closure_inside:
  assumes "downward_closure ms = Inr F" and "\<forall>m\<in>set ms. finite m \<and> m \<subseteq> U"
  shows "complex F \<and> support F \<subseteq> U"
proof -
  have "\<forall>m\<in>set ms. finite m" using assms(2) by blast
  note F = downward_closure_complex [OF assms(1) this]
  have "support F \<subseteq> U" unfolding support_def F(2) using assms(2) by blast
  then show ?thesis using F(1) by blast
qed

lemma parse_maxima_inside:
  assumes "parse_maxima v U = Inr F"
  shows "complex F \<and> support F \<subseteq> U"
proof -
  obtain raw ms where ms: "map_r (parse_maximal U) raw = Inr ms" "downward_closure ms = Inr F"
    using assms by (auto simp: parse_maxima_def)
  show ?thesis using ms(2) map_r_keeps [OF ms(1) parse_maximal_inside] by (rule closure_inside)
qed

section \<open>Remapping\<close>

lemma remap_config_inside:
  assumes "remap_config mapping c = Inr d" shows "d \<subseteq> snd ` set mapping"
proof -
  obtain cs where "map_r (dict_get mapping) (sorted_list_of_set c) = Inr cs" "d = set cs" using assms by (auto simp: remap_config_def)
  then show ?thesis using map_r_values by blast
qed

lemma remap_family_inside:
  assumes "complex F" and "remap_family F mapping = Inr G"
  shows "complex G \<and> support G \<subseteq> snd ` set mapping"
proof -
  obtain cs where cs: "map_r (remap_config mapping) (sorted_configs F) = Inr cs" "G = set cs"
    using assms(2) by (auto simp: remap_family_def)
  have "\<forall>c\<in>set cs. c \<subseteq> snd ` set mapping" by (rule map_r_keeps [OF cs(1)]) (rule remap_config_inside)
  then have "support G \<subseteq> snd ` set mapping" unfolding support_def cs(2) by blast
  then show ?thesis using complex_remap(1) [OF assms] by blast
qed

section \<open>The arms\<close>

definition occurrence_ok :: "(string \<times> source_cell) list \<Rightarrow> occurrence_ref \<times> arm_occurrence \<Rightarrow> bool" where
  "occurrence_ok cells row \<longleftrightarrow> occ_ref (snd row) = fst row \<and> (\<forall>q. occ_parent (snd row) = Some q \<longrightarrow> q \<in> fst ` set cells)"

definition occurrences_ok :: "(string \<times> source_cell) list \<Rightarrow> occurrences \<Rightarrow> bool" where
  "occurrences_ok cells occs \<longleftrightarrow> distinct (map fst occs) \<and> (\<forall>row\<in>set occs. occurrence_ok cells row)"

lemma add_arm_cell_keeps:
  assumes "add_arm_cell role atom_set cells leases acc raw = Inr acc'" and "occurrences_ok cells (fst acc)"
    and "\<forall>l\<in>set (snd acc). (role, l) \<in> fst ` set (fst acc)"
  shows "occurrences_ok cells (fst acc') \<and> (\<forall>l\<in>set (snd acc'). (role, l) \<in> fst ` set (fst acc')) \<and> fst ` set (fst acc) \<subseteq> fst ` set (fst acc')"
proof -
  obtain l oc where oc: "acc' = (AList.update (occ_ref oc) oc (fst acc), snd acc @ [l])" "occ_ref oc = (role, l)"
    "\<forall>q. occ_parent oc = Some q \<longrightarrow> q \<in> fst ` set cells"
    using assms(1) unfolding add_arm_cell_def Let_def bind_r_eq_Inr if_Inl_eq_Inr
    by - (elim exE conjE, rule that, erule Inr_inject [THEN sym], simp add: occ_ref_def, intro allI impI, simp)
  have "occurrence_ok cells row" if "row \<in> set (fst acc')" for row
    using set_alist_update [of row "occ_ref oc" oc "fst acc"] that assms(2) oc by (auto simp: occurrences_ok_def occurrence_ok_def)
  then show ?thesis using assms(2,3) oc(1,2) by (auto simp: occurrences_ok_def distinct_update update_keys)
qed

definition arm_ok :: "occurrences \<Rightarrow> (string \<times> family) list \<Rightarrow> (string \<times> family) list \<Rightarrow> string \<Rightarrow> bool" where
  "arm_ok occs mays requireds role \<longleftrightarrow> (\<exists>may req. map_of mays role = Some may \<and> map_of requireds role = Some req \<and>
     complex may \<and> complex req \<and> req \<subseteq> may \<and> (\<forall>l\<in>support may. (role, l) \<in> fst ` set occs))"

lemma parse_arm_keeps:
  assumes "parse_arm operation atom_set cells leases st role = Inr st'" and "occurrences_ok cells (arm_occurrences st)"
    and "\<forall>r\<in>R. arm_ok (arm_occurrences st) (arm_may st) (arm_required st) r"
  shows "occurrences_ok cells (arm_occurrences st') \<and> (\<forall>r\<in>insert role R. arm_ok (arm_occurrences st') (arm_may st') (arm_required st') r)"
proof -
  obtain items acc m q may req where run: "fold_r (add_arm_cell role atom_set cells leases) (arm_occurrences st, []) items = Inr acc"
    and fam: "parse_maxima m (set (snd acc)) = Inr may" "parse_maxima q (set (snd acc)) = Inr req" "req \<subseteq> may"
    and st': "arm_occurrences st' = fst acc" "arm_may st' = AList.update role may (arm_may st)" "arm_required st' = AList.update role req (arm_required st)"
    using assms(1) unfolding parse_arm_def field_def bind_r_eq_Inr if_Inl_eq_Inr split_def
    by - (elim exE conjE, rule that, assumption, assumption, assumption, auto)
  let ?occs = "fst acc" and ?locals = "snd acc"
  let ?keeps = "\<lambda>acc. occurrences_ok cells (fst acc) \<and> (\<forall>l\<in>set (snd acc). (role, l) \<in> fst ` set (fst acc)) \<and>
    fst ` set (arm_occurrences st) \<subseteq> fst ` set (fst acc)"
  have step: "?keeps acc'" if "?keeps acc" "add_arm_cell role atom_set cells leases acc raw = Inr acc'" for acc acc' raw
    using add_arm_cell_keeps [OF that(2)] that(1) by blast
  have "?keeps acc" by (rule fold_r_keeps [OF run]) (simp add: assms(2), rule step)
  then have occs: "occurrences_ok cells ?occs" "\<forall>l\<in>set ?locals. (role, l) \<in> fst ` set ?occs" "fst ` set (arm_occurrences st) \<subseteq> fst ` set ?occs"
    by simp_all
  have new: "complex may" "support may \<subseteq> set ?locals" "complex req" using parse_maxima_inside [OF fam(1)] parse_maxima_inside [OF fam(2)] by blast+
  have "arm_ok ?occs (arm_may st') (arm_required st') r" if "r \<in> insert role R" for r
  proof (cases "r = role")
    case True
    then show ?thesis using new fam(3) occs(2) st' unfolding arm_ok_def by (auto simp: update_conv')
  next
    case False
    then have "arm_ok (arm_occurrences st) (arm_may st) (arm_required st) r" using that assms(3) by blast
    then obtain may' req' where "map_of (arm_may st) r = Some may'" "map_of (arm_required st) r = Some req'" "complex may'" "complex req'"
      "req' \<subseteq> may'" "\<forall>l\<in>support may'. (r, l) \<in> fst ` set (arm_occurrences st)" unfolding arm_ok_def by blast
    moreover have "\<forall>l\<in>support may'. (r, l) \<in> fst ` set ?occs" using calculation(6) occs(3) by blast
    ultimately show ?thesis using False st'(2,3) unfolding arm_ok_def by (simp add: update_conv')
  qed
  then show ?thesis using occs(1) unfolding st'(1) by (intro conjI ballI)
qed

section \<open>Normalization\<close>

text \<open>Grouping into lists by a key, in the order of the first occurrence.\<close>

definition collect :: "('a \<Rightarrow> 'k) \<Rightarrow> ('a \<Rightarrow> 'v) \<Rightarrow> 'a list \<Rightarrow> ('k \<times> 'v list) list" where
  "collect key val rows = fold (\<lambda>x. AList.map_default (key x) [val x] (\<lambda>vs. vs @ [val x])) rows []"

lemma collect_ok:
  "distinct (map fst (collect key val rows)) \<and> fst ` set (collect key val rows) = key ` set rows \<and>
   (\<forall>(k, vs)\<in>set (collect key val rows). vs = map val (filter (\<lambda>x. key x = k) rows))"
proof (induction rows rule: rev_induct)
  case (snoc x rows)
  let ?g = "collect key val rows"
  have g: "distinct (map fst ?g)" "fst ` set ?g = key ` set rows" "\<And>k vs. (k, vs) \<in> set ?g \<Longrightarrow> vs = map val (filter (\<lambda>x. key x = k) rows)"
    using snoc by auto
  have step: "collect key val (rows @ [x]) = AList.map_default (key x) [val x] (\<lambda>vs. vs @ [val x]) ?g" by (simp add: collect_def)
  have keys: "map fst (collect key val (rows @ [x])) = (if key x \<in> key ` set rows then map fst ?g else map fst ?g @ [key x])"
    unfolding step map_default_keys g(2) by simp
  then have "distinct (map fst (collect key val (rows @ [x])))" using g(1,2) by (auto simp del: map_default.simps)
  moreover have "fst ` set (collect key val (rows @ [x])) = key ` set (rows @ [x])"
    using arg_cong [OF keys, of set] g(2) by (auto split: if_splits)
  moreover have "vs = map val (filter (\<lambda>x. key x = k) (rows @ [x]))" if kv: "(k, vs) \<in> set (collect key val (rows @ [x]))" for k vs
  proof (cases "k = key x")
    case True
    have "map val (filter (\<lambda>x. key x = k) rows) = (case map_of ?g k of None \<Rightarrow> [] | Some ws \<Rightarrow> ws)"
    proof (cases "map_of ?g k")
      case None
      then have "k \<notin> key ` set rows" using g(2) by (simp add: map_of_eq_None_iff)
      then show ?thesis using None by (auto simp: filter_empty_conv)
    next
      case (Some ws)
      then show ?thesis using g(3) [OF map_of_SomeD [OF Some]] by simp
    qed
    then show ?thesis using kv True unfolding step map_default_entry [OF g(1)] by (auto split: option.splits)
  next
    case False
    then show ?thesis using kv g(3) unfolding step map_default_entry [OF g(1)] by simp
  qed
  ultimately show ?case by blast
qed (simp add: collect_def)

lemma by_anchor_collect: "by_anchor occs = collect (\<lambda>(ref, oc). occ_anchor oc) fst occs"
  unfolding by_anchor_def collect_def by (rule fold_cong) (auto simp: split_def)

lemma group_collect:
  assumes "fold_r (group_occurrence occs) g rows = Inr g'"
  shows "(\<forall>row\<in>set rows. map_of occs (fst row) \<noteq> None) \<and>
    g' = fold (\<lambda>row. AList.map_default (snd row) [the (map_of occs (fst row))] (\<lambda>vs. vs @ [the (map_of occs (fst row))])) rows g"
  using assms
proof (induction rows arbitrary: g)
  case (Cons row rows)
  from Cons.prems obtain g1 where g1: "group_occurrence occs g row = Inr g1" and rest: "fold_r (group_occurrence occs) g1 rows = Inr g'" by auto
  obtain oc where oc: "map_of occs (fst row) = Some oc" "g1 = AList.map_default (snd row) [oc] (\<lambda>members. members @ [oc]) g"
    using g1 by (auto simp: group_occurrence_def dict_get_Inr)
  show ?case using Cons.IH [OF rest] oc by simp
qed simp

lemma normalize_cell_parent:
  assumes "norm_parent (snd (normalize_cell (i, members))) = Some q"
  shows "\<exists>oc\<in>set members. occ_parent oc = Some q"
proof -
  let ?ps = "sorted_list_of_set (set (List.map_filter occ_parent members))"
  have "q = hd ?ps" "length ?ps = 1"
    using assms by (auto simp: normalize_cell_def Let_def single_parent_def split: if_splits)
  then have "q \<in> set ?ps" by (metis hd_in_set list.size(3) zero_neq_one)
  then show ?thesis by (auto simp: List.map_filter_def)
qed

lemma normalize_inside:
  assumes "normalize_occurrences nfc sha256 occs raw roles = Inr (o2c, cells, out)" and "occurrences_ok scells occs"
  shows "snd ` set o2c = fst ` set cells" "distinct (map fst cells)"
    "\<forall>(i, cell)\<in>set cells. \<forall>q. norm_parent cell = Some q \<longrightarrow> q \<in> fst ` set scells"
proof -
  let ?val = "\<lambda>row. the (map_of occs (fst row))"
  obtain g where g: "fold_r (group_occurrence occs) [] o2c = Inr g" "cells = map normalize_cell g"
    using assms(1) unfolding normalize_occurrences_def Let_def bind_r_eq_Inr split_def if_Inl_eq_Inr by (elim exE conjE) simp
  have rows: "\<forall>row\<in>set o2c. map_of occs (fst row) \<noteq> None" and coll: "g = collect snd ?val o2c"
    using group_collect [OF g(1)] by (simp_all add: collect_def)
  note ok = collect_ok [of snd ?val o2c, folded coll]
  have fst: "map fst cells = map fst g" unfolding g(2) by (simp add: normalize_cell_def Let_def)
  show "distinct (map fst cells)" unfolding fst using ok by blast
  show "snd ` set o2c = fst ` set cells" using arg_cong [OF fst, of set] ok by simp
  show "\<forall>(i, cell)\<in>set cells. \<forall>q. norm_parent cell = Some q \<longrightarrow> q \<in> fst ` set scells"
  proof clarify
    fix i cell q assume "(i, cell) \<in> set cells" and q: "norm_parent cell = Some q"
    then obtain k ms where ms: "(k, ms) \<in> set g" "(i, cell) = normalize_cell (k, ms)" unfolding g(2) by auto
    have "norm_parent (snd (normalize_cell (k, ms))) = Some q" using q ms(2) [symmetric] by simp
    from normalize_cell_parent [OF this] obtain oc where oc: "oc \<in> set ms" "occ_parent oc = Some q" by blast
    have "ms = map ?val (filter (\<lambda>x. snd x = k) o2c)" using ok ms(1) by blast
    then obtain row where row: "row \<in> set o2c" "oc = ?val row" using oc(1) by auto
    then have "map_of occs (fst row) = Some oc" using rows by auto
    then have "(fst row, oc) \<in> set occs" by (rule map_of_SomeD)
    then show "q \<in> fst ` set scells" using assms(2) oc(2) unfolding occurrences_ok_def occurrence_ok_def by fastforce
  qed
qed

section \<open>Remapped arms and controllers\<close>

lemma role_mapping_values:
  assumes "role_mapping occs o2c role = Inr mapping"
  shows "snd ` set mapping \<subseteq> snd ` set o2c"
proof -
  have "\<forall>row\<in>set mapping. snd row \<in> snd ` set o2c"
    using assms unfolding role_mapping_def by (rule map_r_keeps) (auto dest: dict_get_value)
  then show ?thesis by blast
qed

definition role_ok :: "string set \<Rightarrow> (string \<times> family) list \<Rightarrow> (string \<times> family) list \<Rightarrow> string \<Rightarrow> bool" where
  "role_ok cells mays requireds role \<longleftrightarrow> (\<exists>may req. map_of mays role = Some may \<and> map_of requireds role = Some req \<and>
     complex may \<and> complex req \<and> req \<subseteq> may \<and> support may \<subseteq> cells)"

lemma remap_role_keeps:
  assumes "remap_role st o2c acc role = Inr acc'" and "arm_ok (arm_occurrences st) (arm_may st) (arm_required st) role"
    and "\<forall>r\<in>R. role_ok (snd ` set o2c) (fst acc) (snd acc) r"
  shows "\<forall>r\<in>insert role R. role_ok (snd ` set o2c) (fst acc') (snd acc') r"
proof -
  obtain may req where arm: "map_of (arm_may st) role = Some may" "map_of (arm_required st) role = Some req" "complex may" "complex req" "req \<subseteq> may"
    using assms(2) unfolding arm_ok_def by blast
  obtain mapping may' req' where run: "role_mapping (arm_occurrences st) o2c role = Inr mapping" "remap_family may mapping = Inr may'"
    "remap_family req mapping = Inr req'" "acc' = (AList.update role may' (fst acc), AList.update role req' (snd acc))"
    using assms(1) arm(1,2) by (auto simp: remap_role_def)
  have "support may' \<subseteq> snd ` set o2c" "complex may'" "complex req'"
    using remap_family_inside [OF arm(3) run(2)] remap_family_inside [OF arm(4) run(3)] role_mapping_values [OF run(1)] by auto
  moreover have "req' \<subseteq> may'" using complex_remap(2) [OF arm(3) run(2)] complex_remap(2) [OF arm(4) run(3)] arm(5) by blast
  ultimately have "role_ok (snd ` set o2c) (fst acc') (snd acc') role" unfolding role_ok_def run(4) by (simp add: update_conv')
  moreover have "role_ok (snd ` set o2c) (fst acc') (snd acc') r" if "r \<in> R" "r \<noteq> role" for r
  proof -
    have "role_ok (snd ` set o2c) (fst acc) (snd acc) r" using assms(3) that(1) by blast
    then show ?thesis using that(2) unfolding role_ok_def run(4) by (simp add: update_conv')
  qed
  ultimately show ?thesis by (metis insertE)
qed

lemma fold_r_each:
  assumes "fold_r f acc xs = Inr acc'" and "I acc" and "\<forall>r\<in>R. P acc r"
    and "\<And>a x a' R. x \<in> set xs \<Longrightarrow> I a \<Longrightarrow> \<forall>r\<in>R. P a r \<Longrightarrow> f a x = Inr a' \<Longrightarrow> I a' \<and> (\<forall>r\<in>insert x R. P a' r)"
  shows "I acc' \<and> (\<forall>r\<in>R \<union> set xs. P acc' r)"
  using assms
proof (induction xs arbitrary: acc R)
  case (Cons x xs)
  from Cons.prems(1) obtain acc1 where acc1: "f acc x = Inr acc1" and rest: "fold_r f acc1 xs = Inr acc'" by auto
  have new: "I acc1" "\<forall>r\<in>insert x R. P acc1 r" using Cons.prems(4) [OF _ Cons.prems(2,3) acc1] by simp_all
  have "I acc' \<and> (\<forall>r\<in>insert x R \<union> set xs. P acc' r)"
    using rest new by (rule Cons.IH) (rule Cons.prems(4), simp_all)
  then show ?case by simp
qed simp

lemma parse_ref_config_inside:
  assumes "parse_ref_config roles occs o2c raw = Inr c"
  shows "finite c \<and> c \<subseteq> snd ` set o2c"
proof -
  obtain refs cells where "map_r (dict_get o2c) refs = Inr cells" "c = set cells"
    using assms by (auto simp: parse_ref_config_def)
  then show ?thesis using map_r_values by blast
qed

lemma parse_ref_family_inside:
  assumes "parse_ref_family roles occs o2c raw = Inr F"
  shows "complex F \<and> support F \<subseteq> snd ` set o2c"
proof -
  obtain items ms where ms: "map_r (parse_ref_config roles occs o2c) items = Inr ms" "downward_closure ms = Inr F"
    using assms by (auto simp: parse_ref_family_def)
  show ?thesis using ms(2) map_r_keeps [OF ms(1) parse_ref_config_inside] by (rule closure_inside)
qed

lemma add_gate_use_keeps:
  assumes "add_gate_use roles occs o2c acc raw = Inr acc'"
    and "\<forall>(a, ctl)\<in>set (fst acc). complex (local_family ctl) \<and> support (local_family ctl) \<subseteq> snd ` set o2c"
  shows "\<forall>(a, ctl)\<in>set (fst acc'). complex (local_family ctl) \<and> support (local_family ctl) \<subseteq> snd ` set o2c"
proof -
  obtain a ctl F raw where new: "fst acc' = AList.update a ctl (fst acc)" "local_family ctl = F" "parse_ref_family roles occs o2c raw = Inr F"
    using assms(1) unfolding add_gate_use_def field_def bind_r_eq_Inr if_Inl_eq_Inr
    by - (elim exE conjE, auto split: option.splits if_splits)
  show ?thesis
  proof clarify
    fix b ctl' assume "(b, ctl') \<in> set (fst acc')"
    then have "(b, ctl') = (a, ctl) \<or> (b, ctl') \<in> set (fst acc)" unfolding new(1) by (rule set_alist_update)
    then show "complex (local_family ctl') \<and> support (local_family ctl') \<subseteq> snd ` set o2c"
      using parse_ref_family_inside [OF new(3)] new(2) assms(2) by blast
  qed
qed

lemma parse_controllers_inside:
  assumes "parse_controllers uses future_raw roles occs o2c = Inr (ctls, future)"
  shows "controllers_ok ctls future" "\<forall>a\<in>fst ` set ctls. support (families_of ctls a) \<subseteq> snd ` set o2c"
proof -
  obtain items acc where run: "fold_r (add_gate_use roles occs o2c) ([], []) items = Inr acc"
    and fut: "parse_maxima future_raw (fst ` set (fst acc)) = Inr future" and ctls: "ctls = fst acc"
    using assms unfolding parse_controllers_def bind_r_eq_Inr if_Inl_eq_Inr split_def
    by - (elim exE conjE, rule that, assumption, simp, simp)
  let ?P = "\<lambda>acc. \<forall>(a, ctl)\<in>set (fst acc). complex (local_family ctl) \<and> support (local_family ctl) \<subseteq> snd ` set o2c"
  have "?P acc" using run by (rule fold_r_keeps) (simp, rule add_gate_use_keeps)
  then have all: "complex (local_family ctl) \<and> support (local_family ctl) \<subseteq> snd ` set o2c" if "(a, ctl) \<in> set ctls" for a ctl using that unfolding ctls by blast
  have fam: "complex (families_of ctls a) \<and> support (families_of ctls a) \<subseteq> snd ` set o2c" if "a \<in> fst ` set ctls" for a
  proof -
    have "map_of ctls a \<noteq> None" using that by (simp add: map_of_eq_None_iff)
    then obtain ctl where "map_of ctls a = Some ctl" by blast
    then show ?thesis using all map_of_SomeD unfolding families_of_def by fastforce
  qed
  show "controllers_ok ctls future" using parse_maxima_inside [OF fut] fam unfolding controllers_ok_def ctls by blast
  show "\<forall>a\<in>fst ` set ctls. support (families_of ctls a) \<subseteq> snd ` set o2c" using fam by blast
qed

section \<open>Accepted documents\<close>

definition source_ok :: "string set \<Rightarrow> family \<Rightarrow> source_part \<Rightarrow> bool" where
  "source_ok atom_set A src \<longleftrightarrow> complex (part_future src) \<and> support (part_future src) = fst ` set (part_cells src) \<and>
     durable_atoms (part_receipts src) \<in> A \<and> durable_atoms (part_ledger src) \<in> A \<and>
     (\<forall>c\<in>part_future src. unobstructed A (durable_atoms (part_receipts src))
        (atom_of (map (\<lambda>(i, cell). (i, source_atom cell)) (part_cells src))) c)"

lemma parse_source_inside:
  assumes "parse_source raw auth_id atom_set A = Inr src"
  shows "source_ok atom_set A src"
proof -
  let ?lin = "map (\<lambda>(i, cell). (i, source_atom cell)) (part_cells src)"
  obtain version cells v future receipts ledger leases u where fut': "parse_maxima v (fst ` set cells) = Inr future"
    and sup': "\<not> support future \<noteq> fst ` set cells"
    and dur': "\<not> durable_atoms receipts \<notin> A" "\<not> durable_atoms ledger \<notin> A"
    and each': "each_r (check_source_config A (durable_atoms receipts) (map (\<lambda>p. (fst p, source_atom (snd p))) cells)) (sorted_configs future) = Inr u"
    and rec: "(Inr \<lparr>part_version = version, part_cells = cells, part_future = future, part_receipts = receipts, part_ledger = ledger,
      part_leases = leases\<rparr> :: source_part result) = Inr src"
    using assms unfolding parse_source_def field_def split_def
    by - (elim bindE guardE, rule that)
  have src: "src = \<lparr>part_version = version, part_cells = cells, part_future = future, part_receipts = receipts, part_ledger = ledger,
      part_leases = leases\<rparr>" using rec by simp
  have fut: "parse_maxima v (fst ` set (part_cells src)) = Inr (part_future src)"
    and sup: "support (part_future src) = fst ` set (part_cells src)"
    and dur: "durable_atoms (part_receipts src) \<in> A" "durable_atoms (part_ledger src) \<in> A"
    and each: "each_r (check_source_config A (durable_atoms (part_receipts src)) ?lin) (sorted_configs (part_future src)) = Inr ()"
    using fut' sup' dur' each' by (simp_all add: src split_def)
  note cx = parse_maxima_inside [OF fut, THEN conjunct1]
  have "unobstructed A (durable_atoms (part_receipts src)) (atom_of ?lin) c" if c: "c \<in> part_future src" for c
  proof -
    have "c \<in> set (sorted_configs (part_future src))" using c complexD(1,2) [OF cx] by simp
    then have ok: "check_source_config A (durable_atoms (part_receipts src)) ?lin c = Inr ()" using each by (simp add: each_r_ok_iff)
    have "fst ` set ?lin = fst ` set (part_cells src)" by (simp add: image_image split_def)
    then have "c \<subseteq> fst ` set ?lin" using c sup by (auto simp: support_def)
    from config_obstructions_ok [OF complexD(2) [OF cx c] this, of A "durable_atoms (part_receipts src)"] ok
    show ?thesis by (auto simp: check_source_config_def split: if_splits)
  qed
  then show ?thesis using cx sup dur unfolding source_ok_def by blast
qed

definition operation_ok :: "source_part \<Rightarrow> operation_part \<Rightarrow> bool" where
  "operation_ok src oper \<longleftrightarrow> (\<exists>roles. map_of operator_roles (part_kind oper) = Some roles \<and>
       (\<forall>role\<in>set roles. role_ok (fst ` set (part_normalized oper)) (part_may oper) (part_required oper) role)) \<and>
     part_coverage oper \<in> coverage_modes \<and> distinct (map fst (part_normalized oper)) \<and>
     (\<forall>(i, cell)\<in>set (part_normalized oper). \<forall>q. norm_parent cell = Some q \<longrightarrow> q \<in> fst ` set (part_cells src)) \<and>
     controllers_ok (part_controllers oper) (part_controller_future oper) \<and>
     (\<forall>a\<in>fst ` set (part_controllers oper). support (families_of (part_controllers oper) a) \<subseteq> fst ` set (part_normalized oper))"

lemma parse_operation_inside:
  assumes "parse_operation nfc sha256 raw atom_set src = Inr oper"
  shows "operation_ok src oper"
proof -
  let ?start = "\<lparr>arm_occurrences = [], arm_coverage = [], arm_may = [], arm_required = []\<rparr>"
  obtain obj kind where run: "(case map_of operator_roles kind of None \<Rightarrow> Inl (SchemaError ''unknown operation kind'')
     | Some roles \<Rightarrow> operation_body nfc sha256 obj atom_set src kind roles) = Inr oper"
    using assms unfolding parse_operation_def by (elim bindE) (rule that)
  then obtain roles where kind: "map_of operator_roles kind = Some roles"
    and body: "operation_body nfc sha256 obj atom_set src kind roles = Inr oper" by (auto split: option.splits)
  obtain target coverage arms v norm fams uses fut ctls where cov': "\<not> coverage \<notin> coverage_modes"
    and arms': "fold_r (parse_arm obj atom_set (part_cells src) (part_leases src)) ?start roles = Inr arms"
    and norm': "normalize_occurrences nfc sha256 (arm_occurrences arms) v roles = Inr norm"
    and remap': "fold_r (remap_role arms (fst norm)) ([], []) roles = Inr fams"
    and ctls': "parse_controllers uses fut roles (arm_occurrences arms) (fst norm) = Inr ctls"
    and rec: "(Inr \<lparr>part_kind = kind, part_target = target, part_coverage = coverage, part_arms = arms, part_mapping = fst norm,
          part_normalized = fst (snd norm), part_aliases = snd (snd norm), part_may = fst fams, part_required = snd fams,
          part_controllers = fst ctls, part_controller_future = snd ctls\<rparr> :: operation_part result) = Inr oper"
    using body unfolding operation_body_def field_def split_def coverage_modes_def [symmetric]
    by - (elim bindE guardE, rule that)
  have oper: "oper = \<lparr>part_kind = kind, part_target = target, part_coverage = coverage, part_arms = arms, part_mapping = fst norm,
          part_normalized = fst (snd norm), part_aliases = snd (snd norm), part_may = fst fams, part_required = snd fams,
          part_controllers = fst ctls, part_controller_future = snd ctls\<rparr>" using rec by simp
  have roles: "map_of operator_roles (part_kind oper) = Some roles" and cov: "part_coverage oper \<in> coverage_modes"
    and arms: "fold_r (parse_arm obj atom_set (part_cells src) (part_leases src)) ?start roles = Inr (part_arms oper)"
    and norm: "normalize_occurrences nfc sha256 (arm_occurrences (part_arms oper)) v roles =
        Inr (part_mapping oper, part_normalized oper, part_aliases oper)"
    and remap: "fold_r (remap_role (part_arms oper) (part_mapping oper)) ([], []) roles = Inr (part_may oper, part_required oper)"
    and ctls: "parse_controllers uses fut roles (arm_occurrences (part_arms oper)) (part_mapping oper) =
        Inr (part_controllers oper, part_controller_future oper)"
    using kind cov' arms' norm' remap' ctls' by (simp_all add: oper)
  have "occurrences_ok (part_cells src) (arm_occurrences (part_arms oper)) \<and>
    (\<forall>r\<in>{} \<union> set roles. arm_ok (arm_occurrences (part_arms oper)) (arm_may (part_arms oper)) (arm_required (part_arms oper)) r)"
    using arms by (rule fold_r_each) (simp_all add: occurrences_ok_def parse_arm_keeps [unfolded occurrences_ok_def])
  then have occs: "occurrences_ok (part_cells src) (arm_occurrences (part_arms oper))"
    and arm: "\<And>r. r \<in> set roles \<Longrightarrow> arm_ok (arm_occurrences (part_arms oper)) (arm_may (part_arms oper)) (arm_required (part_arms oper)) r" by simp_all
  note cells = normalize_inside [OF norm occs]
  have "True \<and> (\<forall>r\<in>{} \<union> set roles. role_ok (snd ` set (part_mapping oper)) (fst (part_may oper, part_required oper)) (snd (part_may oper, part_required oper)) r)"
    using remap by (rule fold_r_each) (simp_all add: remap_role_keeps arm)
  then have "\<forall>role\<in>set roles. role_ok (fst ` set (part_normalized oper)) (part_may oper) (part_required oper) role"
    unfolding cells(1) by simp
  then show ?thesis using roles cov cells(2,3) parse_controllers_inside [OF ctls] unfolding operation_ok_def cells(1) by blast
qed

lemma parse_authority_inside:
  assumes "parse_authority raw = Inr (auth_id, atom_list, A)"
  shows "complex A"
proof -
  obtain v l B i where "parse_maxima v (set l) = Inr B" "(Inr (i, l, B) :: (string \<times> string list \<times> family) result) = Inr (auth_id, atom_list, A)"
    using assms unfolding parse_authority_def field_def by - (elim bindE guardE, rule that)
  then show ?thesis using parse_maxima_inside by simp
qed

text \<open>What the parser accepts is well-formed.\<close>

lemma parsed_ok:
  assumes "parse_request nfc sha256 document = Inr p"
  shows "request_ok p"
proof -
  obtain raw i auth src oper where auth': "parse_authority raw = Inr auth"
    and src': "parse_source raw (fst auth) (set (fst (snd auth))) (snd (snd auth)) = Inr src"
    and oper': "parse_operation nfc sha256 raw (set (fst (snd auth))) src = Inr oper"
    and rec: "(Inr \<lparr>raw_request = raw, request_id = i, authority_id = fst auth, atoms = fst (snd auth), authority = snd (snd auth),
          source_version = part_version src, source_cells = part_cells src, source_future = part_future src,
          source_receipts = part_receipts src, current_receipts = part_ledger src,
          source_durable = durable_atoms (part_receipts src), current_durable = durable_atoms (part_ledger src),
          source_leases = part_leases src, operator_kind = part_kind oper, target_version = part_target oper,
          role_coverage = arm_coverage (part_arms oper), role_may = part_may oper, role_required = part_required oper,
          normalized_cells = part_normalized oper, occurrence_to_cell = part_mapping oper, alias_groups = part_aliases oper,
          controllers = part_controllers oper, controller_future = part_controller_future oper,
          controller_future_coverage = part_coverage oper\<rparr> :: parsed_request result) = Inr p"
    using assms unfolding parse_request_def field_def split_def by - (elim bindE guardE, rule that)
  obtain auth_id atom_list A where auth: "auth = (auth_id, atom_list, A)" by (cases auth)
  have A: "complex A" using auth' unfolding auth by (rule parse_authority_inside)
  have s: "source_ok (set atom_list) A src" using parse_source_inside [OF src'] by (simp add: auth)
  have o: "operation_ok src oper" by (rule parse_operation_inside [OF oper'])
  have p: "authority p = A" "source_cells p = part_cells src" "source_future p = part_future src"
    "source_durable p = durable_atoms (part_receipts src)" "current_durable p = durable_atoms (part_ledger src)"
    "operator_kind p = part_kind oper" "role_may p = part_may oper" "role_required p = part_required oper"
    "normalized_cells p = part_normalized oper" "controllers p = part_controllers oper"
    "controller_future p = part_controller_future oper" "controller_future_coverage p = part_coverage oper"
    using rec by (auto simp: auth)
  have "roles_ok p" using o unfolding operation_ok_def role_ok_def roles_ok_def cells_of_def p by blast
  moreover have "envelope_ok p" using A s o unfolding source_ok_def operation_ok_def envelope_ok_def source_lineage_def p by blast
  ultimately show ?thesis using o unfolding operation_ok_def request_ok_def cells_of_def p by blast
qed

definition compile_request :: "(string \<Rightarrow> string) \<Rightarrow> (string \<Rightarrow> string) \<Rightarrow> json \<Rightarrow> compile_result result" where
  "compile_request nfc sha256 document = bind_r (parse_request nfc sha256 document) compile_parsed"

end
