(* ===== verification/Failures.thy ===== *)
theory Failures
  imports Manifests
begin

text \<open>
  Failing closed: whatever the document, reading and compiling it either returns or raises a schema
  error. No missing key, failed assertion or other exception of the code is reachable.
\<close>

section \<open>Schema errors\<close>

definition schema_errors :: "py_error set" where
  "schema_errors = range SchemaError"

named_theorems closed

abbreviation fails_closed :: "'a result \<Rightarrow> bool" where
  "fails_closed \<equiv> within schema_errors"

lemma schema_errorI [simp]: "SchemaError m \<in> schema_errors"
  by (simp add: schema_errors_def)

lemma closed_guard: "(\<not> b \<Longrightarrow> fails_closed m) \<Longrightarrow> fails_closed (if b then Inl (SchemaError e) else m)"
  by simp

lemma closed_field:
  assumes "expect_exact_keys obj ks opt = Inr u" and "k \<in> set ks" and "\<And>v. fails_closed (f v)"
  shows "fails_closed (field f obj k)"
proof -
  have "k \<in> fst ` set obj" using assms(1,2) by (auto simp: expect_exact_keys_def Let_def split: if_splits)
  then have "map_of obj k \<noteq> None" by (simp add: map_of_eq_None_iff)
  then show ?thesis using assms(3) by (auto simp: field_def)
qed

lemma closed_map: "(\<And>x. x \<in> set xs \<Longrightarrow> fails_closed (f x)) \<Longrightarrow> fails_closed (map_r f xs)"
  by (induction xs) (auto intro!: within_bind)

lemma closed_each: "(\<And>x. x \<in> set xs \<Longrightarrow> fails_closed (f x)) \<Longrightarrow> fails_closed (each_r f xs)"
  by (induction xs) (auto intro!: within_bind)

lemma closed_get: "k \<in> fst ` set d \<Longrightarrow> fails_closed (dict_get d k)"
  by (auto simp: dict_get_def map_of_eq_None_iff split: option.splits)

lemma closed_object [closed]: "fails_closed (expect_object v)"
  by (cases v) simp_all

lemma closed_keys [closed]: "fails_closed (expect_exact_keys obj ks opt)"
  by (simp add: expect_exact_keys_def Let_def)

lemma closed_list [closed]: "fails_closed (expect_list v)"
  by (cases v) simp_all

lemma closed_text [closed]: "fails_closed (expect_text b v)"
  by (cases v) simp_all

lemma closed_optional [closed]: "fails_closed (expect_optional_string v)"
  by (cases v) (auto intro!: within_bind closed)

lemma closed_int [closed]: "fails_closed (expect_nonnegative_int v)"
  by (cases v) simp_all

lemma closed_unique [closed]: "fails_closed (unique_strings b v)"
  unfolding unique_strings_def by (intro within_bind closed closed_map) simp

lemma closed_tree: "fails_closed (validate_json_tree nfc v)"
proof (induction v rule: validate_json_tree.induct [of _ nfc])
qed (auto intro!: closed_each within_bind)

lemma closed_digest [closed]: "fails_closed (digest_json nfc sha256 v)"
  unfolding digest_json_def canonical_json_def by (intro within_bind closed_tree) simp_all

lemma closed_downward [closed]: "fails_closed (downward_closure ms)"
  unfolding downward_closure_def by (intro within_bind within_fold) (simp_all add: Let_def)

lemma closed_maxima [closed]: "fails_closed (parse_maxima v U)"
  unfolding parse_maxima_def parse_maximal_def by (intro within_bind closed closed_map) simp

section \<open>Occurrences and aliases\<close>

lemma closed_ref [closed]: "fails_closed (parse_occurrence_ref roles raw)"
  unfolding parse_occurrence_ref_def
  by (intro within_bind closed closed_guard closed_field; assumption?) simp_all

lemma closed_refs [closed]: "fails_closed (map_r (parse_occurrence_ref roles) items)"
  by (intro closed_map closed)

lemma closed_claim [closed]: "fails_closed (claim_refs occs alias_id owner refs)"
  unfolding claim_refs_def by (intro within_fold closed_guard) simp

lemma claimed_refs:
  assumes "claim_refs occs alias_id owner refs = Inr owner'"
  shows "set refs \<subseteq> fst ` set occs \<and> fst ` set owner' = fst ` set owner \<union> set refs \<and>
    (\<forall>ref. map_of owner' ref = (if ref \<in> set refs then Some alias_id else map_of owner ref)) \<and> fst ` set owner \<inter> set refs = {}"
  using assms
proof (induction refs arbitrary: owner)
  case (Cons ref refs)
  then have ref: "ref \<in> fst ` set occs" "ref \<notin> fst ` set owner" and rest: "claim_refs occs alias_id (AList.update ref alias_id owner) refs = Inr owner'"
    by (auto simp: claim_refs_def split: if_splits)
  show ?case using Cons.IH [OF rest] ref by (auto simp: update_keys update_conv')
qed (simp add: claim_refs_def)

definition groups_ok :: "occurrences \<Rightarrow> alias_state \<Rightarrow> bool" where
  "groups_ok occs st \<longleftrightarrow> (\<forall>(i, refs, anchor)\<in>set (parsed_groups st). refs \<noteq> [] \<and> set refs \<subseteq> fst ` set occs)"

lemma closed_members: "claim_refs occs alias_id owner refs = Inr owner' \<Longrightarrow> fails_closed (map_r (dict_get occs) refs)"
  by (intro closed_map closed_get) (drule claimed_refs, blast)

lemma closed_alias: "fails_closed (parse_alias occs roles st raw)"
  unfolding parse_alias_def
  by (intro within_bind closed closed_guard closed_field closed_members; assumption?) simp_all

lemma parse_alias_groups:
  assumes "parse_alias occs roles st raw = Inr st'" and "groups_ok occs st"
  shows "groups_ok occs st'"
proof -
  obtain i refs owner anchor ids where new: "claim_refs occs i (occurrence_group st) refs = Inr owner" "\<not> (length refs < 2 \<or> \<not> distinct refs)"
    "(Inr \<lparr>alias_ids = ids, occurrence_group = owner, parsed_groups = parsed_groups st @ [(i, sort refs, anchor)]\<rparr> :: alias_state result) = Inr st'"
    using assms(1) unfolding parse_alias_def field_def by - (elim bindE guardE, rule that)
  have "parsed_groups st' = parsed_groups st @ [(i, sort refs, anchor)]" using new(3) by auto
  moreover have "refs \<noteq> []" using new(2) by auto
  then have "sort refs \<noteq> []" by (metis set_empty set_sort)
  moreover have "set (sort refs) \<subseteq> fst ` set occs" using claimed_refs [OF new(1)] by simp
  ultimately show ?thesis using assms(2) by (simp add: groups_ok_def)
qed

lemma closed_anchor [closed]: "fails_closed (check_anchor st row)"
  by (simp add: check_anchor_def Let_def)

lemma closed_alias_cell:
  assumes "groups_ok occs st" and "grp \<in> set (parsed_groups st)"
  shows "fails_closed (alias_cell nfc sha256 occs acc grp)"
proof -
  obtain i refs anchor where grp: "grp = (i, refs, anchor)" by (cases grp)
  have "refs \<noteq> []" "set refs \<subseteq> fst ` set occs" using assms by (auto simp: groups_ok_def grp)
  then have "hd refs \<in> fst ` set occs" by (metis hd_in_set subsetD)
  then show ?thesis unfolding alias_cell_def grp prod.case by (intro within_bind closed_get) (simp_all add: Let_def within_bind closed)
qed

lemma fold_update_keys: "fst ` set (fold (\<lambda>ref. AList.update ref c) refs m) = fst ` set m \<union> set refs"
  by (induction refs arbitrary: m) (auto simp: update_keys)

lemma alias_cell_keys:
  assumes "alias_cell nfc sha256 occs acc (i, refs, anchor) = Inr acc'"
  shows "fst ` set (fst acc') = fst ` set (fst acc) \<union> set refs"
proof -
  obtain oc digest where "acc' = (fold (\<lambda>ref m. AList.update ref (''alias:'' @ after_colon digest) m) refs (fst acc),
      snd acc @ [JObject ([(''id'', JString i), (''normalized_cell'', JString (''alias:'' @ after_colon digest))] @ alias_binding oc refs anchor)])"
    using assms by (auto simp: alias_cell_def Let_def)
  then show ?thesis by (simp add: fold_update_keys)
qed

lemma fold_setdefault_keys: "fst ` set (fold (\<lambda>ref m. setdefault ref (f ref) m) refs m) = fst ` set m \<union> set refs"
  by (induction refs arbitrary: m) (auto simp: setdefault_keys)

lemma parsed_aliases:
  assumes "fold_r (parse_alias occs roles) \<lparr>alias_ids = [], occurrence_group = [], parsed_groups = []\<rparr> items = Inr st"
  shows "groups_ok occs st"
  using assms by (rule fold_r_keeps) (simp add: groups_ok_def, rule parse_alias_groups)

lemma aliased_keys:
  assumes "fold_r (alias_cell nfc sha256 occs) ([], []) (sort_key fst (parsed_groups st)) = Inr acc" and "groups_ok occs st"
  shows "fst ` set (fst acc) \<subseteq> fst ` set occs"
proof -
  have step: "fst ` set (fst a') \<subseteq> fst ` set occs"
    if "x \<in> set (sort_key fst (parsed_groups st))" "fst ` set (fst a) \<subseteq> fst ` set occs" "alias_cell nfc sha256 occs a x = Inr a'" for a x a'
  proof -
    obtain i refs anchor where x: "x = (i, refs, anchor)" by (cases x)
    have "set refs \<subseteq> fst ` set occs" using assms(2) that(1) by (auto simp: groups_ok_def x)
    then show ?thesis using alias_cell_keys that(2,3) unfolding x by blast
  qed
  show ?thesis
  proof (rule fold_r_keeps [OF assms(1), where P = "\<lambda>a. fst ` set (fst a) \<subseteq> fst ` set occs"])
    show "fst ` set (fst ([], [])) \<subseteq> fst ` set occs" by simp
  qed (rule step)
qed

lemma closed_normalize [closed]: "fails_closed (normalize_occurrences nfc sha256 occs raw roles)"
  unfolding normalize_occurrences_def
proof (intro within_bind closed)
  fix items st u
  assume st: "fold_r (parse_alias occs roles) \<lparr>alias_ids = [], occurrence_group = [], parsed_groups = []\<rparr> items = Inr st"
  note ok = parsed_aliases [OF st]
  show "fails_closed (fold_r (alias_cell nfc sha256 occs) ([], []) (sort_key fst (parsed_groups st)))"
    by (rule within_fold) (rule closed_alias_cell [OF ok], simp)
  fix acc assume acc: "fold_r (alias_cell nfc sha256 occs) ([], []) (sort_key fst (parsed_groups st)) = Inr acc"
  let ?m = "\<lambda>m. fold (\<lambda>ref m. setdefault ref (independent_cell_id ref) m) (sort (map fst occs)) m"
  have "fst ` set (?m (fst acc)) \<subseteq> fst ` set occs" using aliased_keys [OF acc ok] by (simp add: fold_setdefault_keys)
  then have "fails_closed (fold_r (group_occurrence occs) [] (?m (fst acc)))"
    unfolding group_occurrence_def by (intro within_fold within_bind closed_get) auto
  then show "fails_closed (case acc of (aliased, alias_output) \<Rightarrow>
      let occurrence_to_cell = ?m aliased in
      bind_r (fold_r (group_occurrence occs) [] occurrence_to_cell) (\<lambda>grouped.
        let normalized = map normalize_cell grouped in
        if length normalized > max_target_cells then Inl (SchemaError ''target has too many normalized cells'')
        else Inr (occurrence_to_cell, normalized, alias_output)))"
    unfolding split_def Let_def by (intro within_bind) simp_all
qed (rule within_fold closed_alias closed_each closed)+

lemma normalize_run:
  assumes "normalize_occurrences nfc sha256 occs raw roles = Inr (o2c, cells, out)"
  obtains items st acc grouped where "fold_r (parse_alias occs roles) \<lparr>alias_ids = [], occurrence_group = [], parsed_groups = []\<rparr> items = Inr st"
    "\<forall>row\<in>set (by_anchor occs). check_anchor st row = Inr ()"
    "fold_r (alias_cell nfc sha256 occs) ([], []) (sort_key fst (parsed_groups st)) = Inr acc"
    "o2c = fold (\<lambda>ref m. setdefault ref (independent_cell_id ref) m) (sort (map fst occs)) (fst acc)"
    "fold_r (group_occurrence occs) [] o2c = Inr grouped" "cells = map normalize_cell grouped"
proof -
  obtain items st u acc grouped where run: "fold_r (parse_alias occs roles) \<lparr>alias_ids = [], occurrence_group = [], parsed_groups = []\<rparr> items = Inr st"
    "each_r (check_anchor st) (by_anchor occs) = Inr u"
    "fold_r (alias_cell nfc sha256 occs) ([], []) (sort_key fst (parsed_groups st)) = Inr acc"
    "fold_r (group_occurrence occs) [] (fold (\<lambda>ref m. setdefault ref (independent_cell_id ref) m) (sort (map fst occs)) (fst acc)) = Inr grouped"
    "(Inr (fold (\<lambda>ref m. setdefault ref (independent_cell_id ref) m) (sort (map fst occs)) (fst acc), map normalize_cell grouped, snd acc) ::
      ((occurrence_ref \<times> string) list \<times> (string \<times> normalized_cell) list \<times> json list) result) = Inr (o2c, cells, out)"
    using assms unfolding normalize_occurrences_def Let_def split_def by - (elim bindE guardE, rule that)
  then show thesis by (intro that [of items st acc grouped]) (simp_all add: each_r_Inr_iff)
qed

lemma normalize_keys:
  assumes "normalize_occurrences nfc sha256 occs raw roles = Inr (o2c, cells, out)"
  shows "fst ` set o2c = fst ` set occs"
proof (rule normalize_run [OF assms])
  fix items st acc grouped
  assume st: "fold_r (parse_alias occs roles) \<lparr>alias_ids = [], occurrence_group = [], parsed_groups = []\<rparr> items = Inr st"
    and acc: "fold_r (alias_cell nfc sha256 occs) ([], []) (sort_key fst (parsed_groups st)) = Inr acc"
    and o2c: "o2c = fold (\<lambda>ref m. setdefault ref (independent_cell_id ref) m) (sort (map fst occs)) (fst acc)"
  show ?thesis using aliased_keys [OF acc parsed_aliases [OF st]] by (auto simp: o2c fold_setdefault_keys)
qed

section \<open>Receipts and the source envelope\<close>

lemma closed_receipt [closed]: "fails_closed (parse_receipt raw)"
  unfolding parse_receipt_def by (intro within_bind closed closed_guard closed_field; assumption?) simp_all

lemma parse_receipt_phase:
  assumes "parse_receipt raw = Inr r"
  shows "receipt_phase r \<in> fst ` set phase_rank"
proof -
  obtain phase i a b c d e f where "\<not> phase \<notin> fst ` set phase_rank"
    "(Inr \<lparr>receipt_id = i, receipt_authority = a, receipt_atom = b, receipt_anchor = c, receipt_epoch = d,
          receipt_operation = e, receipt_effect = f, receipt_phase = phase\<rparr> :: ledger_receipt result) = Inr r"
    using assms unfolding parse_receipt_def field_def by - (elim bindE guardE, rule that)
  then show ?thesis by (auto simp del: fst_conv)
qed

definition receipts_ok :: "(string \<times> ledger_receipt) list \<Rightarrow> bool" where
  "receipts_ok rs \<longleftrightarrow> (\<forall>(i, r)\<in>set rs. receipt_phase r \<in> fst ` set phase_rank)"

lemma closed_add_receipt: "fails_closed (add_receipt auth_id atom_set acc raw)"
  unfolding add_receipt_def by (intro within_bind closed closed_guard) simp

lemma add_receipt_ok:
  assumes "add_receipt auth_id atom_set acc raw = Inr acc'" and "receipts_ok (fst acc)"
  shows "receipts_ok (fst acc')"
proof -
  obtain r where r: "parse_receipt raw = Inr r" "fst acc' = AList.update (receipt_id r) r (fst acc)"
    using assms(1) by (auto simp: add_receipt_def split: if_splits)
  have "receipt_phase r' \<in> fst ` set phase_rank" if "(i, r') \<in> set (fst acc')" for i r'
    using set_alist_update [OF that [unfolded r(2)]] parse_receipt_phase [OF r(1)] assms(2) by (auto simp: receipts_ok_def)
  then show ?thesis unfolding receipts_ok_def by blast
qed

lemma closed_receipts [closed]: "fails_closed (parse_receipts raw auth_id atom_set)"
  unfolding parse_receipts_def by (intro within_bind closed within_fold closed_add_receipt) simp

lemma parse_receipts_ok:
  assumes "parse_receipts raw auth_id atom_set = Inr rs"
  shows "receipts_ok rs"
proof -
  obtain items acc where "fold_r (add_receipt auth_id atom_set) ([], []) items = Inr acc" "rs = fst acc"
    using assms by (auto simp: parse_receipts_def)
  then show ?thesis using fold_r_keeps [of "add_receipt auth_id atom_set" "([], [])" items acc "\<lambda>acc. receipts_ok (fst acc)"] add_receipt_ok
    by (simp add: receipts_ok_def)
qed

lemma closed_check_receipt:
  assumes "receipts_ok current" and "receipts_ok rs" and "row \<in> set rs"
  shows "fails_closed (check_receipt current row)"
proof (cases "map_of current (fst row)")
  case (Some now)
  have "receipt_phase now \<in> fst ` set phase_rank" "receipt_phase (snd row) \<in> fst ` set phase_rank"
    using bspec [OF assms(1) [unfolded receipts_ok_def] map_of_SomeD [OF Some]] bspec [OF assms(2) [unfolded receipts_ok_def] assms(3)]
    by (simp_all add: split_beta)
  then show ?thesis unfolding check_receipt_def Some option.case by (intro within_bind closed_guard closed_get) simp_all
qed (simp add: check_receipt_def)

lemma closed_source_cell: "fails_closed (add_source_cell atom_set acc raw)"
  unfolding add_source_cell_def by (intro within_bind closed closed_guard closed_field; assumption?) simp_all

lemma closed_lease: "fails_closed (add_lease cells version leases raw)"
  unfolding add_lease_def by (intro within_bind closed closed_guard closed_field closed_get; assumption?) simp_all

lemma closed_source_config:
  assumes "finite c" and "c \<subseteq> fst ` set lin"
  shows "fails_closed (check_source_config A D lin c)"
  using config_obstructions_ok [OF assms, of A D] by (auto simp: check_source_config_def)

lemma closed_receipt_rows:
  assumes "field (\<lambda>v. parse_receipts v auth_id atom_set) obj k = Inr receipts"
    and "field (\<lambda>v. parse_receipts v auth_id atom_set) raw k' = Inr ledger"
  shows "fails_closed (each_r (check_receipt ledger) receipts)"
proof -
  have "receipts_ok receipts" "receipts_ok ledger" using assms parse_receipts_ok by (auto simp: field_def)
  then show ?thesis by (intro closed_each closed_check_receipt)
qed

lemma closed_source_rows:
  assumes "field (\<lambda>v. parse_maxima v (fst ` set cells)) obj k = Inr future" and "\<not> support future \<noteq> fst ` set cells"
  shows "fails_closed (each_r (check_source_config A D (map (\<lambda>p. (fst p, source_atom (snd p))) cells)) (sorted_configs future))"
proof (intro closed_each closed_source_config)
  fix c assume c: "c \<in> set (sorted_configs future)"
  have cx: "complex future" using assms(1) parse_maxima_inside by (auto simp: field_def)
  have mem: "c \<in> future" using c complexD(1,2) [OF cx] by simp
  then show "finite c" by (rule complexD(2) [OF cx])
  have "fst ` set (map (\<lambda>p. (fst p, source_atom (snd p))) cells) = support future" using assms(2) by (simp add: image_image)
  then show "c \<subseteq> fst ` set (map (\<lambda>p. (fst p, source_atom (snd p))) cells)" using mem by (auto simp: support_def)
qed

lemma closed_source:
  assumes "expect_exact_keys raw ks opt = Inr u" and "''source'' \<in> set ks" and "''ledger'' \<in> set ks"
  shows "fails_closed (parse_source raw auth_id atom_set A)"
  unfolding parse_source_def split_def
  by (insert assms, intro within_bind closed closed_guard closed_field within_fold closed_source_cell closed_lease
      closed_receipt_rows closed_source_rows; assumption?) simp_all

section \<open>The operation\<close>

lemma closed_arm_cell: "fails_closed (add_arm_cell role atom_set cells leases acc raw)"
  unfolding add_arm_cell_def Let_def by (intro within_bind closed closed_guard closed_field; assumption?) simp_all

lemma closed_arm:
  assumes "expect_exact_keys operation ks opt = Inr u" and "role \<in> set ks"
  shows "fails_closed (parse_arm operation atom_set cells leases st role)"
  unfolding parse_arm_def split_def
  by (insert assms, intro within_bind closed closed_guard closed_field within_fold closed_arm_cell; assumption?) simp_all

lemma closed_mapping:
  assumes "fst ` set occs \<subseteq> fst ` set o2c"
  shows "fails_closed (role_mapping occs o2c role)"
  unfolding role_mapping_def using assms by (intro closed_map within_bind closed_get) auto

lemma map_r_same:
  assumes "map_r f xs = Inr ys" and "\<And>x y. f x = Inr y \<Longrightarrow> fst y = snd x"
  shows "snd ` set xs = fst ` set ys"
  using assms(1)
proof (induction xs arbitrary: ys)
  case (Cons x xs)
  then obtain y zs where "f x = Inr y" "map_r f xs = Inr zs" "ys = y # zs" by auto
  then show ?case using Cons.IH [of zs] assms(2) by simp
qed simp

lemma mapping_keys:
  assumes "role_mapping occs o2c role = Inr mapping" and "(role, l) \<in> fst ` set occs"
  shows "l \<in> fst ` set mapping"
proof -
  let ?refs = "filter (\<lambda>ref. fst ref = role) (map fst occs)"
  have "snd ` set ?refs = fst ` set mapping"
    using assms(1) unfolding role_mapping_def by (rule map_r_same) auto
  moreover have "(role, l) \<in> set ?refs" using assms(2) by simp
  ultimately show ?thesis by (metis image_eqI snd_conv)
qed

lemma closed_remap:
  assumes "complex F" and "support F \<subseteq> fst ` set mapping"
  shows "fails_closed (remap_family F mapping)"
proof -
  have F: "set (sorted_configs F) = F" using complexD(1,2) [OF assms(1)] by simp
  have "fails_closed (remap_config mapping c)" if "c \<in> F" for c
    unfolding remap_config_def
    by (intro within_bind closed_map closed_get) (use that assms complexD(2) [OF assms(1) that] in \<open>auto simp: support_def\<close>)
  then show ?thesis unfolding remap_family_def by (intro within_bind closed_map) (simp_all add: F)
qed

lemma closed_remap_role:
  assumes "fst ` set (arm_occurrences st) \<subseteq> fst ` set o2c" and "arm_ok (arm_occurrences st) (arm_may st) (arm_required st) role"
  shows "fails_closed (remap_role st o2c acc role)"
proof -
  obtain may req where arm: "map_of (arm_may st) role = Some may" "map_of (arm_required st) role = Some req" "complex may" "complex req" "req \<subseteq> may"
    "\<forall>l\<in>support may. (role, l) \<in> fst ` set (arm_occurrences st)" using assms(2) unfolding arm_ok_def by blast
  have "support req \<subseteq> support may" by (rule support_mono [OF arm(5)])
  then have "support may \<subseteq> fst ` set mapping" "support req \<subseteq> fst ` set mapping"
    if "role_mapping (arm_occurrences st) o2c role = Inr mapping" for mapping using mapping_keys [OF that] arm(6) by blast+
  then show ?thesis unfolding remap_role_def
    by (intro within_bind closed_mapping [OF assms(1)]) (auto simp: arm(1,2) intro!: closed_remap arm(3,4))
qed

section \<open>Controllers\<close>

lemma closed_check_refs [closed]: "fails_closed (check_refs occs refs)"
  unfolding check_refs_def by (intro closed_each closed_guard) simp

lemma closed_cells:
  assumes "check_refs occs refs = Inr u" and "fst ` set occs \<subseteq> fst ` set o2c"
  shows "fails_closed (map_r (dict_get o2c) refs)"
  using assms by (intro closed_map closed_get) (auto simp: check_refs_def each_r_Inr_iff split: if_splits)

lemma closed_ref_family:
  assumes "fst ` set occs \<subseteq> fst ` set o2c"
  shows "fails_closed (parse_ref_family roles occs o2c raw)"
proof -
  have "fails_closed (parse_ref_config roles occs o2c v)" for v
    unfolding parse_ref_config_def by (intro within_bind closed closed_guard closed_cells [OF _ assms]; assumption?) simp
  then show ?thesis unfolding parse_ref_family_def by (intro within_bind closed closed_map)
qed

lemma closed_gate_use:
  assumes "fst ` set occs \<subseteq> fst ` set o2c"
  shows "fails_closed (add_gate_use roles occs o2c acc raw)"
  unfolding add_gate_use_def
  by (intro within_bind closed closed_guard closed_field closed_ref_family [OF assms] closed_cells [OF _ assms]; assumption?)
    (simp_all split: option.split)

lemma closed_controllers:
  assumes "fst ` set occs \<subseteq> fst ` set o2c"
  shows "fails_closed (parse_controllers uses future_raw roles occs o2c)"
  unfolding parse_controllers_def split_def by (intro within_bind closed closed_guard within_fold closed_gate_use [OF assms]) simp

section \<open>Documents\<close>

lemma parsed_arms:
  assumes "fold_r (parse_arm obj atom_set cells leases) \<lparr>arm_occurrences = [], arm_coverage = [], arm_may = [], arm_required = []\<rparr> roles = Inr arms"
  shows "occurrences_ok cells (arm_occurrences arms)"
    "\<And>r. r \<in> set roles \<Longrightarrow> arm_ok (arm_occurrences arms) (arm_may arms) (arm_required arms) r"
proof -
  have "occurrences_ok cells (arm_occurrences arms) \<and>
    (\<forall>r\<in>{} \<union> set roles. arm_ok (arm_occurrences arms) (arm_may arms) (arm_required arms) r)"
    using assms by (rule fold_r_each) (simp_all add: occurrences_ok_def parse_arm_keeps [unfolded occurrences_ok_def])
  then show "occurrences_ok cells (arm_occurrences arms)"
    "\<And>r. r \<in> set roles \<Longrightarrow> arm_ok (arm_occurrences arms) (arm_may arms) (arm_required arms) r" by simp_all
qed

lemma closed_remap_roles:
  assumes "fold_r (parse_arm obj atom_set cells leases) \<lparr>arm_occurrences = [], arm_coverage = [], arm_may = [], arm_required = []\<rparr> roles = Inr arms"
    and "field (\<lambda>v. normalize_occurrences nfc sha256 (arm_occurrences arms) v roles) obj k = Inr norm"
  shows "fails_closed (fold_r (remap_role arms (fst norm)) ([], []) roles)" "fails_closed (parse_controllers uses fut roles (arm_occurrences arms) (fst norm))"
proof -
  obtain o2c cells out where norm: "norm = (o2c, cells, out)" by (cases norm)
  obtain v where "normalize_occurrences nfc sha256 (arm_occurrences arms) v roles = Inr (o2c, cells, out)"
    using assms(2) by (auto simp: field_def norm)
  then have keys: "fst ` set (arm_occurrences arms) \<subseteq> fst ` set (fst norm)" using normalize_keys norm by simp
  show "fails_closed (fold_r (remap_role arms (fst norm)) ([], []) roles)"
    by (rule within_fold, rule closed_remap_role [OF keys], rule parsed_arms(2) [OF assms(1)])
  show "fails_closed (parse_controllers uses fut roles (arm_occurrences arms) (fst norm))" by (rule closed_controllers [OF keys])
qed

lemma closed_arms:
  assumes "expect_exact_keys obj ks opt = Inr u" and "set roles \<subseteq> set ks"
  shows "fails_closed (fold_r (parse_arm obj atom_set cells leases) st roles)"
  by (rule within_fold, rule closed_arm [OF assms(1)]) (use assms(2) in blast)

lemma closed_key:
  assumes "expect_exact_keys obj ks opt = Inr u" and "k \<in> set ks"
  shows "fails_closed (dict_get obj k)"
  using closed_field [OF assms, of Inr] by (cases "dict_get obj k") (simp_all add: field_def)

lemma closed_body: "fails_closed (operation_body nfc sha256 obj atom_set src kind roles)"
  unfolding operation_body_def split_def
  by (intro within_bind closed closed_guard closed_field closed_arms closed_remap_roles closed_key; assumption?) (simp_all, blast)

lemma closed_operation:
  assumes "expect_exact_keys raw ks opt = Inr u" and "''operation'' \<in> set ks"
  shows "fails_closed (parse_operation nfc sha256 raw atom_set src)"
  unfolding parse_operation_def
  by (insert assms, intro within_bind closed closed_field; assumption?) (simp_all add: closed_body split: option.split)

lemma closed_authority:
  assumes "expect_exact_keys raw ks opt = Inr u" and "''authority'' \<in> set ks"
  shows "fails_closed (parse_authority raw)"
  unfolding parse_authority_def
  by (insert assms, intro within_bind closed closed_guard closed_field; assumption?) simp_all

lemma closed_request: "fails_closed (parse_request nfc sha256 document)"
  unfolding parse_request_def split_def
  by (intro within_bind closed closed_guard closed_field closed_authority closed_source closed_operation; assumption?) simp_all

text \<open>
  C5. Accepted documents are well-formed. Whatever the document, the Unicode normalization and the
  digest, a request the parser returns has complexes as authority, source future, role families and
  local controller families, with the required below the permitted ones, over the declared cells; its
  durable atoms lie in the authority, its source envelope has no obstruction, its normalized cells
  have distinct names and declared parents, and its co-liveness is over the declared controllers.
\<close>

theorem parsed_requests_well_formed:
  assumes "parse_request nfc sha256 document = Inr p"
  shows "request_ok p"
  by (rule parsed_ok [OF assms])


end
