(* ===== verification/Anchors.thy ===== *)
theory Anchors
  imports Failures
begin

text \<open>
  The identity of normalized cells: two occurrences get one cell exactly when they have one stable
  cell anchor, unless the digest collides. The text of a binding is decodable up to the anchor, and
  percent encoding is injective.
\<close>

section \<open>Decoding quoted text\<close>

lemma hex_digit_inject: "m < 16 \<Longrightarrow> n < 16 \<Longrightarrow> hex_digit m = hex_digit n \<Longrightarrow> m = n"
  by (drule arg_cong [where f = "of_char :: char \<Rightarrow> nat"]) (auto simp: hex_digit_def split: if_splits)

definition short_escapes :: "(nat \<times> nat) list" where
  "short_escapes = [(34, 34), (92, 92), (8, 98), (9, 116), (10, 110), (12, 102), (13, 114)]"

lemma char_of_same: "(m :: nat) < 256 \<Longrightarrow> n < 256 \<Longrightarrow> char_of m = (char_of n :: char) \<longleftrightarrow> m = n"
  by (metis of_char_of mod_less)

lemma char_code: "(of_char c :: nat) = n \<Longrightarrow> c = char_of n"
  by auto

lemma escape_kinds:
  obtains "escape_char c = [c]" "c \<noteq> char_of (34 :: nat)" "c \<noteq> char_of (92 :: nat)"
  | k x where "(k, x) \<in> set short_escapes" "c = char_of k" "escape_char c = [char_of (92 :: nat), char_of x]"
  | "(of_char c :: nat) < 32" "escape_char c = [char_of (92 :: nat), char_of (117 :: nat), CHR ''0'', CHR ''0'',
      hex_digit (of_char c div 16), hex_digit (of_char c mod 16)]"
proof -
  let ?n = "of_char c :: nat"
  have letters: "CHR ''b'' = char_of (98 :: nat)" "CHR ''t'' = char_of (116 :: nat)" "CHR ''n'' = char_of (110 :: nat)"
    "CHR ''f'' = char_of (102 :: nat)" "CHR ''r'' = char_of (114 :: nat)" "CHR ''u'' = char_of (117 :: nat)"
    by (rule char_code, simp)+
  consider (short) "?n \<in> {34, 92, 8, 9, 10, 12, 13}" | (hex) "?n \<notin> {34, 92, 8, 9, 10, 12, 13}" "?n < 32"
    | (plain) "?n \<notin> {34, 92}" "\<not> ?n < 32" by blast
  then show thesis
  proof cases
    case short
    then have "(?n, the (map_of short_escapes ?n)) \<in> set short_escapes" by (auto simp: short_escapes_def)
    moreover have "escape_char c = [char_of (92 :: nat), char_of (the (map_of short_escapes ?n))]"
      using short by (auto simp: escape_char_def Let_def letters short_escapes_def)
    ultimately show thesis by (rule that(2) [OF _ char_code [OF refl]])
  next
    case hex
    then show thesis by (intro that(3)) (simp_all add: escape_char_def Let_def letters)
  next
    case plain
    then show thesis by (intro that(1)) (auto simp: escape_char_def Let_def)
  qed
qed

lemma short_escapes_less: "(k, x) \<in> set short_escapes \<Longrightarrow> k < 256 \<and> x < 256 \<and> x \<noteq> 117"
  by (auto simp: short_escapes_def)

lemma short_escapes_inject: "(k, x) \<in> set short_escapes \<Longrightarrow> (k', x) \<in> set short_escapes \<Longrightarrow> k = k'"
  by (auto simp: short_escapes_def)

lemma escape_inject:
  assumes "escape_char c @ xs = escape_char d @ ys"
  shows "c = d \<and> xs = ys"
proof (cases rule: escape_kinds [of c])
  case 1
  show ?thesis by (cases rule: escape_kinds [of d]) (use 1 assms in auto)
next
  case (2 k x)
  show ?thesis
  proof (cases rule: escape_kinds [of d])
    case (2 k' x')
    have "char_of x = (char_of x' :: char)" using assms 2 \<open>escape_char c = _\<close> by simp
    then have "x = x'" using short_escapes_less 2(1) \<open>(k, x) \<in> _\<close> by (metis char_of_same)
    then show ?thesis using short_escapes_inject [of k x k'] 2 \<open>(k, x) \<in> _\<close> \<open>c = _\<close> \<open>escape_char c = _\<close> assms by auto
  next
    case 3
    have "char_of x = (char_of (117 :: nat) :: char)" using assms 3 \<open>escape_char c = _\<close> by simp
    then have False using short_escapes_less [OF \<open>(k, x) \<in> _\<close>] by (simp add: char_of_same)
    then show ?thesis ..
  qed (use assms \<open>escape_char c = _\<close> in auto)
next
  case 3
  show ?thesis
  proof (cases rule: escape_kinds [of d])
    case (2 k' x')
    have "char_of x' = (char_of (117 :: nat) :: char)" using assms 2 3 by simp
    then have False using short_escapes_less [OF 2(1)] by (simp add: char_of_same)
    then show ?thesis ..
  next
    case d: 3
    have "hex_digit (of_char c div 16) = hex_digit (of_char d div 16)" "hex_digit (of_char c mod 16) = hex_digit (of_char d mod 16)" "xs = ys"
      using assms 3 d by simp_all
    note eq = this
    have "(of_char c :: nat) div 16 < 16" "(of_char d :: nat) div 16 < 16" using 3(1) d(1) by simp_all
    then have "(of_char c :: nat) div 16 = of_char d div 16" "(of_char c :: nat) mod 16 = of_char d mod 16"
      using hex_digit_inject [OF _ _ eq(1)] hex_digit_inject [OF _ _ eq(2)] by simp_all
    then have "(of_char c :: nat) = of_char d" by (metis div_mult_mod_eq)
    then show ?thesis using eq(3) by simp
  qed (use assms 3 in auto)
qed

lemma escape_not_quote: "escape_char c @ xs \<noteq> char_of (34 :: nat) # ys"
  by (cases rule: escape_kinds [of c]) (auto simp: char_of_same)

lemma quoted_inject:
  assumes "concat (map escape_char s) @ char_of (34 :: nat) # xs = concat (map escape_char t) @ char_of (34 :: nat) # ys"
  shows "s = t \<and> xs = ys"
  using assms
proof (induction s arbitrary: t)
  case Nil
  then show ?case by (cases t) (use escape_not_quote [symmetric] in auto)
next
  case (Cons c s)
  show ?case
  proof (cases t)
    case Nil
    then show ?thesis using Cons.prems escape_not_quote by auto
  next
    case (Cons d u)
    have "escape_char c @ (concat (map escape_char s) @ char_of (34 :: nat) # xs) = escape_char d @ (concat (map escape_char u) @ char_of (34 :: nat) # ys)"
      using Cons.prems Cons by simp
    from escape_inject [OF this] Cons.IH [of u] Cons show ?thesis by blast
  qed
qed

lemma quote_string_inject: "quote_string s @ xs = quote_string t @ ys \<Longrightarrow> s = t \<and> xs = ys"
  using quoted_inject [of s xs t ys] by (simp add: quote_string_def)

section \<open>Percent encoding\<close>

lemma upper_hex_inject: "m < 16 \<Longrightarrow> n < 16 \<Longrightarrow> upper_hex m = upper_hex n \<Longrightarrow> m = n"
  by (drule arg_cong [where f = "of_char :: char \<Rightarrow> nat"]) (auto simp: upper_hex_def split: if_splits)

lemma url_quote_Nil [simp]: "url_quote [] = []"
  by (simp add: url_quote_def)

lemma url_quote_Cons: "url_quote (c # s) = (if unreserved c then [c]
     else [CHR ''%'', upper_hex (of_char c div 16), upper_hex (of_char c mod 16)]) @ url_quote s"
  by (simp add: url_quote_def)

lemma percent_reserved: "\<not> unreserved CHR ''%''" "\<not> unreserved CHR '':''"
  by (simp_all add: unreserved_def Let_def)

lemma url_quote_inject: "url_quote s = url_quote t \<Longrightarrow> s = t"
proof (induction s arbitrary: t)
  case Nil
  then show ?case by (cases t) (simp_all add: url_quote_Cons split: if_splits)
next
  case (Cons c s)
  show ?case
  proof (cases t)
    case Nil
    then show ?thesis using Cons.prems by (simp add: url_quote_Cons split: if_splits)
  next
    case t: (Cons d u)
    have range: "(of_char c :: nat) div 16 < 16" "(of_char d :: nat) div 16 < 16" using nat_of_char_less_256 [of c] nat_of_char_less_256 [of d] by (simp_all add: less_mult_imp_div_less)
    have "c = d \<and> url_quote s = url_quote u"
    proof (cases "unreserved c \<or> unreserved d")
      case True
      then show ?thesis using Cons.prems percent_reserved by (auto simp: t url_quote_Cons split: if_splits)
    next
      case False
      then have eq: "upper_hex (of_char c div 16) = upper_hex (of_char d div 16)" "upper_hex (of_char c mod 16) = upper_hex (of_char d mod 16)"
          "url_quote s = url_quote u" using Cons.prems by (simp_all add: t url_quote_Cons)
      have "(of_char c :: nat) div 16 = of_char d div 16" "(of_char c :: nat) mod 16 = of_char d mod 16"
        using upper_hex_inject [OF range eq(1)] upper_hex_inject [OF _ _ eq(2)] by simp_all
      then have "(of_char c :: nat) = of_char d" by (metis div_mult_mod_eq)
      then show ?thesis using eq(3) by simp
    qed
    then show ?thesis using Cons.IH t by simp
  qed
qed

lemma colon_not_quoted: "CHR '':'' \<notin> set (url_quote s)"
proof (induction s)
  case (Cons c s)
  have "CHR '':'' \<noteq> upper_hex n" if "n < 16" for n
    using that by (auto simp: upper_hex_def dest!: arg_cong [where f = "of_char :: char \<Rightarrow> nat"] split: if_splits)
  moreover have "(of_char c :: nat) div 16 < 16" using nat_of_char_less_256 [of c] by (simp add: less_mult_imp_div_less)
  ultimately show ?case using Cons.IH percent_reserved(2) by (auto simp: url_quote_Cons)
qed simp

lemma independent_inject:
  assumes "independent_cell_id a = independent_cell_id b"
  shows "a = b"
proof -
  have "rev (url_quote (snd a)) @ CHR '':'' # rev (fst a) = rev (url_quote (snd b)) @ CHR '':'' # rev (fst b)"
    using arg_cong [OF assms, of rev] by (simp add: independent_cell_id_def)
  from append_sep_inject [OF _ _ this] have "url_quote (snd a) = url_quote (snd b)" "fst a = fst b" by (simp_all add: colon_not_quoted)
  then show ?thesis using url_quote_inject by (simp add: prod_eq_iff)
qed

section \<open>The text of a binding\<close>

lemma dumps_binding:
  "dumps (JObject (alias_binding oc refs anchor)) = ''{'' @ quote_string ''atom'' @ '':'' @ quote_string (occ_atom oc) @ '','' @
     quote_string ''cell_anchor'' @ '':'' @ quote_string anchor @ '','' @
     join '','' [quote_string ''commitment_key'' @ '':'' @ quote_string (occ_key oc),
       quote_string ''effect_binding_digest'' @ '':'' @ quote_string (occ_effect oc),
       quote_string ''members'' @ '':'' @ dumps (JList (map (JString \<circ> occurrence_key) refs))] @ ''}''"
  by (simp add: alias_binding_def)

lemma dumps_binding_anchor:
  assumes "dumps (JObject (alias_binding oc refs anchor)) = dumps (JObject (alias_binding oc' refs' anchor'))"
  shows "anchor = anchor'"
proof -
  let ?tail = "\<lambda>oc refs. '','' @ join '','' [quote_string ''commitment_key'' @ '':'' @ quote_string (occ_key oc),
       quote_string ''effect_binding_digest'' @ '':'' @ quote_string (occ_effect oc),
       quote_string ''members'' @ '':'' @ dumps (JList (map (JString \<circ> occurrence_key) refs))] @ ''}''"
  let ?rest = "\<lambda>oc refs anchor. '','' @ quote_string ''cell_anchor'' @ '':'' @ quote_string anchor @ ?tail oc refs"
  have "quote_string (occ_atom oc) @ ?rest oc refs anchor = quote_string (occ_atom oc') @ ?rest oc' refs' anchor'"
    using assms unfolding dumps_binding by (simp only: append_assoc same_append_eq)
  from quote_string_inject [OF this] have "?rest oc refs anchor = ?rest oc' refs' anchor'" by (rule conjunct2)
  then have "quote_string anchor @ ?tail oc refs = quote_string anchor' @ ?tail oc' refs'" by (simp only: append_assoc same_append_eq)
  from quote_string_inject [OF this] show ?thesis by (rule conjunct1)
qed

lemma digest_text:
  assumes "digest_json nfc sha256 v = Inr d"
  shows "after_colon d = sha256 (dumps v)"
  using assms by (auto simp: digest_json_def canonical_json_def after_colon_def)

section \<open>What the alias groups guarantee\<close>

definition aliases_ok :: "occurrences \<Rightarrow> alias_state \<Rightarrow> bool" where
  "aliases_ok occs st \<longleftrightarrow> set (map fst (parsed_groups st)) \<subseteq> set (alias_ids st) \<and> distinct (map fst (parsed_groups st)) \<and>
     (\<forall>(i, refs, anchor)\<in>set (parsed_groups st). \<forall>ref\<in>set refs. map_of (occurrence_group st) ref = Some i \<and>
        (\<exists>oc. map_of occs ref = Some oc \<and> occ_anchor oc = anchor)) \<and>
     (\<forall>ref i. map_of (occurrence_group st) ref = Some i \<longrightarrow> (\<exists>refs anchor. (i, refs, anchor) \<in> set (parsed_groups st) \<and> ref \<in> set refs))"

lemma map_r_dict_values:
  "map_r (dict_get d) ks = Inr vs \<Longrightarrow> k \<in> set ks \<Longrightarrow> \<exists>v\<in>set vs. map_of d k = Some v"
  by (induction ks arbitrary: vs) (auto simp: dict_get_Inr)

lemma card_one_all: "card (f ` set xs) = 1 \<Longrightarrow> x \<in> set xs \<Longrightarrow> f x = f (hd xs)"
  by (cases xs) (auto simp: card_1_singleton_iff)

lemma parse_alias_ok:
  assumes "parse_alias occs roles st raw = Inr st'" and "aliases_ok occs st"
  shows "aliases_ok occs st'"
proof -
  obtain i refs owner members anchor where new: "\<not> i \<in> set (alias_ids st)" "claim_refs occs i (occurrence_group st) refs = Inr owner"
    "map_r (dict_get occs) refs = Inr members" "\<not> card (set (map identity_row members)) \<noteq> 1" "\<not> occ_anchor (hd members) \<noteq> anchor"
    "(Inr \<lparr>alias_ids = alias_ids st @ [i], occurrence_group = owner, parsed_groups = parsed_groups st @ [(i, sort refs, anchor)]\<rparr> :: alias_state result) = Inr st'"
    using assms(1) unfolding parse_alias_def field_def by - (elim bindE guardE, rule that)
  have st': "alias_ids st' = alias_ids st @ [i]" "occurrence_group st' = owner" "parsed_groups st' = parsed_groups st @ [(i, sort refs, anchor)]"
    using new(6) by auto
  note own = claimed_refs [OF new(2)]
  have same: "\<exists>oc. map_of occs ref = Some oc \<and> occ_anchor oc = anchor" if ref: "ref \<in> set refs" for ref
  proof -
    obtain oc where oc: "oc \<in> set members" "map_of occs ref = Some oc" using map_r_dict_values [OF new(3) ref] by blast
    have "identity_row oc = identity_row (hd members)" using new(4) oc(1) by (intro card_one_all) simp_all
    then show ?thesis using oc(2) new(5) by (auto simp: identity_row_def)
  qed
  have fresh: "i \<notin> fst ` set (parsed_groups st)" using assms(2) new(1) by (auto simp: aliases_ok_def)
  show ?thesis unfolding aliases_ok_def
  proof (intro conjI)
    show "set (map fst (parsed_groups st')) \<subseteq> set (alias_ids st')" "distinct (map fst (parsed_groups st'))"
      using assms(2) fresh unfolding aliases_ok_def st' by auto
    show "\<forall>(j, rs, a)\<in>set (parsed_groups st'). \<forall>ref\<in>set rs. map_of (occurrence_group st') ref = Some j \<and>
        (\<exists>oc. map_of occs ref = Some oc \<and> occ_anchor oc = a)"
    proof clarify
      fix j rs a x y assume g: "(j, rs, a) \<in> set (parsed_groups st')" and r: "(x, y) \<in> set rs"
      show "map_of (occurrence_group st') (x, y) = Some j \<and> (\<exists>oc. map_of occs (x, y) = Some oc \<and> occ_anchor oc = a)"
      proof (cases "(j, rs, a) \<in> set (parsed_groups st)")
        case True
        then have old: "map_of (occurrence_group st) (x, y) = Some j" "\<exists>oc. map_of occs (x, y) = Some oc \<and> occ_anchor oc = a"
          using assms(2) r unfolding aliases_ok_def by blast+
        then have "(x, y) \<in> fst ` set (occurrence_group st)" by (metis domI dom_map_of_conv_image_fst)
        then have "(x, y) \<notin> set refs" using own by blast
        then show ?thesis using old own st'(2) by simp
      next
        case False
        then have "j = i" "rs = sort refs" "a = anchor" using g st'(3) by auto
        then show ?thesis using own same r st'(2) by simp
      qed
    qed
    show "\<forall>ref j. map_of (occurrence_group st') ref = Some j \<longrightarrow> (\<exists>rs a. (j, rs, a) \<in> set (parsed_groups st') \<and> ref \<in> set rs)"
    proof (intro allI impI)
      fix ref j assume look: "map_of (occurrence_group st') ref = Some j"
      show "\<exists>rs a. (j, rs, a) \<in> set (parsed_groups st') \<and> ref \<in> set rs"
      proof (cases "ref \<in> set refs")
        case True
        then have "j = i" using look own st'(2) by simp
        then show ?thesis using True st'(3) by auto
      next
        case False
        then have "map_of (occurrence_group st) ref = Some j" using look own st'(2) by simp
        then obtain rs a where "(j, rs, a) \<in> set (parsed_groups st)" "ref \<in> set rs" using assms(2) unfolding aliases_ok_def by blast
        then show ?thesis using st'(3) by auto
      qed
    qed
  qed
qed

section \<open>The cells of the occurrences\<close>

lemma map_of_fold_update: "map_of (fold (\<lambda>ref. AList.update ref c) refs m) k = (if k \<in> set refs then Some c else map_of m k)"
  by (induction refs arbitrary: m) (auto simp: update_conv')

lemma map_of_fold_setdefault:
  "map_of (fold (\<lambda>ref m. setdefault ref (f ref) m) refs m) k =
     (case map_of m k of Some x \<Rightarrow> Some x | None \<Rightarrow> if k \<in> set refs then Some (f k) else None)"
  by (induction refs arbitrary: m) (auto simp: map_of_setdefault split: option.splits)

definition alias_id_of :: "(string \<Rightarrow> string) \<Rightarrow> occurrences \<Rightarrow> occurrence_ref list \<Rightarrow> string \<Rightarrow> string" where
  "alias_id_of sha256 occs refs anchor = ''alias:'' @ sha256 (dumps (JObject (alias_binding (the (map_of occs (hd refs))) refs anchor)))"

lemma alias_cell_map:
  assumes "alias_cell nfc sha256 occs acc (i, refs, anchor) = Inr acc'"
  shows "map_of (fst acc') k = (if k \<in> set refs then Some (alias_id_of sha256 occs refs anchor) else map_of (fst acc) k)"
proof -
  obtain oc digest where oc: "map_of occs (hd refs) = Some oc" and d: "digest_json nfc sha256 (JObject (alias_binding oc refs anchor)) = Inr digest"
    and acc': "fst acc' = fold (\<lambda>ref. AList.update ref (''alias:'' @ after_colon digest)) refs (fst acc)"
    using assms by (auto simp: alias_cell_def Let_def dict_get_Inr)
  show ?thesis unfolding acc' map_of_fold_update alias_id_of_def digest_text [OF d] oc option.sel by (rule refl)
qed

lemma aliased_map:
  assumes "fold_r (alias_cell nfc sha256 occs) acc gs = Inr acc'"
  shows "map_of (fst acc') k = Some c \<Longrightarrow> map_of (fst acc) k = Some c \<or>
      (\<exists>i refs anchor. (i, refs, anchor) \<in> set gs \<and> k \<in> set refs \<and> c = alias_id_of sha256 occs refs anchor)"
    "(i, refs, anchor) \<in> set gs \<Longrightarrow> k \<in> set refs \<Longrightarrow> map_of (fst acc') k \<noteq> None"
proof -
  have "(\<forall>k c. map_of (fst acc') k = Some c \<longrightarrow> map_of (fst acc) k = Some c \<or>
      (\<exists>i refs anchor. (i, refs, anchor) \<in> set gs \<and> k \<in> set refs \<and> c = alias_id_of sha256 occs refs anchor)) \<and>
    (\<forall>k. map_of (fst acc) k \<noteq> None \<or> (\<exists>(i, refs, anchor)\<in>set gs. k \<in> set refs) \<longrightarrow> map_of (fst acc') k \<noteq> None)"
    using assms
  proof (induction gs arbitrary: acc)
    case (Cons g gs)
    obtain i refs anchor where g: "g = (i, refs, anchor)" by (cases g)
    from Cons.prems obtain acc1 where acc1: "alias_cell nfc sha256 occs acc (i, refs, anchor) = Inr acc1"
      and rest: "fold_r (alias_cell nfc sha256 occs) acc1 gs = Inr acc'" by (auto simp: g)
    show ?case using Cons.IH [OF rest] unfolding alias_cell_map [OF acc1] by (auto simp: g split: if_splits) blast+
  qed simp
  then show "map_of (fst acc') k = Some c \<Longrightarrow> map_of (fst acc) k = Some c \<or>
      (\<exists>i refs anchor. (i, refs, anchor) \<in> set gs \<and> k \<in> set refs \<and> c = alias_id_of sha256 occs refs anchor)"
    "(i, refs, anchor) \<in> set gs \<Longrightarrow> k \<in> set refs \<Longrightarrow> map_of (fst acc') k \<noteq> None" by blast+
qed

lemma alias_id_anchor:
  assumes "alias_id_of sha256 occs refs anchor = alias_id_of sha256 occs refs' anchor'"
  shows "anchor = anchor' \<or> (\<exists>x y. x \<noteq> y \<and> sha256 x = sha256 y)"
  using assms dumps_binding_anchor unfolding alias_id_of_def by (metis same_append_eq)

lemma alias_not_independent: "alias_id_of sha256 occs refs anchor \<noteq> independent_cell_id ref"
  by (simp add: alias_id_of_def independent_cell_id_def)

lemma check_anchor_all:
  assumes "check_anchor st (anchor, refs) = Inr ()" and "\<not> length refs \<le> 1"
  shows "None \<notin> map_of (occurrence_group st) ` set refs \<and> card (map_of (occurrence_group st) ` set refs) = 1"
  using assms by (auto simp: check_anchor_def Let_def split: if_splits)

text \<open>A checked anchor that two occurrences share is one alias group.\<close>

lemma checked_anchor:
  assumes "\<forall>row\<in>set (by_anchor occs). check_anchor st row = Inr ()" and "distinct (map fst occs)"
    and "map_of occs a = Some oa" and "map_of occs b = Some ob" and "occ_anchor oa = occ_anchor ob" and "a \<noteq> b"
  shows "\<exists>i. map_of (occurrence_group st) a = Some i \<and> map_of (occurrence_group st) b = Some i"
proof -
  let ?refs = "map fst (filter (\<lambda>(ref, oc). occ_anchor oc = occ_anchor oa) occs)"
  have mem: "a \<in> set ?refs" "b \<in> set ?refs" using map_of_SomeD [OF assms(3)] map_of_SomeD [OF assms(4)] assms(5) by force+
  have "occ_anchor oa \<in> fst ` set (by_anchor occs)"
    using map_of_SomeD [OF assms(3)] collect_ok [of "\<lambda>(ref, oc). occ_anchor oc" fst occs] unfolding by_anchor_collect by force
  then obtain refs where row: "(occ_anchor oa, refs) \<in> set (by_anchor occs)" by auto
  then have refs: "refs = ?refs" using collect_ok [of "\<lambda>(ref, oc). occ_anchor oc" fst occs] unfolding by_anchor_collect by (auto simp: split_def)
  have "\<not> length ?refs \<le> 1"
  proof
    assume "length ?refs \<le> 1"
    then have "card (set ?refs) \<le> 1" using card_length order_trans by blast
    moreover have "card {a, b} \<le> card (set ?refs)" using mem by (intro card_mono) simp_all
    ultimately show False using assms(6) by simp
  qed
  moreover have "check_anchor st (occ_anchor oa, ?refs) = Inr ()" using assms(1) row refs by blast
  ultimately have all: "None \<notin> map_of (occurrence_group st) ` set ?refs" "card (map_of (occurrence_group st) ` set ?refs) = 1"
    using check_anchor_all by blast+
  have "map_of (occurrence_group st) a = map_of (occurrence_group st) (hd ?refs)"
    "map_of (occurrence_group st) b = map_of (occurrence_group st) (hd ?refs)" using card_one_all [OF all(2)] mem by blast+
  moreover have "map_of (occurrence_group st) a \<noteq> None" using all(1) mem(1) by force
  ultimately show ?thesis by auto
qed

lemma aliases_of_run:
  assumes "fold_r (parse_alias occs roles) \<lparr>alias_ids = [], occurrence_group = [], parsed_groups = []\<rparr> items = Inr st"
  shows "aliases_ok occs st"
  using assms by (rule fold_r_keeps) (simp add: aliases_ok_def, rule parse_alias_ok)

text \<open>The cell of an occurrence: the name of its alias group, or its own.\<close>

lemma cell_of_occurrence:
  assumes "aliases_ok occs st" and "fold_r (alias_cell nfc sha256 occs) ([], []) (sort_key fst (parsed_groups st)) = Inr acc"
    and "o2c = fold (\<lambda>ref m. setdefault ref (independent_cell_id ref) m) (sort (map fst occs)) (fst acc)" and "map_of occs a = Some oa"
  shows "(\<exists>i refs. (i, refs, occ_anchor oa) \<in> set (parsed_groups st) \<and> a \<in> set refs \<and> map_of (occurrence_group st) a = Some i \<and>
      map_of o2c a = Some (alias_id_of sha256 occs refs (occ_anchor oa))) \<or>
    map_of (occurrence_group st) a = None \<and> map_of o2c a = Some (independent_cell_id a)"
proof (cases "map_of (fst acc) a")
  case None
  have key: "a \<in> fst ` set occs" using map_of_SomeD [OF assms(4)] by (rule rev_image_eqI) simp
  have "map_of (occurrence_group st) a = None"
  proof (rule ccontr)
    assume "map_of (occurrence_group st) a \<noteq> None"
    then obtain i refs anchor where "(i, refs, anchor) \<in> set (parsed_groups st)" "a \<in> set refs"
      using assms(1) unfolding aliases_ok_def by blast
    then show False using aliased_map(2) [OF assms(2), of i refs anchor a] None by simp
  qed
  then show ?thesis using None key by (simp add: assms(3) map_of_fold_setdefault)
next
  case (Some c)
  then obtain i refs anchor where g: "(i, refs, anchor) \<in> set (parsed_groups st)" "a \<in> set refs" "c = alias_id_of sha256 occs refs anchor"
    using aliased_map(1) [OF assms(2) Some] by auto
  then have "map_of (occurrence_group st) a = Some i" "anchor = occ_anchor oa" using assms(1,4) unfolding aliases_ok_def by fastforce+
  then show ?thesis using g Some by (auto simp: assms(3) map_of_fold_setdefault)
qed


end
