(* ===== verification/ManifestExamples.thy ===== *)
theory ManifestExamples
  imports Anchors
begin

text \<open>
  A request document: a parallel fork whose two arms share one stable cell through an alias, with one
  controller for the shared cell. It is parsed and compiled; Unicode normalization and the digest are
  instantiated with the identity.
\<close>

section \<open>The document\<close>

definition doc_cell :: "string \<Rightarrow> json" where
  "doc_cell i = JObject [(''local_id'', JString i), (''atom'', JString ''a''), (''commitment_key'', JString ''k''),
     (''effect_binding_digest'', JString ''e''), (''cell_anchor'', JString ''w''), (''parent'', JString ''s''), (''lease'', JNull)]"

definition doc_arm :: "string \<Rightarrow> json" where
  "doc_arm i = JObject [(''coverage'', JString ''exact''), (''cells'', JList [doc_cell i]),
     (''may_maxima'', JList [JList [JString i]]), (''required_maxima'', JList [JList []])]"

definition doc_ref :: "string \<Rightarrow> string \<Rightarrow> json" where
  "doc_ref role i = JObject [(''role'', JString role), (''local_id'', JString i)]"

definition doc_aliases :: json where
  "doc_aliases = JList [JObject [(''id'', JString ''g''), (''members'', JList [doc_ref ''left'' ''x'', doc_ref ''right'' ''y'']),
     (''evidence'', JObject [(''kind'', JString ''stable_cell_anchor''), (''value'', JString ''w'')])]]"

definition doc_operation :: json where
  "doc_operation = JObject [(''kind'', JString ''ForkParallel''), (''target_version'', JInt 2), (''aliases'', doc_aliases),
     (''gate_uses'', JList [JObject [(''id'', JString ''u''), (''gate_origin'', JString ''o''), (''controller_anchor'', JString ''c''),
        (''controller_version'', JInt 1), (''members'', JList [doc_ref ''left'' ''x'']),
        (''local_maxima'', JList [JList [doc_ref ''left'' ''x'']])]]),
     (''controller_future_maxima'', JList [JList [JString ''c'']]), (''controller_future_coverage'', JString ''exact''),
     (''left'', doc_arm ''x''), (''right'', doc_arm ''y'')]"

definition sample_document :: json where
  "sample_document = JObject [(''schema'', JString request_schema), (''request_id'', JString ''q''),
     (''authority'', JObject [(''id'', JString ''auth''), (''atoms'', JList [JString ''a'']), (''allowed_maxima'', JList [JList [JString ''a'']])]),
     (''source'', JObject [(''version'', JInt 1),
        (''cells'', JList [JObject [(''id'', JString ''s''), (''atom'', JString ''a''), (''cell_anchor'', JString ''w'')]]),
        (''future_maxima'', JList [JList [JString ''s'']]), (''receipt_frontier'', JList []), (''leases'', JList [])]),
     (''ledger'', JList []), (''operation'', doc_operation)]"

lemma sample_parses: "is_ok (parse_request (\<lambda>s. s) (\<lambda>s. s) sample_document)"
  by code_simp

text \<open>Its compilation: the fork inherits the source envelope and is ready.\<close>

lemma sample_compiles:
  "bind_r (compile_request (\<lambda>s. s) (\<lambda>s. s) sample_document) (\<lambda>r. Inr (semantic_class r, readiness r)) = Inr (''Inherit'', ''Ready'')"
  by code_simp

section \<open>The properties at the document\<close>

theorem parsed_requests_well_formed_witness: "\<exists>p. parse_request (\<lambda>s. s) (\<lambda>s. s) sample_document = Inr p \<and> request_ok p"
proof -
  obtain p where p: "parse_request (\<lambda>s. s) (\<lambda>s. s) sample_document = Inr p" using sample_parses by (auto simp: is_ok_iff)
  from parsed_requests_well_formed [OF this] p show ?thesis by blast
qed

definition doc_occurrence :: "string \<Rightarrow> string \<Rightarrow> string \<Rightarrow> arm_occurrence" where
  "doc_occurrence role i anchor = \<lparr>occ_role = role, occ_local = i, occ_atom = ''a'', occ_key = ''k'', occ_effect = ''e'', occ_anchor = anchor,
     occ_parent = None, occ_lease = None\<rparr>"

definition doc_occurrences :: occurrences where
  "doc_occurrences = [((''left'', ''x''), doc_occurrence ''left'' ''x'' ''w''), ((''right'', ''y''), doc_occurrence ''right'' ''y'' ''w''),
     ((''right'', ''z''), doc_occurrence ''right'' ''z'' ''v'')]"


end
